(* ===== verification/Prelude.thy ===== *)
theory Prelude
  imports Main "HOL-Library.Word" "HOL-Library.AList" "HOL-Library.Product_Lexorder"
    "HOL-Library.Multiset"
begin

text \<open>
  Shared vocabulary of the development: the machine integers of the Rust code, results with
  panics, the ordered and hashed collections of the standard library, and the generic lemmas
  on words and lists that several components use.

  A \<open>HashMap\<close> whose values are iterated is an association list (its order stands for the
  unspecified iteration order); a \<open>HashMap\<close> that is only looked up is a partial map; a
  \<open>BTreeMap\<close> or \<open>BTreeSet\<close> is a strictly sorted list, which is its iteration order.
\<close>

section \<open>Types and results\<close>

type_synonym u8 = "8 word"
type_synonym u16 = "16 word"
type_synonym u32 = "32 word"
type_synonym u64 = "64 word"
type_synonym usize = "64 word"
type_synonym bytes = "u8 list"

text \<open>A fallible computation returns an error value or panics; \<open>Inr\<close> is \<open>Ok\<close>.\<close>

datatype 'e fault = Error 'e | Panic

type_synonym ('e, 'a) result = "'e fault + 'a"

abbreviation Ok :: "'a \<Rightarrow> ('e, 'a) result" where "Ok \<equiv> Inr"
abbreviation Err :: "'e \<Rightarrow> ('e, 'a) result" where "Err e \<equiv> Inl (Error e)"
abbreviation Panicked :: "('e, 'a) result" where "Panicked \<equiv> Inl Panic"

text \<open>The \<open>?\<close> operator: go on with the value, or leave with the fault.\<close>

fun and_then :: "('e, 'a) result \<Rightarrow> ('a \<Rightarrow> ('e, 'b) result) \<Rightarrow> ('e, 'b) result" where
  "and_then (Inl f) k = Inl f"
| "and_then (Inr x) k = k x"

lemma and_then_Ok_iff: "and_then r k = Ok y \<longleftrightarrow> (\<exists>x. r = Ok x \<and> k x = Ok y)"
  by (cases r) auto

text \<open>\<open>map_err\<close>: a panic is no error value and passes through.\<close>

fun map_err :: "('e \<Rightarrow> 'f) \<Rightarrow> ('e, 'a) result \<Rightarrow> ('f, 'a) result" where
  "map_err f (Inl (Error e)) = Err (f e)"
| "map_err f (Inl Panic) = Panicked"
| "map_err f (Inr x) = Ok x"

lemma map_err_Ok_iff [simp]: "map_err f r = Ok x \<longleftrightarrow> r = Ok x"
  by (cases "(f, r)" rule: map_err.cases) auto

text \<open>The macro \<open>ensure!\<close> of \<open>primary/src/error.rs\<close>.\<close>

definition ensure :: "bool \<Rightarrow> 'e \<Rightarrow> ('e, unit) result" where
  "ensure b e = (if b then Ok () else Err e)"

lemma ensure_Ok_iff: "ensure b e = Ok u \<longleftrightarrow> b"
  by (simp add: ensure_def)

named_theorems wf_intros \<open>introduction rules for well-formedness predicates\<close>
named_theorems no_wrap \<open>machine arithmetic that does not wrap around\<close>

section \<open>Machine words\<close>

lemma unat_add_no_wrap [no_wrap]:
  "unat (a :: 'a::len word) + unat b < 2 ^ LENGTH('a) \<Longrightarrow> unat (a + b) = unat a + unat b"
  by (simp add: unat_add_lem)

lemma unat_sum_list_no_wrap [no_wrap]:
  fixes ws :: "'a::len word list"
  assumes "sum_list (map unat ws) < 2 ^ LENGTH('a)"
  shows "unat (sum_list ws) = sum_list (map unat ws)"
  using assms
proof (induction ws)
  case Nil
  then show ?case by simp
next
  case (Cons w ws)
  then have "unat (sum_list ws) = sum_list (map unat ws)" by simp
  with Cons.prems show ?case by (simp add: unat_add_no_wrap)
qed

lemma word_of_nat_unat [simp]: "word_of_nat (unat w) = (w :: 'a::len word)"
  by (simp add: of_nat_unat)

text \<open>The half-open range \<open>a..b\<close> and the closed range \<open>a..=b\<close> over \<open>u64\<close>.\<close>

definition u64_range :: "u64 \<Rightarrow> u64 \<Rightarrow> u64 list" where
  "u64_range a b = map word_of_nat [unat a ..< unat b]"

definition u64_range_incl :: "u64 \<Rightarrow> u64 \<Rightarrow> u64 list" where
  "u64_range_incl a b = map word_of_nat [unat a ..< Suc (unat b)]"

lemma set_word_of_nat_upt:
  assumes "n \<le> 2 ^ LENGTH('a)"
  shows "set (map word_of_nat [m ..< n]) = {x :: 'a::len word. m \<le> unat x \<and> unat x < n}"
proof (intro set_eqI iffI)
  fix x :: "'a word"
  assume "x \<in> set (map word_of_nat [m ..< n])"
  then obtain k where "x = word_of_nat k" "m \<le> k" "k < n" by auto
  with assms show "x \<in> {x. m \<le> unat x \<and> unat x < n}"
    by (simp add: unsigned_of_nat take_bit_nat_eq_self)
next
  fix x :: "'a word"
  assume "x \<in> {x. m \<le> unat x \<and> unat x < n}"
  then have "x = word_of_nat (unat x)" "unat x \<in> set [m ..< n]" by auto
  then show "x \<in> set (map word_of_nat [m ..< n])" by (metis image_eqI list.set_map)
qed

lemma set_u64_range [simp]: "set (u64_range a b) = {x. a \<le> x \<and> x < b}"
proof -
  have "unat b \<le> 2 ^ LENGTH(64)" by (rule less_imp_le) (rule unsigned_less)
  then show ?thesis
    unfolding u64_range_def by (simp only: set_word_of_nat_upt) (simp add: word_le_nat_alt word_less_nat_alt)
qed

lemma set_u64_range_incl [simp]: "set (u64_range_incl a b) = {x. a \<le> x \<and> x \<le> b}"
proof -
  have "Suc (unat b) \<le> 2 ^ LENGTH(64)" by (rule Suc_leI) (rule unsigned_less)
  then show ?thesis
    unfolding u64_range_incl_def
    by (simp only: set_word_of_nat_upt) (simp add: word_le_nat_alt less_Suc_eq_le)
qed

text \<open>
  Little-endian bytes of a word (\<open>to_le_bytes\<close>): the list of its bytes, lowest first, and
  the value read back from such a list.
\<close>

definition le_bytes :: "nat \<Rightarrow> 'a::len word \<Rightarrow> bytes" where
  "le_bytes n w = map (\<lambda>i. ucast (drop_bit (8 * i) w)) [0..<n]"

lemma length_le_bytes [simp]: "length (le_bytes n w) = n"
  by (simp add: le_bytes_def)

lemma le_bytes_nth: "i < n \<Longrightarrow> le_bytes n w ! i = ucast (drop_bit (8 * i) w)"
  by (simp add: le_bytes_def)

lemma le_bytes_inject:
  fixes v w :: "'a::len word"
  assumes len: "LENGTH('a) \<le> 8 * n" and eq: "le_bytes n v = le_bytes n w"
  shows "v = w"
proof (rule bit_word_eqI)
  fix k assume k: "k < LENGTH('a)"
  let ?i = "k div 8"
  have i: "?i < n" using k len by auto
  have "bit (le_bytes n v ! ?i) (k mod 8) = bit (le_bytes n w ! ?i) (k mod 8)"
    using eq by simp
  then have "bit v (8 * ?i + k mod 8) = bit w (8 * ?i + k mod 8)"
    using i by (simp add: le_bytes_nth bit_ucast_iff bit_drop_bit_eq del: mult_div_mod_eq)
  then show "bit v k = bit w k" by simp
qed

fun le_word :: "bytes \<Rightarrow> 'a::len word" where
  "le_word [] = 0"
| "le_word (b # bs) = or (ucast b) (push_bit 8 (le_word bs))"

lemma le_bytes_Suc: "le_bytes (Suc n) w = ucast w # le_bytes n (drop_bit 8 w)"
  by (simp add: le_bytes_def upt_conv_Cons map_Suc_upt [symmetric] add.commute del: upt_Suc)

lemma le_word_le_bytes_take: "le_word (le_bytes n w) = take_bit (8 * n) w"
proof (induction n arbitrary: w)
  case 0
  then show ?case by (simp add: le_bytes_def)
next
  case (Suc n)
  show ?case
    by (rule bit_word_eqI)
      (auto simp: le_bytes_Suc Suc.IH bit_or_iff bit_push_bit_iff bit_take_bit_iff bit_ucast_iff bit_drop_bit_eq)
qed

lemma le_word_le_bytes [simp]:
  "LENGTH('a::len) \<le> 8 * n \<Longrightarrow> le_word (le_bytes n w) = (w :: 'a word)"
  by (rule bit_word_eqI) (simp add: le_word_le_bytes_take bit_take_bit_iff)

lemma le_bytes_le_word:
  "8 * length bs \<le> LENGTH('a::len) \<Longrightarrow> le_bytes (length bs) (le_word bs :: 'a word) = bs"
proof (induction bs)
  case Nil
  then show ?case by (simp add: le_bytes_def)
next
  case (Cons b bs)
  have low: "ucast (le_word (b # bs) :: 'a word) = b"
    using Cons.prems by (intro bit_word_eqI) (auto simp: bit_ucast_iff bit_or_iff bit_push_bit_iff)
  have "drop_bit 8 (le_word (b # bs) :: 'a word) = take_bit (LENGTH('a) - 8) (le_word bs)"
    by (rule bit_word_eqI)
      (auto simp: bit_drop_bit_eq bit_or_iff bit_push_bit_iff bit_ucast_iff bit_take_bit_iff
        dest: bit_imp_le_length)
  then have "le_bytes (length bs) (drop_bit 8 (le_word (b # bs) :: 'a word)) =
      le_bytes (length bs) (le_word bs :: 'a word)"
    using Cons.prems
    by (auto simp: le_bytes_def intro!: bit_word_eqI
        simp: bit_ucast_iff bit_drop_bit_eq bit_take_bit_iff)
  with Cons low show ?case by (simp add: le_bytes_Suc del: le_word.simps)
qed

lemma take_bit_le_word:
  "8 * length bs \<le> n \<Longrightarrow> take_bit n (le_word bs :: 'a::len word) = le_word bs"
proof (induction bs arbitrary: n)
  case Nil
  then show ?case by simp
next
  case (Cons b bs)
  have "\<not> bit b k" if "n \<le> k" for k
    using that Cons.prems by (auto dest: bit_imp_le_length)
  moreover have "\<not> bit (le_word bs :: 'a word) (k - 8)" if "n \<le> k" for k
    using Cons.IH [of "n - 8"] that Cons.prems
    by (metis (no_types, lifting) bit_take_bit_iff diff_le_mono leD le_diff_conv2 length_Cons
        mult_Suc_right add_leE add.commute)
  ultimately show ?case
    by (intro bit_word_eqI) (auto simp: bit_take_bit_iff bit_or_iff bit_push_bit_iff bit_ucast_iff not_less)
qed

lemma le_word_append:
  "le_word (xs @ ys) = or (le_word xs) (push_bit (8 * length xs) (le_word ys) :: 'a::len word)"
  by (induction xs) (auto simp: push_bit_or or.assoc intro!: bit_word_eqI
      simp: bit_or_iff bit_push_bit_iff)

section \<open>Loops that may fail\<close>

text \<open>A \<open>for\<close> loop that changes a state, appends to an output and stops at the first fault.\<close>

fun each ::
  "('x \<Rightarrow> 's \<Rightarrow> ('e, 's \<times> 'o list) result) \<Rightarrow> 'x list \<Rightarrow> 's \<Rightarrow> ('e, 's \<times> 'o list) result"
where
  "each f [] s = Ok (s, [])"
| "each f (x # xs) s =
     and_then (f x s) (\<lambda>(s1, out1). and_then (each f xs s1) (\<lambda>(s2, out2). Ok (s2, out1 @ out2)))"

lemma each_Cons_Ok:
  assumes "each f (x # xs) s = Ok (s', out)"
  obtains s1 out1 out2 where "f x s = Ok (s1, out1)" "each f xs s1 = Ok (s', out2)" "out = out1 @ out2"
  using assms by (auto simp: and_then_Ok_iff)

text \<open>A relation between the state and the output so far that every step keeps.\<close>

lemma each_invariant:
  assumes "each f xs s = Ok (s', out)" and "P s acc"
    and "\<And>x s acc s' out. x \<in> set xs \<Longrightarrow> P s acc \<Longrightarrow> f x s = Ok (s', out) \<Longrightarrow> P s' (acc @ out)"
  shows "P s' (acc @ out)"
  using assms
proof (induction xs arbitrary: s acc out)
  case Nil
  then show ?case by simp
next
  case (Cons x xs)
  from Cons.prems(1) obtain s1 out1 out2 where step: "f x s = Ok (s1, out1)"
    "each f xs s1 = Ok (s', out2)" "out = out1 @ out2"
    by (rule each_Cons_Ok)
  have "P s1 (acc @ out1)" by (rule Cons.prems(3) [OF _ Cons.prems(2) step(1)]) simp
  then have "P s' ((acc @ out1) @ out2)" by (rule Cons.IH [OF step(2)]) (auto intro: Cons.prems(3))
  then show ?case by (simp add: step(3))
qed

section \<open>Environment variables\<close>

text \<open>
  \<open>str::parse\<close> for an unsigned integer type: an optional plus sign, at least one decimal digit and
  nothing else, and no overflow.
\<close>

definition digit_value :: "char \<Rightarrow> nat" where
  "digit_value ch = of_char ch - 48"

definition is_digit :: "char \<Rightarrow> bool" where
  "is_digit ch \<longleftrightarrow> 48 \<le> (of_char ch :: nat) \<and> (of_char ch :: nat) \<le> 57"

definition parse_unsigned :: "string \<Rightarrow> 'a::len word option" where
  "parse_unsigned s =
     (let digits = (case s of [] \<Rightarrow> [] | ch # rest \<Rightarrow> if ch = CHR 0x2B then rest else s);
          n = foldl (\<lambda>acc ch. 10 * acc + digit_value ch) 0 digits
      in if digits \<noteq> [] \<and> (\<forall>ch \<in> set digits. is_digit ch) \<and> n < 2 ^ LENGTH('a)
         then Some (word_of_nat n) else None)"

text \<open>A variable that is unset or does not parse counts as its default.\<close>

type_synonym environment = "string \<Rightarrow> string option"

definition env_or :: "environment \<Rightarrow> string \<Rightarrow> 'a::len word \<Rightarrow> 'a word" where
  "env_or env name fallback =
     (case env name of None \<Rightarrow> fallback
      | Some value \<Rightarrow> (case parse_unsigned value of None \<Rightarrow> fallback | Some w \<Rightarrow> w))"

lemma env_or_unset [simp]: "env name = None \<Longrightarrow> env_or env name fallback = fallback"
  by (simp add: env_or_def)

section \<open>Ordered collections\<close>

text \<open>Inserting into a \<open>BTreeMap\<close>: a present key keeps its place and takes the new value.\<close>

fun btree_insert :: "'k::linorder \<Rightarrow> 'v \<Rightarrow> ('k \<times> 'v) list \<Rightarrow> ('k \<times> 'v) list" where
  "btree_insert k v [] = [(k, v)]"
| "btree_insert k v ((k', v') # m) =
     (if k < k' then (k, v) # (k', v') # m
      else if k = k' then (k, v) # m
      else (k', v') # btree_insert k v m)"

definition btree_map_of :: "('k::linorder \<times> 'v) list \<Rightarrow> ('k \<times> 'v) list" where
  "btree_map_of kvs = fold (\<lambda>(k, v). btree_insert k v) kvs []"

definition btree_set_of :: "'k::linorder list \<Rightarrow> 'k list" where
  "btree_set_of xs = remdups (sort xs)"

abbreviation btree_wf :: "('k::linorder \<times> 'v) list \<Rightarrow> bool" where
  "btree_wf m \<equiv> sorted_wrt (<) (map fst m)"

lemma btree_wf_distinct: "btree_wf m \<Longrightarrow> distinct (map fst m)"
  using strict_sorted_iff by blast

lemma keys_btree_insert: "fst ` set (btree_insert k v m) = insert k (fst ` set m)"
  by (induction k v m rule: btree_insert.induct) auto

lemma btree_insert_wf [wf_intros]: "btree_wf m \<Longrightarrow> btree_wf (btree_insert k v m)"
proof (induction m)
  case Nil
  then show ?case by simp
next
  case (Cons a m)
  obtain k' v' where a: "a = (k', v')" by (cases a)
  have keys: "set (map fst (btree_insert k v m)) = insert k (set (map fst m))"
    by (simp add: keys_btree_insert)
  from Cons a show ?case
    by (auto simp: keys keys_btree_insert simp flip: set_map)
qed

lemma map_of_btree_insert: "btree_wf m \<Longrightarrow> map_of (btree_insert k v m) = (map_of m)(k \<mapsto> v)"
proof (induction m)
  case Nil
  then show ?case by auto
next
  case (Cons a m)
  obtain k' v' where a: "a = (k', v')" by (cases a)
  from Cons a show ?case by (auto simp: fun_eq_iff)
qed

lemma btree_fold_insert_wf:
  "btree_wf m \<Longrightarrow> btree_wf (fold (\<lambda>(k, v). btree_insert k v) kvs m)"
  by (induction kvs arbitrary: m) (auto intro: wf_intros)

lemma btree_map_of_wf [simp]: "btree_wf (btree_map_of kvs)"
  by (simp add: btree_map_of_def btree_fold_insert_wf)

lemma btree_fold_map_of:
  "btree_wf m \<Longrightarrow> map_of (fold (\<lambda>(k, v). btree_insert k v) kvs m) = map_of m ++ map_of (rev kvs)"
proof (induction kvs arbitrary: m)
  case Nil
  then show ?case by simp
next
  case (Cons a kvs)
  obtain k v where a: "a = (k, v)" by (cases a)
  have "map_of m ++ map_of (rev (a # kvs)) = (map_of m)(k \<mapsto> v) ++ map_of (rev kvs)"
    unfolding a by (auto simp: fun_eq_iff map_add_def split: option.splits)
  moreover have "map_of (fold (\<lambda>(k, v). btree_insert k v) kvs (btree_insert k v m)) =
      map_of (btree_insert k v m) ++ map_of (rev kvs)"
    by (rule Cons.IH) (simp add: wf_intros Cons.prems)
  ultimately show ?case by (simp only: a fold_simps o_apply prod.case map_of_btree_insert [OF Cons.prems])
qed

text \<open>Collecting pairs into a \<open>BTreeMap\<close> keeps the last value of each key.\<close>

lemma map_of_btree_map_of: "map_of (btree_map_of kvs) = map_of (rev kvs)"
  by (simp add: btree_map_of_def btree_fold_map_of)

lemma set_btree_set_of [simp]: "set (btree_set_of xs) = set xs"
  by (simp add: btree_set_of_def)

lemma sorted_btree_set_of [simp]: "sorted_wrt (<) (btree_set_of xs)"
  by (simp add: btree_set_of_def strict_sorted_iff sorted_remdups)

lemma distinct_btree_set_of [simp]: "distinct (btree_set_of xs)"
  by (simp add: btree_set_of_def)

section \<open>Association lists and lists\<close>

lemma map_of_filter_key:
  "distinct (map fst m) \<Longrightarrow>
   map_of (filter (\<lambda>(k, v). P k v) m) k =
     (case map_of m k of None \<Rightarrow> None | Some v \<Rightarrow> if P k v then Some v else None)"
proof (induction m)
  case Nil
  then show ?case by simp
next
  case (Cons a m)
  obtain k' v' where a: "a = (k', v')" by (cases a)
  have "k' \<notin> fst ` set m" using Cons.prems a by simp
  then have "map_of m k' = None" by (simp add: map_of_eq_None_iff)
  with Cons a show ?case by auto
qed

lemma set_alist_update: "set (AList.update k v m) \<subseteq> insert (k, v) (set m)"
  by (induction m) auto

lemma distinct_map_fst_filter: "distinct (map fst m) \<Longrightarrow> distinct (map fst (filter P m))"
  by (induction m) auto

lemma sum_list_filter_split:
  "sum_list (map f xs) =
     sum_list (map f (filter P xs)) + (sum_list (map f (filter (\<lambda>x. \<not> P x) xs)) :: nat)"
  by (induction xs) auto

section \<open>Ranks and lowest elements\<close>

text \<open>The rank of an element is the number of elements below it; ranks are distinct.\<close>

lemma card_rank_below:
  fixes S :: "'a::linorder set"
  assumes "finite S"
  shows "card {x \<in> S. card {y \<in> S. y < x} < k} = min k (card S)"
proof -
  let ?rank = "\<lambda>x. card {y \<in> S. y < x}"
  have mono: "?rank x < ?rank y" if "x \<in> S" "y \<in> S" "x < y" for x y
    using that assms by (intro psubset_card_mono) auto
  have inj: "inj_on ?rank S"
  proof (rule inj_onI, rule ccontr)
    fix x y assume xy: "x \<in> S" "y \<in> S" "?rank x = ?rank y" "x \<noteq> y"
    then consider "x < y" | "y < x" by (auto elim: linorder_neqE)
    then show False using mono xy by cases fastforce+
  qed
  have sub: "?rank ` S \<subseteq> {..<card S}"
    using assms by (auto intro!: psubset_card_mono)
  then have "?rank ` S = {..<card S}"
    using inj by (intro card_subset_eq) (auto simp: card_image)
  then have img: "?rank ` {x \<in> S. ?rank x < k} = {..<min k (card S)}"
  proof (intro set_eqI iffI)
    fix i assume img: "?rank ` S = {..<card S}" and "i \<in> {..<min k (card S)}"
    then have "i \<in> ?rank ` S" "i < k" by auto
    then show "i \<in> ?rank ` {x \<in> S. ?rank x < k}" by blast
  qed auto
  have "inj_on ?rank {x \<in> S. ?rank x < k}"
    using inj by (rule inj_on_subset) auto
  then have "card (?rank ` {x \<in> S. ?rank x < k}) = card {x \<in> S. ?rank x < k}"
    by (rule card_image)
  then show ?thesis by (simp add: img)
qed

lemma length_filter_card: "distinct xs \<Longrightarrow> length (filter P xs) = card {x \<in> set xs. P x}"
  by (simp add: distinct_card [symmetric] Int_def conj_commute flip: distinct_length_filter)

text \<open>Taking the \<open>k\<close> lowest of a list of scored items with distinct items selects \<open>k\<close> of them.\<close>

lemma card_lowest_scored:
  fixes slots :: "('s::linorder \<times> 'r::linorder) list"
  assumes "distinct (map snd slots)"
  shows "card (snd ` set (take k (sort slots))) = min k (length slots)"
proof -
  have "distinct (map snd (sort slots))"
  proof -
    have "mset (map snd (sort slots)) = mset (map snd slots)" by simp
    then show ?thesis using assms by (metis mset_eq_imp_distinct_iff)
  qed
  then have "distinct (map snd (take k (sort slots)))" by (simp flip: take_map)
  then have "card (set (map snd (take k (sort slots)))) = length (take k (sort slots))"
    by (metis distinct_card length_map)
  then show ?thesis by simp
qed

section \<open>Runs\<close>

text \<open>Feeding a list of messages to a step function, collecting the outputs.\<close>

fun run_steps :: "('m \<Rightarrow> 's \<Rightarrow> 's \<times> 'o) \<Rightarrow> 'm list \<Rightarrow> 's \<Rightarrow> 's \<times> 'o list" where
  "run_steps f [] s = (s, [])"
| "run_steps f (m # ms) s =
     (let (s1, out1) = f m s; (s2, out2) = run_steps f ms s1 in (s2, out1 # out2))"

lemma fst_run_steps_Cons [simp]:
  "fst (run_steps f (m # ms) s) = fst (run_steps f ms (fst (f m s)))"
  by (simp add: Let_def split: prod.splits)

lemma snd_run_steps_Cons [simp]:
  "snd (run_steps f (m # ms) s) = snd (f m s) # snd (run_steps f ms (fst (f m s)))"
  by (simp add: Let_def split: prod.splits)

lemma run_steps_append:
  "run_steps f (ms @ ns) s =
     (let (s1, out1) = run_steps f ms s; (s2, out2) = run_steps f ns s1 in (s2, out1 @ out2))"
  by (induction ms arbitrary: s) (auto simp: Let_def split: prod.splits)

lemma run_steps_map_output:
  "run_steps (\<lambda>m s. (fst (f m s), g (snd (f m s)))) ms s =
     (fst (run_steps f ms s), map g (snd (run_steps f ms s)))"
  by (induction ms arbitrary: s) (auto simp: Let_def split: prod.splits)

lemma run_steps_map_input: "run_steps f (map g ms) s = run_steps (\<lambda>m. f (g m)) ms s"
  by (induction ms arbitrary: s) auto

text \<open>An invariant of every step is an invariant of the run.\<close>

lemma run_steps_invariant:
  assumes "P s" and "\<And>m s. m \<in> set ms \<Longrightarrow> P s \<Longrightarrow> P (fst (f m s))"
  shows "P (fst (run_steps f ms s))"
  using assms
proof (induction ms arbitrary: s)
  case Nil
  then show ?case by simp
next
  case (Cons m ms)
  have "P (fst (run_steps f ms (fst (f m s))))"
    by (rule Cons.IH) (use Cons.prems in auto)
  then show ?case by (simp del: run_steps.simps)
qed

text \<open>What every step guarantees of its output under an invariant holds of every output of the run.\<close>

lemma run_steps_outputs:
  assumes "P s" and "\<And>m s. m \<in> set ms \<Longrightarrow> P s \<Longrightarrow> P (fst (f m s)) \<and> Q (snd (f m s))"
    and "out \<in> set (snd (run_steps f ms s))"
  shows "Q out"
  using assms
proof (induction ms arbitrary: s)
  case Nil
  then show ?case by simp
next
  case (Cons m ms)
  have step: "P (fst (f m s))" "Q (snd (f m s))" using Cons.prems by auto
  from Cons.prems(3) have "out = snd (f m s) \<or> out \<in> set (snd (run_steps f ms (fst (f m s))))"
    by (simp del: run_steps.simps)
  then show ?case using step Cons.IH [of "fst (f m s)"] Cons.prems(2) by auto
qed

end
