(* ===== verification/Crypto.thy ===== *)
theory Crypto
  imports Prelude
begin

text \<open>
  The crate \<open>crypto\<close>: digests, public keys and signatures as fixed-width byte arrays, and
  the operations built on the third-party crates. A \<open>[u8; 32]\<close> is a 256-bit word read
  big-endian, so that the derived lexicographic order on the array is the order of the word.
  The crates \<open>ed25519_dalek\<close> (signatures, SHA-512) and \<open>base64\<close> are the record of functions
  \<open>dalek\<close> and a decoder argument: parameters of every definition that calls them.
\<close>

section \<open>Byte arrays\<close>

type_synonym b256 = "256 word"
type_synonym b512 = "512 word"

text \<open>The bytes of an array, in order (\<open>to_vec\<close>, \<open>as_ref\<close>).\<close>

definition be_bytes :: "nat \<Rightarrow> 'a::len word \<Rightarrow> bytes" where
  "be_bytes n w = rev (le_bytes n w)"

lemma length_be_bytes [simp]: "length (be_bytes n w) = n"
  by (simp add: be_bytes_def)

lemma be_bytes_inject:
  "LENGTH('a::len) \<le> 8 * n \<Longrightarrow> be_bytes n (v :: 'a word) = be_bytes n w \<longleftrightarrow> v = w"
  by (auto simp: be_bytes_def dest: le_bytes_inject)

text \<open>The first 32 bytes and the last 32 bytes of a 64-byte array.\<close>

definition first32 :: "b512 \<Rightarrow> b256" where
  "first32 w = ucast (drop_bit 256 w)"

definition last32 :: "b512 \<Rightarrow> b256" where
  "last32 w = ucast w"

lemma word_cat_first_last: "word_cat (first32 w) (last32 w) = w"
  by (rule bit_word_eqI) (auto simp: bit_word_cat_iff first32_def last32_def bit_ucast_iff bit_drop_bit_eq)

lemma first32_word_cat [simp]: "first32 (word_cat (a :: b256) (b :: b256)) = a"
  by (rule bit_word_eqI)
    (auto simp: bit_word_cat_iff first32_def bit_ucast_iff bit_drop_bit_eq)

lemma last32_word_cat [simp]: "last32 (word_cat (a :: b256) (b :: b256)) = b"
  by (rule bit_word_eqI) (auto simp: bit_word_cat_iff last32_def bit_ucast_iff)

section \<open>Digests and public keys\<close>

datatype digest = Digest (digest_bits: b256)

datatype public_key = PublicKey (key_bits: b256)

definition digest_to_vec :: "digest \<Rightarrow> bytes" where
  "digest_to_vec d = be_bytes 32 (digest_bits d)"

definition digest_size :: "digest \<Rightarrow> usize" where
  "digest_size d = word_of_nat (length (digest_to_vec d))"

definition key_as_ref :: "public_key \<Rightarrow> bytes" where
  "key_as_ref k = be_bytes 32 (key_bits k)"

definition digest_default :: digest where
  "digest_default = Digest 0"

definition public_key_default :: public_key where
  "public_key_default = PublicKey 0"

instantiation digest :: linorder
begin

definition less_eq_digest :: "digest \<Rightarrow> digest \<Rightarrow> bool" where
  "d \<le> e \<longleftrightarrow> digest_bits d \<le> digest_bits e"

definition less_digest :: "digest \<Rightarrow> digest \<Rightarrow> bool" where
  "d < e \<longleftrightarrow> digest_bits d < digest_bits e"

instance
  by standard (auto simp: less_eq_digest_def less_digest_def digest.expand)

end

instantiation public_key :: linorder
begin

definition less_eq_public_key :: "public_key \<Rightarrow> public_key \<Rightarrow> bool" where
  "k \<le> l \<longleftrightarrow> key_bits k \<le> key_bits l"

definition less_public_key :: "public_key \<Rightarrow> public_key \<Rightarrow> bool" where
  "k < l \<longleftrightarrow> key_bits k < key_bits l"

instance
  by standard (auto simp: less_eq_public_key_def less_public_key_def public_key.expand)

end

lemma less_digest_Digest [simp]: "Digest a < Digest b \<longleftrightarrow> a < b"
  by (simp add: less_digest_def)

lemma less_eq_digest_Digest [simp]: "Digest a \<le> Digest b \<longleftrightarrow> a \<le> b"
  by (simp add: less_eq_digest_def)

lemma less_public_key_PublicKey [simp]: "PublicKey a < PublicKey b \<longleftrightarrow> a < b"
  by (simp add: less_public_key_def)

lemma less_eq_public_key_PublicKey [simp]: "PublicKey a \<le> PublicKey b \<longleftrightarrow> a \<le> b"
  by (simp add: less_eq_public_key_def)

lemma digest_to_vec_inject [simp]: "digest_to_vec d = digest_to_vec e \<longleftrightarrow> d = e"
  by (cases d; cases e) (simp add: digest_to_vec_def be_bytes_inject)

lemma key_as_ref_inject [simp]: "key_as_ref k = key_as_ref l \<longleftrightarrow> k = l"
  by (cases k; cases l) (simp add: key_as_ref_def be_bytes_inject)

lemma length_digest_to_vec [simp]: "length (digest_to_vec d) = 32"
  by (simp add: digest_to_vec_def)

lemma length_key_as_ref [simp]: "length (key_as_ref k) = 32"
  by (simp add: key_as_ref_def)

text \<open>
  Reading an array back from its bytes, and the order: \<open>[u8; 32]\<close> is compared byte by byte
  from the front, which is the numeric order of the big-endian word.
\<close>

definition be_word :: "bytes \<Rightarrow> 'a::len word" where
  "be_word bs = le_word (rev bs)"

lemma be_word_be_bytes [simp]:
  "LENGTH('a::len) \<le> 8 * n \<Longrightarrow> be_word (be_bytes n w) = (w :: 'a word)"
  by (simp add: be_word_def be_bytes_def)

lemma be_bytes_be_word:
  "length bs = n \<Longrightarrow> 8 * n \<le> LENGTH('a::len) \<Longrightarrow> be_bytes n (be_word bs :: 'a word) = bs"
  using le_bytes_le_word [where 'a = 'a and bs = "rev bs"] by (simp add: be_bytes_def be_word_def)

text \<open>The first byte of an array decides the comparison of two arrays that differ there.\<close>

lemma first_byte:
  assumes "length xs = 31"
  shows "drop_bit 248 (be_word (a # xs) :: b256) = ucast a"
proof (rule bit_word_eqI)
  fix n assume n: "n < LENGTH(256)"
  have tb: "take_bit 248 (le_word (rev xs) :: b256) = le_word (rev xs)"
    by (rule take_bit_le_word) (simp add: assms)
  have "\<not> bit (le_word (rev xs) :: b256) (248 + n)"
    by (subst tb [symmetric]) (simp add: bit_take_bit_iff)
  with n assms show "bit (drop_bit 248 (be_word (a # xs) :: b256)) n = bit (ucast a :: b256) n"
    by (auto simp: be_word_def le_word_append bit_drop_bit_eq bit_or_iff bit_push_bit_iff bit_ucast_iff
        dest: bit_imp_le_length)
qed

lemma first_byte_less:
  assumes "length xs = 31" "length ys = 31" "a < b"
  shows "be_word (a # xs) < (be_word (b # ys) :: b256)"
proof (rule ccontr)
  assume "\<not> ?thesis"
  then have "unat (be_word (b # ys) :: b256) \<le> unat (be_word (a # xs) :: b256)"
    by (simp add: word_le_nat_alt not_less)
  then have "drop_bit 248 (unat (be_word (b # ys) :: b256)) \<le> drop_bit 248 (unat (be_word (a # xs) :: b256))"
    by (simp only: drop_bit_eq_div div_le_mono)
  then have "unat (drop_bit 248 (be_word (b # ys) :: b256)) \<le> unat (drop_bit 248 (be_word (a # xs) :: b256))"
    by (simp only: unsigned_drop_bit_eq take_bit_nat_eq_self unsigned_less)
  moreover have "unat (ucast c :: b256) = unat c" for c :: u8
  proof -
    have "unat c < 2 ^ LENGTH(256)" by (rule less_le_trans [OF unsigned_less]) simp
    then show ?thesis by (simp only: unsigned_ucast_eq take_bit_nat_eq_self)
  qed
  ultimately have "unat b \<le> unat a"
    by (simp add: first_byte assms)
  with assms(3) show False by (simp add: word_less_nat_alt)
qed

section \<open>The third-party crates\<close>

record dalek =
  sha512 :: "bytes \<Rightarrow> b512"
  keypair_from_bytes :: "b512 \<Rightarrow> bool"
  keypair_sign :: "b512 \<Rightarrow> bytes \<Rightarrow> b512"
  signature_from_bytes :: "b512 \<Rightarrow> bool"
  pubkey_from_bytes :: "b256 \<Rightarrow> bool"
  verify_strict :: "b256 \<Rightarrow> bytes \<Rightarrow> b512 \<Rightarrow> bool"
  batch_verify :: "bytes list \<Rightarrow> b512 list \<Rightarrow> b256 list \<Rightarrow> bool"

text \<open>A digest is made of the first 32 bytes of a SHA-512 hash.\<close>

definition hash32 :: "dalek \<Rightarrow> bytes \<Rightarrow> digest" where
  "hash32 dk bs = Digest (first32 (sha512 dk bs))"

datatype crypto_error = CryptoError

section \<open>Signatures\<close>

record signature =
  part1 :: b256
  part2 :: b256

datatype secret_key = SecretKey (secret_bits: b512)

definition signature_default :: signature where
  "signature_default = \<lparr>part1 = 0, part2 = 0\<rparr>"

definition signature_flatten :: "signature \<Rightarrow> b512" where
  "signature_flatten s = word_cat (part1 s) (part2 s)"

text \<open>\<open>Keypair::from_bytes(..).expect(..)\<close> panics on bytes that are no key pair.\<close>

definition signature_new :: "dalek \<Rightarrow> digest \<Rightarrow> secret_key \<Rightarrow> (crypto_error, signature) result" where
  "signature_new dk d secret =
     (if keypair_from_bytes dk (secret_bits secret)
      then let sig = keypair_sign dk (secret_bits secret) (digest_to_vec d)
           in Ok \<lparr>part1 = first32 sig, part2 = last32 sig\<rparr>
      else Panicked)"

definition signature_verify ::
  "dalek \<Rightarrow> signature \<Rightarrow> digest \<Rightarrow> public_key \<Rightarrow> (crypto_error, unit) result" where
  "signature_verify dk s d pk =
     (if \<not> signature_from_bytes dk (signature_flatten s) then Err CryptoError
      else if \<not> pubkey_from_bytes dk (key_bits pk) then Err CryptoError
      else if verify_strict dk (key_bits pk) (digest_to_vec d) (signature_flatten s) then Ok ()
      else Err CryptoError)"

text \<open>The loop of \<open>verify_batch\<close>: the three vectors it fills, or the first decoding error.\<close>

fun collect_batch ::
  "dalek \<Rightarrow> digest \<Rightarrow> (public_key \<times> signature) list \<Rightarrow> bytes list \<times> b512 list \<times> b256 list
   \<Rightarrow> (crypto_error, bytes list \<times> b512 list \<times> b256 list) result" where
  "collect_batch dk d [] acc = Ok acc"
| "collect_batch dk d ((key, sig) # votes) (messages, signatures, keys) =
     (if \<not> signature_from_bytes dk (signature_flatten sig) then Err CryptoError
      else if \<not> pubkey_from_bytes dk (key_bits key) then Err CryptoError
      else collect_batch dk d votes
        (messages @ [digest_to_vec d], signatures @ [signature_flatten sig], keys @ [key_bits key]))"

definition signature_verify_batch ::
  "dalek \<Rightarrow> digest \<Rightarrow> (public_key \<times> signature) list \<Rightarrow> (crypto_error, unit) result" where
  "signature_verify_batch dk d votes =
     and_then (collect_batch dk d votes ([], [], []))
       (\<lambda>(messages, signatures, keys).
          if batch_verify dk messages signatures keys then Ok () else Err CryptoError)"

text \<open>
  The signature service answers each request by \<open>Signature::new\<close> with the node's secret; a
  service that panicked drops the reply channel, and the request panics in turn.
\<close>

definition request_signature ::
  "dalek \<Rightarrow> secret_key \<Rightarrow> digest \<Rightarrow> (crypto_error, signature) result" where
  "request_signature dk secret d = signature_new dk d secret"

lemma signature_flatten_new:
  "signature_new dk d secret = Ok s \<Longrightarrow>
   signature_flatten s = keypair_sign dk (secret_bits secret) (digest_to_vec d)"
  by (auto simp: signature_new_def signature_flatten_def Let_def word_cat_first_last split: if_splits)

lemma collect_batch_Ok:
  "(\<forall>(key, sig) \<in> set votes. signature_from_bytes dk (signature_flatten sig) \<and>
      pubkey_from_bytes dk (key_bits key)) \<Longrightarrow>
   collect_batch dk d votes (ms, ss, ks) =
     Ok (ms @ map (\<lambda>_. digest_to_vec d) votes, ss @ map (signature_flatten \<circ> snd) votes,
         ks @ map (key_bits \<circ> fst) votes)"
  by (induction votes arbitrary: ms ss ks) auto

lemma collect_batch_Ok_decodes:
  "collect_batch dk d votes acc = Ok r \<Longrightarrow>
   \<forall>(key, sig) \<in> set votes. signature_from_bytes dk (signature_flatten sig) \<and>
      pubkey_from_bytes dk (key_bits key)"
  by (induction dk d votes acc rule: collect_batch.induct) (auto split: if_splits)

section \<open>Keys as text\<close>

text \<open>
  \<open>decode_base64\<close> slices the first 32 bytes before it converts them: a shorter input panics in
  the slice, and the conversion of the 32-byte slice cannot fail. The decoder \<open>b64_decode\<close> and the encoder
  \<open>b64_encode\<close> are those of the crate \<open>base64\<close>.
\<close>

datatype decode_error = DecodeError

definition public_key_encode_base64 :: "(bytes \<Rightarrow> string) \<Rightarrow> public_key \<Rightarrow> string" where
  "public_key_encode_base64 b64_encode k = b64_encode (key_as_ref k)"

definition public_key_decode_base64 ::
  "(string \<Rightarrow> bytes option) \<Rightarrow> string \<Rightarrow> (decode_error, public_key) result" where
  "public_key_decode_base64 b64_decode s =
     (case b64_decode s of
        None \<Rightarrow> Err DecodeError
      | Some bs \<Rightarrow> if length bs < 32 then Panicked else Ok (PublicKey (be_word (take 32 bs))))"

definition secret_key_encode_base64 :: "(bytes \<Rightarrow> string) \<Rightarrow> secret_key \<Rightarrow> string" where
  "secret_key_encode_base64 b64_encode k = b64_encode (be_bytes 64 (secret_bits k))"

definition secret_key_decode_base64 ::
  "(string \<Rightarrow> bytes option) \<Rightarrow> string \<Rightarrow> (decode_error, secret_key) result" where
  "secret_key_decode_base64 b64_decode s =
     (case b64_decode s of
        None \<Rightarrow> Err DecodeError
      | Some bs \<Rightarrow> if length bs < 64 then Panicked else Ok (SecretKey (be_word (take 64 bs))))"

section \<open>A concrete instance\<close>

text \<open>
  Functions for the third-party crates with which examples are computed: the hash keeps byte 32
  (the low byte of the round, in headers and votes) and the last byte of its input, a key pair signs
  with its own bits, and every signature decodes and is accepted.
\<close>

definition ex_dalek :: dalek where
  "ex_dalek =
     \<lparr>sha512 = (\<lambda>bs. word_cat (256 * ucast (bs ! 32) + ucast (last bs) :: b256) (0 :: b256)),
      keypair_from_bytes = (\<lambda>_. True),
      keypair_sign = (\<lambda>secret _. secret),
      signature_from_bytes = (\<lambda>_. True),
      pubkey_from_bytes = (\<lambda>_. True),
      verify_strict = (\<lambda>_ _ _. True),
      batch_verify = (\<lambda>_ _ _. True)\<rparr>"

lemma ex_dalek_simps [simp]:
  "sha512 ex_dalek bs = word_cat (256 * ucast (bs ! 32) + ucast (last bs) :: b256) (0 :: b256)"
  "keypair_from_bytes ex_dalek w" "keypair_sign ex_dalek w bs = w"
  "signature_from_bytes ex_dalek w" "pubkey_from_bytes ex_dalek v"
  "verify_strict ex_dalek v bs w" "batch_verify ex_dalek ms ss ks"
  by (simp_all add: ex_dalek_def)

lemma ex_hash32: "hash32 ex_dalek bs = Digest (256 * ucast (bs ! 32) + ucast (last bs))"
  by (simp add: hash32_def)

section \<open>Properties\<close>

text \<open>
  Public keys survive their text form: with a base64 decoder that inverts the encoder on the
  32 key bytes, decoding an encoded key gives the key back.
\<close>

theorem public_key_base64_roundtrip:
  assumes "b64_decode (b64_encode (key_as_ref k)) = Some (key_as_ref k)"
  shows "public_key_decode_base64 b64_decode (public_key_encode_base64 b64_encode k) = Ok k"
proof -
  have "be_word (take 32 (key_as_ref k)) = key_bits k"
    by (simp add: key_as_ref_def)
  with assms show ?thesis
    by (simp add: public_key_decode_base64_def public_key_encode_base64_def)
qed

text \<open>A codec for the examples: a byte is written as the character of its code.\<close>

definition ex_encode :: "bytes \<Rightarrow> string" where
  "ex_encode bs = map (\<lambda>b. char_of (unat b)) bs"

definition ex_decode :: "string \<Rightarrow> bytes option" where
  "ex_decode s = Some (map (\<lambda>ch. word_of_nat (of_char ch)) s)"

lemma ex_decode_encode: "ex_decode (ex_encode bs) = Some bs"
proof -
  have "word_of_nat (of_char (char_of (unat b) :: char)) = b" for b :: u8
  proof -
    have "unat b < 256" using unsigned_less [of b] by simp
    then show ?thesis by (simp add: of_char_of)
  qed
  then show ?thesis by (simp add: ex_decode_def ex_encode_def comp_def map_idI)
qed

theorem public_key_base64_roundtrip_witness:
  "public_key_decode_base64 ex_decode (public_key_encode_base64 ex_encode (PublicKey 258)) =
     Ok (PublicKey 258)"
  by (rule public_key_base64_roundtrip) (rule ex_decode_encode)

text \<open>
  Text that decodes to fewer than 32 bytes makes the decoder of public keys panic in its slice
  instead of returning the error it prepares, and bytes past the 32nd are silently ignored.
\<close>

theorem public_key_decode_short_or_long:
  "(public_key_decode_base64 (\<lambda>_. Some bs) s = Panicked \<longleftrightarrow> length bs < 32) \<and>
   public_key_decode_base64 (\<lambda>_. Some (key_as_ref k @ extra)) s = Ok k"
proof -
  have "be_word (take 32 (key_as_ref k @ extra)) = key_bits k"
    by (simp add: key_as_ref_def)
  then show ?thesis by (simp add: public_key_decode_base64_def)
qed

end
