(* ===== verification/Config.thy ===== *)
theory Config
  imports Crypto
begin

text \<open>
  The crate \<open>config\<close>: parameters, addresses, the committee and its stake arithmetic. The
  committee's \<open>BTreeMap\<close> is a strictly sorted association list (\<open>committee_wf\<close>); the workers of an
  authority, a \<open>HashMap\<close> that is iterated, an association list with distinct keys. The files
  are in \<open>ConfigFiles\<close>. The locale \<open>weighted_quorum\<close> states what the rest of the
  program relies on: any two quorums share the stake of a validity threshold.
\<close>

section \<open>Parameters, addresses, authorities\<close>

type_synonym stake = u32
type_synonym worker_id = u32

record parameters =
  header_size :: usize
  max_header_delay :: u64
  gc_depth :: u64
  sync_retry_delay :: u64
  sync_retry_nodes :: usize
  batch_size :: usize
  max_batch_delay :: u64

definition parameters_default :: parameters where
  "parameters_default =
     \<lparr>header_size = 1000, max_header_delay = 100, gc_depth = 50, sync_retry_delay = 5000,
      sync_retry_nodes = 3, batch_size = 500000, max_batch_delay = 100\<rparr>"

datatype ip_addr = V4 "32 word" | V6 "128 word"

record socket_addr =
  ip :: ip_addr
  port :: u16

record primary_addresses =
  primary_to_primary :: socket_addr
  worker_to_primary :: socket_addr

record worker_addresses =
  transactions :: socket_addr
  worker_to_worker :: socket_addr
  primary_to_worker :: socket_addr

record authority =
  voting_power :: stake
  primary_addrs :: primary_addresses
  workers :: "(worker_id \<times> worker_addresses) list"

record committee =
  authorities :: "(public_key \<times> authority) list"

datatype config_error =
  NotInCommittee public_key
| UnknownWorker worker_id
| ImportError string string
| ExportError string string

definition committee_wf :: "committee \<Rightarrow> bool" where
  "committee_wf c \<longleftrightarrow> btree_wf (authorities c)"

definition names :: "committee \<Rightarrow> public_key list" where
  "names c = map fst (authorities c)"

section \<open>The committee's operations\<close>

definition committee_size :: "committee \<Rightarrow> usize" where
  "committee_size c = word_of_nat (length (authorities c))"

definition stake_of :: "committee \<Rightarrow> public_key \<Rightarrow> stake" where
  "stake_of c name = (case map_of (authorities c) name of None \<Rightarrow> 0 | Some a \<Rightarrow> voting_power a)"

definition others_stake :: "committee \<Rightarrow> public_key \<Rightarrow> (public_key \<times> stake) list" where
  "others_stake c myself =
     map (\<lambda>(name, a). (name, voting_power a)) (filter (\<lambda>(name, _). name \<noteq> myself) (authorities c))"

definition total_votes :: "committee \<Rightarrow> stake" where
  "total_votes c = sum_list (map (\<lambda>(_, a). voting_power a) (authorities c))"

definition quorum_threshold :: "committee \<Rightarrow> stake" where
  "quorum_threshold c = 2 * total_votes c div 3 + 1"

definition validity_threshold :: "committee \<Rightarrow> stake" where
  "validity_threshold c = (total_votes c + 2) div 3"

definition primary_of :: "committee \<Rightarrow> public_key \<Rightarrow> (config_error, primary_addresses) result" where
  "primary_of c to =
     (case map_of (authorities c) to of
        Some a \<Rightarrow> Ok (primary_addrs a)
      | None \<Rightarrow> Err (NotInCommittee to))"

definition others_primaries :: "committee \<Rightarrow> public_key \<Rightarrow> (public_key \<times> primary_addresses) list" where
  "others_primaries c myself =
     map (\<lambda>(name, a). (name, primary_addrs a)) (filter (\<lambda>(name, _). name \<noteq> myself) (authorities c))"

definition worker_of ::
  "committee \<Rightarrow> public_key \<Rightarrow> worker_id \<Rightarrow> (config_error, worker_addresses) result" where
  "worker_of c to wid =
     (case find (\<lambda>(name, _). name = to) (authorities c) of
        None \<Rightarrow> Err (NotInCommittee to)
      | Some (_, a) \<Rightarrow>
          (case find (\<lambda>(worker_id, _). worker_id = wid) (workers a) of
             None \<Rightarrow> Err (NotInCommittee to)
           | Some (_, w) \<Rightarrow> Ok w))"

definition our_workers :: "committee \<Rightarrow> public_key \<Rightarrow> (config_error, worker_addresses list) result" where
  "our_workers c myself =
     (case find (\<lambda>(name, _). name = myself) (authorities c) of
        None \<Rightarrow> Err (NotInCommittee myself)
      | Some (_, a) \<Rightarrow> Ok (map snd (workers a)))"

definition others_workers ::
  "committee \<Rightarrow> public_key \<Rightarrow> worker_id \<Rightarrow> (public_key \<times> worker_addresses) list" where
  "others_workers c myself wid =
     List.map_filter
       (\<lambda>(name, a).
          map_option (\<lambda>(_, addresses). (name, addresses))
            (find (\<lambda>(worker_id, _). worker_id = wid) (workers a)))
       (filter (\<lambda>(name, _). name \<noteq> myself) (authorities c))"

section \<open>Weighted quorums\<close>

text \<open>
  What the protocol needs of the two thresholds, for any committee that satisfies \<open>invar\<close>:
  two quorums overlap in a validity threshold, and a quorum meets every set that reaches the
  validity threshold.
\<close>

locale weighted_quorum =
  fixes invar :: "'c \<Rightarrow> bool"
    and members :: "'c \<Rightarrow> 'k set"
    and weight :: "'c \<Rightarrow> 'k \<Rightarrow> nat"
    and quorum :: "'c \<Rightarrow> nat"
    and validity :: "'c \<Rightarrow> nat"
  assumes finite_members: "invar c \<Longrightarrow> finite (members c)"
    and two_quorums: "invar c \<Longrightarrow> validity c + sum (weight c) (members c) \<le> 2 * quorum c"
    and quorum_and_validity: "invar c \<Longrightarrow> sum (weight c) (members c) < quorum c + validity c"
    and validity_le_quorum: "invar c \<Longrightarrow> validity c \<le> quorum c"
    and non_member_weight: "k \<notin> members c \<Longrightarrow> weight c k = 0"
begin

lemma weight_restrict:
  assumes "finite P"
  shows "sum (weight c) P = sum (weight c) (P \<inter> members c)"
  using assms non_member_weight by (intro sum.mono_neutral_right) auto

lemma overlap_weight:
  assumes c: "invar c" and sub: "P \<subseteq> members c" "Q \<subseteq> members c"
  shows "sum (weight c) P + sum (weight c) Q \<le> sum (weight c) (members c) + sum (weight c) (P \<inter> Q)"
proof -
  have fin: "finite (members c)" by (rule finite_members) (rule c)
  with sub have finPQ: "finite P" "finite Q" by (auto intro: finite_subset)
  have "sum (weight c) P + sum (weight c) Q = sum (weight c) (P \<union> Q) + sum (weight c) (P \<inter> Q)"
    using finPQ by (simp add: sum.union_inter)
  moreover have "sum (weight c) (P \<union> Q) \<le> sum (weight c) (members c)"
    using fin sub by (intro sum_mono2) auto
  ultimately show ?thesis by simp
qed

lemma quorums_share_validity:
  assumes "invar c" "P \<subseteq> members c" "Q \<subseteq> members c"
    and "quorum c \<le> sum (weight c) P" "quorum c \<le> sum (weight c) Q"
  shows "validity c \<le> sum (weight c) (P \<inter> Q)"
  using overlap_weight [OF assms(1-3)] two_quorums [OF assms(1)] assms(4,5) by linarith

lemma quorum_meets_validity:
  assumes "invar c" "P \<subseteq> members c" "Q \<subseteq> members c"
    and "quorum c \<le> sum (weight c) P" "validity c \<le> sum (weight c) Q"
  shows "P \<inter> Q \<noteq> {}"
proof
  assume "P \<inter> Q = {}"
  with overlap_weight [OF assms(1-3)] have "sum (weight c) P + sum (weight c) Q \<le> sum (weight c) (members c)"
    by simp
  with quorum_and_validity [OF assms(1)] assms(4,5) show False by linarith
qed

text \<open>Two quorums have a member in common that is in \<open>H\<close>, when the others weigh less than the validity threshold.\<close>

lemma quorums_share_honest:
  assumes "invar c" "P \<subseteq> members c" "Q \<subseteq> members c"
    and "quorum c \<le> sum (weight c) P" "quorum c \<le> sum (weight c) Q"
    and "sum (weight c) (members c - H) < validity c"
  obtains k where "k \<in> H" "k \<in> P" "k \<in> Q"
proof -
  have "\<not> P \<inter> Q \<subseteq> members c - H"
  proof
    assume "P \<inter> Q \<subseteq> members c - H"
    then have "sum (weight c) (P \<inter> Q) \<le> sum (weight c) (members c - H)"
      using finite_members [OF assms(1)] by (intro sum_mono2) auto
    then show False using quorums_share_validity [OF assms(1-5)] assms(6) by simp
  qed
  then show thesis using that assms(2) by blast
qed

lemma quorum_once:
  assumes c: "invar c" and fin: "finite P" "finite Q" and disj: "P \<inter> Q = {}"
    and quorum: "quorum c \<le> sum (weight c) P"
  shows "sum (weight c) Q < quorum c"
proof -
  have "sum (weight c) (P \<inter> members c) + sum (weight c) (Q \<inter> members c) \<le>
      sum (weight c) (members c) + sum (weight c) (P \<inter> members c \<inter> (Q \<inter> members c))"
    by (rule overlap_weight) (use c in auto)
  moreover have "P \<inter> members c \<inter> (Q \<inter> members c) = {}" using disj by blast
  ultimately have "sum (weight c) P + sum (weight c) Q \<le> sum (weight c) (members c)"
    using weight_restrict [OF fin(1)] weight_restrict [OF fin(2)] by simp
  with quorum_and_validity [OF c] validity_le_quorum [OF c] quorum show ?thesis by linarith
qed

end

section \<open>The thresholds of a committee\<close>

text \<open>
  The stake of a committee, as a natural number. The code computes with \<open>u32\<close>: the product
  \<open>2 * total\<close> stays in range when the total stake is below \<open>2 ^ 31\<close> (\<open>committee_ok\<close>).
\<close>

definition total_stake :: "committee \<Rightarrow> nat" where
  "total_stake c = sum_list (map (\<lambda>(_, a). unat (voting_power a)) (authorities c))"

definition stake_nat :: "committee \<Rightarrow> public_key \<Rightarrow> nat" where
  "stake_nat c name = unat (stake_of c name)"

definition committee_ok :: "committee \<Rightarrow> bool" where
  "committee_ok c \<longleftrightarrow> committee_wf c \<and> total_stake c < 2 ^ 31"

lemma committee_ok_wf: "committee_ok c \<Longrightarrow> committee_wf c"
  by (simp add: committee_ok_def)

lemma distinct_names: "committee_wf c \<Longrightarrow> distinct (names c)"
  by (simp add: committee_wf_def names_def btree_wf_distinct)

lemma sum_stake_map_of:
  "distinct (map fst as) \<Longrightarrow>
   sum (\<lambda>k. case map_of as k of None \<Rightarrow> 0 | Some a \<Rightarrow> f a) (fst ` set as) =
     sum_list (map (\<lambda>(_, a). f a) as)"
proof (induction as)
  case Nil
  then show ?case by simp
next
  case (Cons ka as)
  obtain k a where ka: "ka = (k, a)" by (cases ka)
  have notin: "k \<notin> fst ` set as" using Cons.prems ka by simp
  have "sum (\<lambda>k'. case map_of (ka # as) k' of None \<Rightarrow> 0 | Some a \<Rightarrow> f a) (fst ` set as) =
        sum (\<lambda>k'. case map_of as k' of None \<Rightarrow> 0 | Some a \<Rightarrow> f a) (fst ` set as)"
    using notin ka by (intro sum.cong) auto
  with Cons notin ka show ?case by simp
qed

lemma sum_stake_members:
  assumes "committee_wf c"
  shows "sum (stake_nat c) (set (names c)) = total_stake c"
proof -
  have "distinct (map fst (authorities c))"
    using assms by (simp add: committee_wf_def btree_wf_distinct)
  then have "sum (\<lambda>k. case map_of (authorities c) k of None \<Rightarrow> 0 | Some a \<Rightarrow> unat (voting_power a))
      (fst ` set (authorities c)) = total_stake c"
    unfolding total_stake_def by (rule sum_stake_map_of)
  moreover have "stake_nat c = (\<lambda>k. case map_of (authorities c) k of None \<Rightarrow> 0 | Some a \<Rightarrow> unat (voting_power a))"
    by (auto simp: stake_nat_def stake_of_def fun_eq_iff split: option.splits)
  ultimately show ?thesis by (simp add: names_def)
qed

lemma stake_of_non_member: "name \<notin> set (names c) \<Longrightarrow> stake_of c name = 0"
proof -
  assume "name \<notin> set (names c)"
  then have "map_of (authorities c) name = None" by (simp add: names_def map_of_eq_None_iff)
  then show ?thesis by (simp add: stake_of_def)
qed

lemma stake_nat_non_member: "name \<notin> set (names c) \<Longrightarrow> stake_nat c name = 0"
  by (simp add: stake_nat_def stake_of_non_member)

lemma stake_of_pos_member: "0 < stake_of c name \<Longrightarrow> name \<in> set (names c)"
  using stake_of_non_member by fastforce

lemma unat_total_votes:
  assumes "total_stake c < 2 ^ 32"
  shows "unat (total_votes c) = total_stake c"
proof -
  have "sum_list (map unat (map (\<lambda>(_, a). voting_power a) (authorities c))) = total_stake c"
    unfolding total_stake_def by (rule arg_cong [where f = sum_list]) auto
  then show ?thesis
    unfolding total_votes_def
    using unat_sum_list_no_wrap [of "map (\<lambda>(_, a). voting_power a) (authorities c)"] assms
    by simp
qed

lemma unat_quorum_threshold:
  assumes "committee_ok c"
  shows "unat (quorum_threshold c) = 2 * total_stake c div 3 + 1"
proof -
  have t: "unat (total_votes c) = total_stake c" "total_stake c < 2 ^ 31"
    using assms by (simp_all add: committee_ok_def unat_total_votes)
  then have "unat (2 * total_votes c) = 2 * total_stake c"
    by (simp add: unat_word_ariths)
  with t show ?thesis
    by (simp add: quorum_threshold_def unat_word_ariths unat_div)
qed

lemma unat_validity_threshold:
  assumes "committee_ok c"
  shows "unat (validity_threshold c) = (total_stake c + 2) div 3"
proof -
  have t: "unat (total_votes c) = total_stake c" "total_stake c < 2 ^ 31"
    using assms by (simp_all add: committee_ok_def unat_total_votes)
  then show ?thesis
    by (simp add: validity_threshold_def unat_word_ariths unat_div)
qed

interpretation committee: weighted_quorum committee_ok "\<lambda>c. set (names c)" stake_nat
  "\<lambda>c. unat (quorum_threshold c)" "\<lambda>c. unat (validity_threshold c)"
  by unfold_locales
    (auto simp: unat_quorum_threshold unat_validity_threshold sum_stake_members committee_ok_wf
      stake_nat_non_member)

text \<open>Stake added up along a list of distinct names never wraps around.\<close>

lemma sum_stake_names_le:
  assumes "committee_wf c" "distinct ks"
  shows "sum_list (map (stake_nat c) ks) \<le> total_stake c"
proof -
  have "sum_list (map (stake_nat c) ks) = sum (stake_nat c) (set ks)"
    using assms(2) by (simp add: sum_list_distinct_conv_sum_set)
  also have "\<dots> = sum (stake_nat c) (set ks \<inter> set (names c))"
    by (rule sum.mono_neutral_right) (auto simp: stake_nat_def stake_of_non_member)
  also have "\<dots> \<le> sum (stake_nat c) (set (names c))"
    by (rule sum_mono2) auto
  finally show ?thesis using assms(1) by (simp add: sum_stake_members)
qed

lemma unat_sum_stake:
  assumes "committee_ok c" "distinct ks"
  shows "unat (sum_list (map (stake_of c) ks)) = sum (stake_nat c) (set ks)"
proof -
  have "sum_list (map unat (map (stake_of c) ks)) = sum_list (map (stake_nat c) ks)"
    by (simp add: stake_nat_def [abs_def] comp_def)
  moreover have "sum_list (map (stake_nat c) ks) < 2 ^ 32"
    using sum_stake_names_le [OF committee_ok_wf [OF assms(1)] assms(2)] assms(1)
    by (simp add: committee_ok_def)
  ultimately show ?thesis
    using unat_sum_list_no_wrap [of "map (stake_of c) ks"] assms(2)
    by (simp add: sum_list_distinct_conv_sum_set)
qed

section \<open>A concrete committee\<close>

text \<open>Four authorities of stake 1 with one worker each.\<close>

definition ex_addr :: "u16 \<Rightarrow> socket_addr" where
  "ex_addr p = \<lparr>ip = V4 2130706433, port = p\<rparr>"

definition ex_authority :: "u16 \<Rightarrow> authority" where
  "ex_authority p =
     \<lparr>voting_power = 1,
      primary_addrs = \<lparr>primary_to_primary = ex_addr p, worker_to_primary = ex_addr (p + 1)\<rparr>,
      workers = [(0, \<lparr>transactions = ex_addr (p + 2), worker_to_worker = ex_addr (p + 3),
                      primary_to_worker = ex_addr (p + 4)\<rparr>)]\<rparr>"

definition ex_committee :: committee where
  "ex_committee =
     \<lparr>authorities = [(PublicKey 1, ex_authority 1000), (PublicKey 2, ex_authority 2000),
                     (PublicKey 3, ex_authority 3000), (PublicKey 4, ex_authority 4000)]\<rparr>"

lemma ex_committee_ok [simp]: "committee_ok ex_committee"
  by (simp add: committee_ok_def committee_wf_def total_stake_def ex_committee_def ex_authority_def)

lemma ex_committee_names [simp]:
  "names ex_committee = [PublicKey 1, PublicKey 2, PublicKey 3, PublicKey 4]"
  by (simp add: names_def ex_committee_def)

lemma ex_committee_total [simp]: "total_votes ex_committee = 4" "total_stake ex_committee = 4"
  by (simp_all add: total_votes_def total_stake_def ex_committee_def ex_authority_def)

lemma ex_committee_thresholds [simp]:
  "quorum_threshold ex_committee = 3" "validity_threshold ex_committee = 2"
  by (simp_all add: quorum_threshold_def validity_threshold_def)

lemma ex_stake_of [simp]:
  "stake_of ex_committee k =
     (if k \<in> {PublicKey 1, PublicKey 2, PublicKey 3, PublicKey 4} then 1 else 0)"
  by (simp add: stake_of_def ex_committee_def ex_authority_def)

lemma ex_worker_of:
  "k \<in> set (names ex_committee) \<Longrightarrow> \<exists>w. worker_of ex_committee k 0 = Ok w"
  by (auto simp: worker_of_def ex_committee_def names_def ex_authority_def)

section \<open>Properties\<close>

lemma two_thirds: "2 * Suc m div 3 + 1 = Suc m - m div 3"
proof -
  obtain q r where m: "m = 3 * q + r" "r < 3"
    using mult_div_mod_eq [of 3 m] by (metis mod_less_divisor zero_less_numeral)
  consider "r = 0" | "r = 1" | "r = 2" using m(2) by linarith
  then show ?thesis by cases (simp_all add: m)
qed

text \<open>
  C35: For a committee of total stake N below 2^31 with f = (N - 1) div 3, the quorum threshold
  computed in u32 is N - f and the validity threshold is f + 1, as the comments in the code claim.
\<close>

theorem thresholds_correct:
  assumes "committee_ok c" and "0 < total_stake c"
  shows "unat (quorum_threshold c) = total_stake c - (total_stake c - 1) div 3 \<and>
         unat (validity_threshold c) = (total_stake c - 1) div 3 + 1"
proof -
  obtain m where m: "total_stake c = Suc m" using assms(2) gr0_implies_Suc by blast
  have "(Suc m + 2) div 3 = m div 3 + 1" by simp
  with two_thirds show ?thesis
    using assms(1) by (simp only: m unat_quorum_threshold unat_validity_threshold diff_Suc_1)
qed

theorem thresholds_correct_witness:
  "unat (quorum_threshold ex_committee) = 3 \<and> unat (validity_threshold ex_committee) = 2"
  using thresholds_correct [of ex_committee] by simp

text \<open>
  Above that bound the u32 arithmetic of the quorum threshold wraps around: two authorities of
  stake 2^30 each get a quorum threshold of 1, so that a single one of them is a quorum.
\<close>

theorem quorum_threshold_wraps:
  "\<exists>c a. committee_wf c \<and> total_stake c = 2 ^ 31 \<and> unat (quorum_threshold c) = 1 \<and>
     a \<in> set (names c) \<and> quorum_threshold c \<le> stake_of c a \<and> stake_nat c a < total_stake c"
proof -
  let ?a = "ex_authority 0\<lparr>voting_power := 2 ^ 30\<rparr>"
  let ?c = "\<lparr>authorities = [(PublicKey 1, ?a), (PublicKey 2, ?a)]\<rparr>"
  have "committee_wf ?c" "total_stake ?c = 2 ^ 31" "unat (quorum_threshold ?c) = 1"
    "PublicKey 1 \<in> set (names ?c)" "quorum_threshold ?c \<le> stake_of ?c (PublicKey 1)"
    "stake_nat ?c (PublicKey 1) < total_stake ?c"
    by (simp_all add: committee_wf_def total_stake_def quorum_threshold_def total_votes_def names_def
        stake_of_def stake_nat_def)
  then show ?thesis by blast
qed

end
