(* ===== verification/Messages.thy ===== *)
theory Messages
  imports Config
begin

text \<open>
  \<open>primary/src/messages.rs\<close> and \<open>error.rs\<close>: headers, votes and certificates, the byte strings
  that are hashed into their digests, and their verification against a committee. A \<open>BTreeMap\<close> or
  \<open>BTreeSet\<close> field is its sorted list (\<open>header_wf\<close>).
\<close>

section \<open>Errors and rounds\<close>

type_synonym round = u64

datatype rocksdb_error = RocksdbError

datatype bincode_error = BincodeError

datatype dag_error =
  InvalidSignature crypto_error
| StoreError rocksdb_error
| SerializationError bincode_error
| InvalidHeaderId
| MalformedHeader digest
| UnknownAuthority public_key
| AuthorityReuse public_key
| UnexpectedVote digest
| CertificateRequiresQuorum
| HeaderRequiresQuorum digest
| TooOld digest round

section \<open>Headers\<close>

record header =
  h_author :: public_key
  h_round :: round
  h_payload :: "(digest \<times> worker_id) list"
  h_parents :: "digest list"
  h_id :: digest
  h_signature :: signature

definition header_default :: header where
  "header_default =
     \<lparr>h_author = public_key_default, h_round = 0, h_payload = [], h_parents = [],
      h_id = digest_default, h_signature = signature_default\<rparr>"

definition header_wf :: "header \<Rightarrow> bool" where
  "header_wf h \<longleftrightarrow> btree_wf (h_payload h) \<and> sorted_wrt (<) (h_parents h)"

definition header_bytes :: "header \<Rightarrow> bytes" where
  "header_bytes h =
     key_as_ref (h_author h) @ le_bytes 8 (h_round h) @
     concat (map (\<lambda>(x, y). digest_to_vec x @ le_bytes 4 y) (h_payload h)) @
     concat (map digest_to_vec (h_parents h))"

definition header_digest :: "dalek \<Rightarrow> header \<Rightarrow> digest" where
  "header_digest dk h = hash32 dk (header_bytes h)"

definition header_new ::
  "dalek \<Rightarrow> secret_key \<Rightarrow> public_key \<Rightarrow> round \<Rightarrow> (digest \<times> worker_id) list \<Rightarrow> digest list
   \<Rightarrow> (crypto_error, header) result" where
  "header_new dk secret author rnd payload parents =
     (let hdr = \<lparr>h_author = author, h_round = rnd, h_payload = payload, h_parents = parents,
                 h_id = digest_default, h_signature = signature_default\<rparr>;
          hid = header_digest dk hdr
      in and_then (request_signature dk secret hid)
           (\<lambda>sig. Ok (hdr\<lparr>h_id := hid, h_signature := sig\<rparr>)))"

text \<open>The loop of \<open>Header::verify\<close> over the payload's worker ids.\<close>

fun check_workers :: "committee \<Rightarrow> header \<Rightarrow> worker_id list \<Rightarrow> (dag_error, unit) result" where
  "check_workers c h [] = Ok ()"
| "check_workers c h (wid # wids) =
     and_then (map_err (\<lambda>_. MalformedHeader (h_id h)) (worker_of c (h_author h) wid))
       (\<lambda>_. check_workers c h wids)"

definition header_verify :: "dalek \<Rightarrow> committee \<Rightarrow> header \<Rightarrow> (dag_error, unit) result" where
  "header_verify dk c h =
     and_then (ensure (header_digest dk h = h_id h) InvalidHeaderId) (\<lambda>_.
     and_then (ensure (0 < stake_of c (h_author h)) (UnknownAuthority (h_author h))) (\<lambda>_.
     and_then (check_workers c h (map snd (h_payload h))) (\<lambda>_.
       map_err InvalidSignature (signature_verify dk (h_signature h) (h_id h) (h_author h)))))"

section \<open>Votes\<close>

record vote =
  v_id :: digest
  v_round :: round
  v_origin :: public_key
  v_author :: public_key
  v_signature :: signature

text \<open>The bytes hashed for a vote and for a certificate: header id, round, header author.\<close>

definition vote_bytes :: "digest \<Rightarrow> round \<Rightarrow> public_key \<Rightarrow> bytes" where
  "vote_bytes d r k = digest_to_vec d @ le_bytes 8 r @ key_as_ref k"

definition vote_digest :: "dalek \<Rightarrow> vote \<Rightarrow> digest" where
  "vote_digest dk v = hash32 dk (vote_bytes (v_id v) (v_round v) (v_origin v))"

definition vote_new ::
  "dalek \<Rightarrow> secret_key \<Rightarrow> header \<Rightarrow> public_key \<Rightarrow> (crypto_error, vote) result" where
  "vote_new dk secret h author =
     (let v = \<lparr>v_id = h_id h, v_round = h_round h, v_origin = h_author h, v_author = author,
               v_signature = signature_default\<rparr>
      in and_then (request_signature dk secret (vote_digest dk v))
           (\<lambda>sig. Ok (v\<lparr>v_signature := sig\<rparr>)))"

definition vote_verify :: "dalek \<Rightarrow> committee \<Rightarrow> vote \<Rightarrow> (dag_error, unit) result" where
  "vote_verify dk c v =
     and_then (ensure (0 < stake_of c (v_author v)) (UnknownAuthority (v_author v))) (\<lambda>_.
       map_err InvalidSignature (signature_verify dk (v_signature v) (vote_digest dk v) (v_author v)))"

section \<open>Certificates\<close>

record certificate =
  c_header :: header
  c_votes :: "(public_key \<times> signature) list"

definition cert_round :: "certificate \<Rightarrow> round" where
  "cert_round x = h_round (c_header x)"

definition cert_origin :: "certificate \<Rightarrow> public_key" where
  "cert_origin x = h_author (c_header x)"

definition cert_digest :: "dalek \<Rightarrow> certificate \<Rightarrow> digest" where
  "cert_digest dk x = hash32 dk (vote_bytes (h_id (c_header x)) (cert_round x) (cert_origin x))"

text \<open>\<open>PartialEq for Certificate\<close>: only header id, round and origin are compared.\<close>

definition cert_eq :: "certificate \<Rightarrow> certificate \<Rightarrow> bool" where
  "cert_eq x y \<longleftrightarrow>
     h_id (c_header x) = h_id (c_header y) \<and> cert_round x = cert_round y \<and>
     cert_origin x = cert_origin y"

definition certificate_default :: certificate where
  "certificate_default = \<lparr>c_header = header_default, c_votes = []\<rparr>"

definition genesis :: "committee \<Rightarrow> certificate list" where
  "genesis c =
     map (\<lambda>name. certificate_default\<lparr>c_header := header_default\<lparr>h_author := name\<rparr>\<rparr>) (names c)"

text \<open>The loop of \<open>Certificate::verify\<close> over the votes: the total weight, or the first error.\<close>

fun tally_votes ::
  "committee \<Rightarrow> (public_key \<times> signature) list \<Rightarrow> public_key set \<Rightarrow> stake
   \<Rightarrow> (dag_error, stake) result" where
  "tally_votes c [] used weight = Ok weight"
| "tally_votes c ((name, _) # votes) used weight =
     (if name \<in> used then Err (AuthorityReuse name)
      else if \<not> 0 < stake_of c name then Err (UnknownAuthority name)
      else tally_votes c votes (insert name used) (weight + stake_of c name))"

definition certificate_verify :: "dalek \<Rightarrow> committee \<Rightarrow> certificate \<Rightarrow> (dag_error, unit) result" where
  "certificate_verify dk c x =
     (if \<exists>g \<in> set (genesis c). cert_eq g x then Ok ()
      else and_then (header_verify dk c (c_header x)) (\<lambda>_.
           and_then (tally_votes c (c_votes x) {} 0) (\<lambda>weight.
           and_then (ensure (quorum_threshold c \<le> weight) CertificateRequiresQuorum) (\<lambda>_.
             map_err InvalidSignature
               (signature_verify_batch dk (cert_digest dk x) (c_votes x))))))"

section \<open>Verification\<close>

lemma tally_votes_Ok_iff:
  "tally_votes c votes used w = Ok w' \<longleftrightarrow>
     distinct (map fst votes) \<and> set (map fst votes) \<inter> used = {} \<and>
     (\<forall>name \<in> set (map fst votes). 0 < stake_of c name) \<and>
     w' = w + sum_list (map (stake_of c) (map fst votes))"
proof (induction c votes used w rule: tally_votes.induct)
  case (1 c used weight)
  then show ?case by auto
next
  case (2 c name sig votes used weight)
  then show ?case by (auto simp: add.assoc)
qed

definition genesis_like :: "committee \<Rightarrow> certificate \<Rightarrow> bool" where
  "genesis_like c x \<longleftrightarrow>
     h_id (c_header x) = digest_default \<and> cert_round x = 0 \<and> cert_origin x \<in> set (names c)"

lemma genesis_like_iff: "(\<exists>g \<in> set (genesis c). cert_eq g x) \<longleftrightarrow> genesis_like c x"
  by (auto simp: genesis_def genesis_like_def cert_eq_def certificate_default_def header_default_def
      cert_round_def cert_origin_def)

text \<open>The authorities that signed a certificate.\<close>

definition signers :: "certificate \<Rightarrow> public_key set" where
  "signers x = fst ` set (c_votes x)"

lemma certificate_verify_Ok_iff:
  assumes "committee_ok c"
  shows "certificate_verify dk c x = Ok () \<longleftrightarrow>
     genesis_like c x \<or>
     (header_verify dk c (c_header x) = Ok () \<and>
      distinct (map fst (c_votes x)) \<and> (\<forall>name \<in> signers x. 0 < stake_of c name) \<and>
      unat (quorum_threshold c) \<le> sum (stake_nat c) (signers x) \<and>
      signature_verify_batch dk (cert_digest dk x) (c_votes x) = Ok ())"
  using unat_sum_stake [OF assms, of "map fst (c_votes x)"]
  by (auto simp: certificate_verify_def genesis_like_iff and_then_Ok_iff tally_votes_Ok_iff
      ensure_Ok_iff signers_def word_le_nat_alt)

lemma signers_members:
  "(\<forall>name \<in> signers x. 0 < stake_of c name) \<Longrightarrow> signers x \<subseteq> set (names c)"
  using stake_of_pos_member by blast

text \<open>The fixed layout of the hashed vote determines its three parts.\<close>

lemma vote_bytes_inject [simp]:
  "vote_bytes d r k = vote_bytes d' r' k' \<longleftrightarrow> d = d' \<and> r = r' \<and> k = k'"
  by (auto simp: vote_bytes_def dest: le_bytes_inject [rotated])

lemma vote_digest_cert_digest:
  "v_id v = h_id (c_header x) \<Longrightarrow> v_round v = cert_round x \<Longrightarrow> v_origin v = cert_origin x \<Longrightarrow>
   vote_digest dk v = cert_digest dk x"
  by (simp add: vote_digest_def cert_digest_def)

text \<open>
  What the code relies on in \<open>ed25519_dalek\<close> for one key pair: the secret bytes decode, a signature
  made with them decodes and passes strict verification under the public key.
\<close>

definition signs_for :: "dalek \<Rightarrow> secret_key \<Rightarrow> public_key \<Rightarrow> bool" where
  "signs_for dk secret pk \<longleftrightarrow>
     keypair_from_bytes dk (secret_bits secret) \<and> pubkey_from_bytes dk (key_bits pk) \<and>
     (\<forall>m. signature_from_bytes dk (keypair_sign dk (secret_bits secret) m) \<and>
          verify_strict dk (key_bits pk) m (keypair_sign dk (secret_bits secret) m))"

text \<open>A batch of signatures on one digest is accepted when each of them is valid.\<close>

definition batch_complete :: "dalek \<Rightarrow> bool" where
  "batch_complete dk \<longleftrightarrow>
     (\<forall>d votes. (\<forall>(k, s) \<in> set votes. verify_strict dk (key_bits k) (digest_to_vec d) (signature_flatten s)) \<longrightarrow>
        batch_verify dk (map (\<lambda>_. digest_to_vec d) votes) (map (signature_flatten \<circ> snd) votes)
          (map (key_bits \<circ> fst) votes))"

lemma verify_batch_complete:
  assumes "batch_complete dk" and "\<forall>(k, s) \<in> set votes. signature_verify dk s d k = Ok ()"
  shows "signature_verify_batch dk d votes = Ok ()"
proof -
  have "\<forall>(k, s) \<in> set votes. signature_from_bytes dk (signature_flatten s) \<and>
      pubkey_from_bytes dk (key_bits k) \<and> verify_strict dk (key_bits k) (digest_to_vec d) (signature_flatten s)"
    using assms(2) by (auto simp: signature_verify_def split: if_splits)
  moreover from this have "batch_verify dk (map (\<lambda>_. digest_to_vec d) votes)
      (map (signature_flatten \<circ> snd) votes) (map (key_bits \<circ> fst) votes)"
    using assms(1) unfolding batch_complete_def by fast
  moreover have "collect_batch dk d votes ([], [], []) = Ok (map (\<lambda>_. digest_to_vec d) votes,
      map (signature_flatten \<circ> snd) votes, map (key_bits \<circ> fst) votes)"
    by (subst collect_batch_Ok) (use calculation in auto)
  ultimately show ?thesis by (simp add: signature_verify_batch_def)
qed

lemma request_signature_verifies:
  "signs_for dk secret pk \<Longrightarrow>
   \<exists>s. request_signature dk secret d = Ok s \<and> signature_verify dk s d pk = Ok ()"
  by (auto simp: request_signature_def signature_new_def signs_for_def Let_def
      signature_verify_def signature_flatten_def word_cat_first_last)

lemma header_bytes_update [simp]:
  "header_bytes (h\<lparr>h_id := i, h_signature := s\<rparr>) = header_bytes h"
  by (simp add: header_bytes_def)

lemma check_workers_Ok_iff:
  "check_workers c h wids = Ok () \<longleftrightarrow>
     (\<forall>wid \<in> set wids. \<exists>w. worker_of c (h_author h) wid = Ok w)"
  by (induction wids) (auto simp: and_then_Ok_iff)

section \<open>Properties\<close>

text \<open>
  C12: Any two certificates that pass verification, other than genesis certificates, were signed in
  common by authorities holding at least a validity threshold (f + 1) of the stake.
\<close>

theorem verified_certificates_intersect:
  assumes "committee_ok c"
    and "certificate_verify dk c x = Ok ()" and "\<not> genesis_like c x"
    and "certificate_verify dk c y = Ok ()" and "\<not> genesis_like c y"
  shows "unat (validity_threshold c) \<le> sum (stake_nat c) (signers x \<inter> signers y)"
  using assms by (intro committee.quorums_share_validity signers_members)
    (auto simp: certificate_verify_Ok_iff)

text \<open>A certified header of the example committee, signed by the given authorities.\<close>

definition ex_header :: header where
  "ex_header = header_default\<lparr>h_author := PublicKey 1, h_round := 1, h_id := Digest 256\<rparr>"

definition ex_certificate :: "public_key list \<Rightarrow> certificate" where
  "ex_certificate ks = \<lparr>c_header = ex_header, c_votes = map (\<lambda>k. (k, signature_default)) ks\<rparr>"

lemma ex_header_verify: "header_verify ex_dalek ex_committee ex_header = Ok ()"
  by (simp add: header_verify_def ex_header_def header_default_def and_then_Ok_iff ensure_Ok_iff
      header_digest_def ex_hash32 header_bytes_def key_as_ref_def be_bytes_def
      le_bytes_def upt_rec nth_append signature_verify_def)

lemma ex_certificate_verify:
  "distinct ks \<Longrightarrow> set ks \<subseteq> set (names ex_committee) \<Longrightarrow> 3 \<le> length ks \<Longrightarrow>
   certificate_verify ex_dalek ex_committee (ex_certificate ks) = Ok ()"
proof -
  assume a: "distinct ks" "set ks \<subseteq> set (names ex_committee)" "3 \<le> length ks"
  have "sum (stake_nat ex_committee) (set ks) = card (set ks)"
    using a(2) by (subst card_eq_sum) (rule sum.cong, auto simp: stake_nat_def)
  with a show ?thesis
    by (auto simp: certificate_verify_Ok_iff signers_def ex_certificate_def ex_header_verify
        distinct_card image_image comp_def signature_verify_batch_def collect_batch_Ok)
qed

theorem verified_certificates_intersect_witness:
  "2 \<le> sum (stake_nat ex_committee)
     (signers (ex_certificate [PublicKey 1, PublicKey 2, PublicKey 3]) \<inter>
      signers (ex_certificate [PublicKey 2, PublicKey 3, PublicKey 4]))"
proof -
  have "\<not> genesis_like ex_committee (ex_certificate ks)" for ks
    by (simp add: genesis_like_def ex_certificate_def ex_header_def digest_default_def)
  then show ?thesis
    using verified_certificates_intersect [OF ex_committee_ok
        ex_certificate_verify [of "[PublicKey 1, PublicKey 2, PublicKey 3]"] _
        ex_certificate_verify [of "[PublicKey 2, PublicKey 3, PublicKey 4]"]]
    by simp
qed

text \<open>
  A header made by \<open>Header::new\<close> with a key pair whose signatures verify passes
  \<open>Header::verify\<close> of every node, when its author has stake and its worker ids exist.
\<close>

theorem header_new_verifies:
  assumes "signs_for dk secret author" and "0 < stake_of c author"
    and "\<forall>wid \<in> snd ` set payload. \<exists>w. worker_of c author wid = Ok w"
  shows "\<exists>h. header_new dk secret author rnd payload parents = Ok h \<and>
     h_round h = rnd \<and> h_payload h = payload \<and> h_parents h = parents \<and>
     header_verify dk c h = Ok ()"
proof -
  let ?h = "\<lparr>h_author = author, h_round = rnd, h_payload = payload, h_parents = parents,
     h_id = digest_default, h_signature = signature_default\<rparr>"
  let ?d = "header_digest dk ?h"
  obtain s where s: "request_signature dk secret ?d = Ok s" "signature_verify dk s ?d author = Ok ()"
    using request_signature_verifies [OF assms(1)] by blast
  let ?h' = "?h\<lparr>h_id := ?d, h_signature := s\<rparr>"
  have "header_digest dk ?h' = ?d" by (simp add: header_digest_def header_bytes_def)
  with s assms(2,3) have "header_verify dk c ?h' = Ok ()"
    by (simp add: header_verify_def and_then_Ok_iff ensure_Ok_iff check_workers_Ok_iff)
  moreover have "header_new dk secret author rnd payload parents = Ok ?h'"
    using s by (simp add: header_new_def Let_def)
  ultimately show ?thesis by auto
qed

theorem header_new_verifies_witness:
  "\<exists>h. header_new ex_dalek (SecretKey 7) (PublicKey 2) 5 [(Digest 9, 0)] [Digest 1] = Ok h \<and>
     h_round h = 5 \<and> h_payload h = [(Digest 9, 0)] \<and> h_parents h = [Digest 1] \<and>
     header_verify ex_dalek ex_committee h = Ok ()"
  by (rule header_new_verifies) (auto simp: signs_for_def ex_worker_of)

text \<open>
  Two headers over the same 288 bytes (byte k is k div 32): cut every 36 bytes into a batch digest
  and a worker id, or every 32 bytes into a parent digest.
\<close>

definition cut_bytes :: "nat \<Rightarrow> nat \<Rightarrow> bytes" where
  "cut_bytes a b = map (\<lambda>k. word_of_nat (k div 32)) [a ..< b]"

definition ambiguous_batches :: header where
  "ambiguous_batches = header_default\<lparr>h_payload :=
     map (\<lambda>i. (Digest (be_word (cut_bytes (36 * i) (36 * i + 32))), le_word (cut_bytes (36 * i + 32) (36 * i + 36)))) [0..<8]\<rparr>"

definition ambiguous_parents :: header where
  "ambiguous_parents = header_default\<lparr>h_parents :=
     map (\<lambda>j. Digest (be_word (cut_bytes (32 * j) (32 * j + 32)))) [0..<9]\<rparr>"

lemma length_cut [simp]: "length (cut_bytes a b) = b - a"
  by (simp add: cut_bytes_def)

lemma cut_bytes_append: "a \<le> b \<Longrightarrow> b \<le> d \<Longrightarrow> cut_bytes a b @ cut_bytes b d = cut_bytes a d"
  using upt_add_eq_append [of a b "d - b"] by (simp add: cut_bytes_def flip: map_append)

lemma concat_cut: "concat (map (\<lambda>i. cut_bytes (n * i) (n * i + n)) [0..<m]) = cut_bytes 0 (n * m)"
proof (induction m)
  case 0
  then show ?case by (simp add: cut_bytes_def)
next
  case (Suc m)
  then show ?case by (simp add: cut_bytes_append add.commute)
qed

lemma vec_cut: "digest_to_vec (Digest (be_word (cut_bytes a (a + 32)))) = cut_bytes a (a + 32)"
  by (simp add: digest_to_vec_def be_bytes_be_word)

lemma le_cut: "le_bytes 4 (le_word (cut_bytes a (a + 4)) :: worker_id) = cut_bytes a (a + 4)"
  using le_bytes_le_word [where 'a = 32 and bs = "cut_bytes a (a + 4)"] by simp

lemma ambiguous_bytes: "header_bytes ambiguous_batches = header_bytes ambiguous_parents"
proof -
  have *: "cut_bytes (36 * i) (36 * i + 32) @
        le_bytes 4 (le_word (cut_bytes (36 * i + 32) (36 * i + 36)) :: worker_id) = cut_bytes (36 * i) (36 * i + 36)" for i
    using le_cut [of "36 * i + 32"] by (simp add: cut_bytes_append add.commute)
  have "concat (map (\<lambda>i. cut_bytes (36 * i) (36 * i + 36)) [0..<8]) = cut_bytes 0 288"
    using concat_cut [of 36 8] by simp
  moreover have "concat (map (\<lambda>j. cut_bytes (32 * j) (32 * j + 32)) [0..<9]) = cut_bytes 0 288"
    using concat_cut [of 32 9] by simp
  ultimately show ?thesis
    by (simp add: header_bytes_def ambiguous_batches_def ambiguous_parents_def header_default_def
        comp_def * vec_cut del: upt_Suc upt_conv_Cons)
qed

lemma cut_bytes_less:
  assumes "a div 32 < b div 32" "b div 32 < 256"
  shows "be_word (cut_bytes a (a + 32)) < (be_word (cut_bytes b (b + 32)) :: b256)"
proof -
  have "cut_bytes a (a + 32) = word_of_nat (a div 32) # cut_bytes (Suc a) (a + 32)" for a
    by (simp add: cut_bytes_def upt_conv_Cons)
  moreover have "(word_of_nat (a div 32) :: u8) < word_of_nat (b div 32)"
    using assms by (simp add: of_nat_word_less_iff take_bit_nat_eq_self)
  ultimately show ?thesis by (simp add: first_byte_less)
qed

lemma ambiguous_wf: "header_wf ambiguous_batches" "header_wf ambiguous_parents"
proof -
  have "sorted_wrt (\<lambda>i j. be_word (cut_bytes (36 * i) (36 * i + 32)) <
      (be_word (cut_bytes (36 * j) (36 * j + 32)) :: b256)) [0..<8]"
    by (rule sorted_wrt_mono_rel [OF _ sorted_wrt_upt]) (auto intro!: cut_bytes_less)
  then show "header_wf ambiguous_batches"
    by (simp add: header_wf_def ambiguous_batches_def header_default_def sorted_wrt_map comp_def
        del: upt_Suc)
  have "sorted_wrt (\<lambda>i j. be_word (cut_bytes (32 * i) (32 * i + 32)) <
      (be_word (cut_bytes (32 * j) (32 * j + 32)) :: b256)) [0..<9]"
    by (rule sorted_wrt_mono_rel [OF _ sorted_wrt_upt]) (auto intro!: cut_bytes_less)
  then show "header_wf ambiguous_parents"
    by (simp add: header_wf_def ambiguous_parents_def header_default_def sorted_wrt_map comp_def
        del: upt_Suc)
qed

text \<open>
  The hash of a header does not say where its payload ends and its parents begin: two
  well-formed headers, one with eight batches and no parents, the other with nine parents and no
  batches, have the same digest under every hash function.
\<close>

theorem header_digest_ambiguous:
  "\<exists>h h'. header_wf h \<and> header_wf h' \<and> length (h_payload h) = 8 \<and> h_parents h = [] \<and>
     h_payload h' = [] \<and> length (h_parents h') = 9 \<and>
     (\<forall>dk. header_digest dk h = header_digest dk h')"
proof -
  have "header_bytes ambiguous_batches = header_bytes ambiguous_parents"
    by (rule ambiguous_bytes)
  then have "header_digest dk ambiguous_batches = header_digest dk ambiguous_parents" for dk
    by (simp add: header_digest_def)
  moreover have "length (h_payload ambiguous_batches) = 8" "h_parents ambiguous_batches = []"
    "h_payload ambiguous_parents = []" "length (h_parents ambiguous_parents) = 9"
    by (simp_all add: ambiguous_batches_def ambiguous_parents_def header_default_def)
  ultimately show ?thesis using ambiguous_wf by blast
qed

text \<open>
  A certificate that carries the default header id, round 0 and the name of an authority passes
  verification as a genesis certificate, whatever its payload, its parents, its signature and its
  votes are.
\<close>

theorem genesis_triple_accepted:
  assumes "name \<in> set (names c)"
  shows "certificate_verify dk c
     \<lparr>c_header = \<lparr>h_author = name, h_round = 0, h_payload = payload, h_parents = parents,
                   h_id = digest_default, h_signature = sig\<rparr>,
      c_votes = votes\<rparr> = Ok ()"
  using assms
  by (simp add: certificate_verify_def genesis_like_iff genesis_like_def cert_round_def cert_origin_def)

theorem genesis_triple_accepted_witness:
  "certificate_verify ex_dalek ex_committee
     \<lparr>c_header = \<lparr>h_author = PublicKey 3, h_round = 0, h_payload = [(Digest 5, 9)],
                   h_parents = [Digest 77], h_id = digest_default, h_signature = signature_default\<rparr>,
      c_votes = []\<rparr> = Ok ()"
  by (rule genesis_triple_accepted) simp

end
