(* ===== verification/ConsensusState.thy ===== *)
theory ConsensusState
  imports Messages
begin

text \<open>
  The state of \<open>consensus/src/lib.rs\<close>: the DAG of certificates by round and author, the last
  committed round of every authority, the insertion of a certificate and the cleanup after a commit.
  The hash maps are association lists. Lemmas describe every operation by what a lookup at a round
  and an author (\<open>dag_get\<close>) returns afterwards.
\<close>

section \<open>The DAG and the state\<close>

type_synonym dag = "(round \<times> (public_key \<times> digest \<times> certificate) list) list"

record consensus_state =
  last_committed_round :: round
  last_committed :: "(public_key \<times> round) list"
  dag :: dag

text \<open>Rounds of the map, and lookup and insertion at a round and an author.\<close>

definition dag_row :: "dag \<Rightarrow> round \<Rightarrow> (public_key \<times> digest \<times> certificate) list" where
  "dag_row d r = (case map_of d r of None \<Rightarrow> [] | Some m \<Rightarrow> m)"

definition dag_get :: "dag \<Rightarrow> round \<Rightarrow> public_key \<Rightarrow> (digest \<times> certificate) option" where
  "dag_get d r name = map_of (dag_row d r) name"

definition dag_insert :: "dalek \<Rightarrow> certificate \<Rightarrow> dag \<Rightarrow> dag" where
  "dag_insert dk x d =
     AList.update (cert_round x)
       (AList.update (cert_origin x) (cert_digest dk x, x) (dag_row d (cert_round x))) d"

definition collect_map :: "('k \<times> 'v) list \<Rightarrow> ('k \<times> 'v) list" where
  "collect_map kvs = fold (\<lambda>(k, v). AList.update k v) kvs []"

definition state_new :: "dalek \<Rightarrow> certificate list \<Rightarrow> consensus_state" where
  "state_new dk certs =
     (let gen = collect_map (map (\<lambda>x. (cert_origin x, (cert_digest dk x, x))) certs)
      in \<lparr>last_committed_round = 0,
          last_committed = collect_map (map (\<lambda>(x, (_, y)). (x, cert_round y)) gen),
          dag = [(0, gen)]\<rparr>)"

section \<open>Cleanup after a commit\<close>

definition raise_committed :: "certificate \<Rightarrow> (public_key \<times> round) list \<Rightarrow> (public_key \<times> round) list" where
  "raise_committed x m =
     AList.update (cert_origin x)
       (case map_of m (cert_origin x) of Some r \<Rightarrow> max r (cert_round x) | None \<Rightarrow> cert_round x) m"

text \<open>\<open>values().max()\<close> of a map that is not empty; rounds are unsigned.\<close>

definition max_round :: "(public_key \<times> round) list \<Rightarrow> round" where
  "max_round m = fold max (map snd m) 0"

text \<open>One pass of \<open>dag.retain\<close> for one authority and its last committed round.\<close>

definition retain_for :: "round \<Rightarrow> round \<Rightarrow> public_key \<times> round \<Rightarrow> dag \<Rightarrow> dag" where
  "retain_for depth committed = (\<lambda>(name, rnd) d.
     filter (\<lambda>(r, row). row \<noteq> [] \<and> committed \<le> r + depth)
       (map (\<lambda>(r, row). (r, filter (\<lambda>(n, _). n \<noteq> name \<or> rnd \<le> r) row)) d))"

definition update :: "round \<Rightarrow> certificate \<Rightarrow> consensus_state \<Rightarrow> consensus_state" where
  "update depth x st =
     (let lc = raise_committed x (last_committed st); committed = max_round lc
      in st\<lparr>last_committed := lc, last_committed_round := committed,
            dag := fold (retain_for depth committed) lc (dag st)\<rparr>)"

section \<open>Well-formed DAGs\<close>

text \<open>
  Keys are unique, and an entry is filed under its round and author with its own digest.
\<close>

definition row_wf :: "dalek \<Rightarrow> round \<Rightarrow> (public_key \<times> digest \<times> certificate) list \<Rightarrow> bool" where
  "row_wf dk r row \<longleftrightarrow>
     distinct (map fst row) \<and>
     (\<forall>(n, h, x) \<in> set row. cert_round x = r \<and> cert_origin x = n \<and> h = cert_digest dk x)"

definition dag_wf :: "dalek \<Rightarrow> dag \<Rightarrow> bool" where
  "dag_wf dk d \<longleftrightarrow> distinct (map fst d) \<and> (\<forall>(r, row) \<in> set d. row_wf dk r row)"

lemma row_wf_Nil [simp]: "row_wf dk r []"
  by (simp add: row_wf_def)

lemma row_wf_filter [wf_intros]: "row_wf dk r row \<Longrightarrow> row_wf dk r (filter P row)"
  by (auto simp: row_wf_def distinct_map_fst_filter)

lemma row_wf_update [wf_intros]:
  assumes "row_wf dk (cert_round x) row"
  shows "row_wf dk (cert_round x) (AList.update (cert_origin x) (cert_digest dk x, x) row)"
  using assms set_alist_update [of "cert_origin x" "(cert_digest dk x, x)" row]
  by (fastforce simp: row_wf_def intro: distinct_update)

lemma dag_row_wf: "dag_wf dk d \<Longrightarrow> row_wf dk r (dag_row d r)"
  by (auto simp: dag_wf_def dag_row_def split: option.splits dest!: map_of_SomeD)

lemma dag_row_get:
  assumes "dag_wf dk d"
  shows "(n, h, x) \<in> set (dag_row d r) \<longleftrightarrow> dag_get d r n = Some (h, x)"
  using dag_row_wf [OF assms, of r] by (simp add: dag_get_def row_wf_def)

lemma dag_get_wf:
  assumes "dag_wf dk d" and "dag_get d r n = Some (h, x)"
  shows "cert_round x = r" and "cert_origin x = n" and "h = cert_digest dk x"
proof -
  have "(n, h, x) \<in> set (dag_row d r)" using assms by (simp add: dag_row_get)
  with dag_row_wf [OF assms(1), of r]
  show "cert_round x = r" "cert_origin x = n" "h = cert_digest dk x"
    by (auto simp: row_wf_def)
qed

section \<open>Insertion\<close>

lemma dag_get_insert:
  "dag_get (dag_insert dk x d) r n =
     (if r = cert_round x \<and> n = cert_origin x then Some (cert_digest dk x, x) else dag_get d r n)"
  by (auto simp: dag_get_def dag_insert_def dag_row_def update_conv' split: option.splits)

lemma dag_insert_wf [wf_intros]:
  assumes "dag_wf dk d"
  shows "dag_wf dk (dag_insert dk x d)"
proof -
  let ?row = "AList.update (cert_origin x) (cert_digest dk x, x) (dag_row d (cert_round x))"
  have "row_wf dk (cert_round x) ?row"
    by (intro wf_intros dag_row_wf assms)
  then have "\<forall>(r, row) \<in> insert (cert_round x, ?row) (set d). row_wf dk r row"
    using assms by (simp add: dag_wf_def)
  moreover have "set (dag_insert dk x d) \<subseteq> insert (cert_round x, ?row) (set d)"
    unfolding dag_insert_def by (rule set_alist_update)
  ultimately have "\<forall>(r, row) \<in> set (dag_insert dk x d). row_wf dk r row" by blast
  moreover have "distinct (map fst (dag_insert dk x d))"
    using assms unfolding dag_insert_def dag_wf_def by (intro distinct_update) simp
  ultimately show ?thesis unfolding dag_wf_def by blast
qed

section \<open>The initial state\<close>

lemma collect_map_snoc: "collect_map (kvs @ [(k, v)]) = AList.update k v (collect_map kvs)"
  by (simp add: collect_map_def)

lemma map_of_collect_map: "map_of (collect_map kvs) = map_of (rev kvs)"
proof (induction kvs rule: rev_induct)
  case Nil
  then show ?case by (simp add: collect_map_def)
next
  case (snoc a kvs)
  then show ?case by (cases a) (simp add: collect_map_snoc update_conv')
qed

lemma distinct_collect_map: "distinct (map fst (collect_map kvs))"
proof (induction kvs rule: rev_induct)
  case Nil
  then show ?case by (simp add: collect_map_def)
next
  case (snoc a kvs)
  then show ?case by (cases a) (simp add: collect_map_snoc distinct_update)
qed

lemma set_collect_map: "set (collect_map kvs) \<subseteq> set kvs"
proof (induction kvs rule: rev_induct)
  case Nil
  then show ?case by (simp add: collect_map_def)
next
  case (snoc a kvs)
  then show ?case
    using set_alist_update [of "fst a" "snd a" "collect_map kvs"]
    by (cases a) (auto simp: collect_map_snoc)
qed

lemma state_new_wf:
  assumes "\<forall>x \<in> set certs. cert_round x = 0"
  shows "dag_wf dk (dag (state_new dk certs))"
proof -
  let ?kvs = "map (\<lambda>x. (cert_origin x, (cert_digest dk x, x))) certs"
  have "row_wf dk 0 (collect_map ?kvs)"
    using set_collect_map [of ?kvs] assms by (fastforce simp: row_wf_def distinct_collect_map)
  then show ?thesis by (simp add: state_new_def Let_def dag_wf_def)
qed

lemma last_committed_new_zero:
  assumes "\<forall>x \<in> set certs. cert_round x = 0"
  shows "map_of (last_committed (state_new dk certs)) n =
     (if n \<in> cert_origin ` set certs then Some 0 else None)"
proof -
  let ?kvs = "map (\<lambda>x. (cert_origin x, (cert_digest dk x, x))) certs"
  let ?lc = "map (\<lambda>(x, (_, y)). (x, cert_round y)) (collect_map ?kvs)"
  have zero: "\<forall>(n, r) \<in> set ?lc. r = 0"
    using set_collect_map [of ?kvs] assms by fastforce
  have "dom (map_of (collect_map ?lc)) = fst ` set (collect_map ?kvs)"
    by (force simp: map_of_collect_map dom_map_of_conv_image_fst)
  also have "\<dots> = dom (map_of (collect_map ?kvs))" by (simp add: dom_map_of_conv_image_fst)
  also have "\<dots> = cert_origin ` set certs"
    by (force simp: map_of_collect_map dom_map_of_conv_image_fst)
  finally have dom: "dom (map_of (collect_map ?lc)) = cert_origin ` set certs" .
  show ?thesis
  proof (cases "map_of (collect_map ?lc) n")
    case None
    then show ?thesis using dom by (auto simp: state_new_def Let_def)
  next
    case (Some r)
    then have "(n, r) \<in> set ?lc" by (auto dest: map_of_SomeD simp: map_of_collect_map)
    with zero have "r = 0" by blast
    then show ?thesis using Some dom by (auto simp: state_new_def Let_def)
  qed
qed

section \<open>Cleanup\<close>

lemma max_round_bound: "(n, r) \<in> set m \<Longrightarrow> r \<le> max_round m"
proof -
  have gen: "fold max rs a = Max (insert a (set rs))" for rs and a :: round
    by (simp add: Max.set_eq_fold [symmetric])
  assume "(n, r) \<in> set m"
  then show ?thesis unfolding max_round_def gen by (intro Max_ge) (auto intro: image_eqI [rotated])
qed

lemma dag_get_retain_for:
  assumes "dag_wf dk d"
  shows "dag_get (retain_for depth committed (name, rnd) d) r n =
     (if n = name \<and> r < rnd \<or> \<not> committed \<le> r + depth then None else dag_get d r n)"
    and "dag_wf dk (retain_for depth committed (name, rnd) d)"
proof -
  let ?rows = "map (\<lambda>(r, row). (r, filter (\<lambda>(n, _). n \<noteq> name \<or> rnd \<le> r) row)) d"
  have fsts: "map fst ?rows = map fst d" by (induction d) auto
  have keys: "distinct (map fst ?rows)" unfolding fsts using assms by (simp add: dag_wf_def)
  have rows: "map_of ?rows r = map_option (filter (\<lambda>(n, _). n \<noteq> name \<or> rnd \<le> r)) (map_of d r)" for r
    by (induction d) auto
  have "\<forall>(r, row) \<in> set ?rows. row_wf dk r row"
    using assms by (auto simp: dag_wf_def intro!: wf_intros)
  then show "dag_wf dk (retain_for depth committed (name, rnd) d)"
    using distinct_map_fst_filter [OF keys] by (auto simp: retain_for_def dag_wf_def)
  have R: "retain_for depth committed (name, rnd) d =
      filter (\<lambda>(r, row). row \<noteq> [] \<and> committed \<le> r + depth) ?rows"
    by (simp add: retain_for_def)
  have row: "dag_row (retain_for depth committed (name, rnd) d) r =
      (if committed \<le> r + depth then filter (\<lambda>(n, _). n \<noteq> name \<or> rnd \<le> r) (dag_row d r) else [])"
    unfolding dag_row_def R map_of_filter_key [OF keys] rows by (auto split: option.split)
  have "distinct (map fst (dag_row d r))"
    using dag_row_wf [OF assms, of r] by (simp add: row_wf_def)
  note look = map_of_filter_key [OF this, of "\<lambda>n _. n \<noteq> name \<or> rnd \<le> r" n]
  show "dag_get (retain_for depth committed (name, rnd) d) r n =
     (if n = name \<and> r < rnd \<or> \<not> committed \<le> r + depth then None else dag_get d r n)"
    unfolding dag_get_def row using look by (auto split: option.split)
qed

lemma dag_get_retain_all:
  assumes "dag_wf dk d"
  shows "dag_get (fold (retain_for depth committed) lc d) r n =
     (if (\<exists>q. (n, q) \<in> set lc \<and> r < q) \<or> lc \<noteq> [] \<and> \<not> committed \<le> r + depth then None
      else dag_get d r n)"
    and "dag_wf dk (fold (retain_for depth committed) lc d)"
proof -
  have "dag_wf dk (fold (retain_for depth committed) lc d) \<and>
    dag_get (fold (retain_for depth committed) lc d) r n =
     (if (\<exists>q. (n, q) \<in> set lc \<and> r < q) \<or> lc \<noteq> [] \<and> \<not> committed \<le> r + depth then None
      else dag_get d r n)"
    using assms
  proof (induction lc arbitrary: d)
    case Nil
    then show ?case by simp
  next
    case (Cons a lc)
    obtain name rnd where a: "a = (name, rnd)" by (cases a)
    note step = dag_get_retain_for [OF Cons.prems, of depth committed name rnd]
    show ?case using Cons.IH [OF step(2)] by (auto simp: a step(1))
  qed
  then show "dag_get (fold (retain_for depth committed) lc d) r n =
     (if (\<exists>q. (n, q) \<in> set lc \<and> r < q) \<or> lc \<noteq> [] \<and> \<not> committed \<le> r + depth then None
      else dag_get d r n)"
    and "dag_wf dk (fold (retain_for depth committed) lc d)" by blast+
qed

text \<open>The state between two steps: the last committed round is the highest of all authorities.\<close>

definition state_wf :: "dalek \<Rightarrow> consensus_state \<Rightarrow> bool" where
  "state_wf dk st \<longleftrightarrow>
     dag_wf dk (dag st) \<and> distinct (map fst (last_committed st)) \<and>
     last_committed_round st = max_round (last_committed st)"

lemma raise_committed_lookup:
  "map_of (raise_committed x m) n =
     (if n = cert_origin x
      then Some (case map_of m n of Some r \<Rightarrow> max r (cert_round x) | None \<Rightarrow> cert_round x)
      else map_of m n)"
  by (simp add: raise_committed_def update_conv')

lemma raise_committed_distinct [wf_intros]:
  "distinct (map fst m) \<Longrightarrow> distinct (map fst (raise_committed x m))"
  by (simp add: raise_committed_def distinct_update)

lemma last_committed_update [simp]:
  "last_committed (update depth x st) = raise_committed x (last_committed st)"
  "last_committed_round (update depth x st) = max_round (raise_committed x (last_committed st))"
  by (simp_all add: update_def Let_def)

lemma raise_committed_nonempty: "raise_committed x m \<noteq> []"
  by (simp add: raise_committed_def)

lemma dag_get_update:
  assumes "state_wf dk st"
  shows "dag_get (dag (update depth x st)) r n =
     (if (\<exists>q. map_of (last_committed (update depth x st)) n = Some q \<and> r < q) \<or>
         \<not> last_committed_round (update depth x st) \<le> r + depth
      then None else dag_get (dag st) r n)"
proof -
  have "distinct (map fst (raise_committed x (last_committed st)))"
    using assms by (intro wf_intros) (simp add: state_wf_def)
  moreover have "dag_wf dk (dag st)" using assms by (simp add: state_wf_def)
  ultimately show ?thesis
    by (simp add: update_def Let_def dag_get_retain_all(1) [where dk = dk] raise_committed_nonempty)
qed

lemma update_wf [wf_intros]: "state_wf dk st \<Longrightarrow> state_wf dk (update depth x st)"
  by (simp add: state_wf_def update_def Let_def dag_get_retain_all wf_intros)

lemma insert_state_wf [wf_intros]:
  "state_wf dk st \<Longrightarrow> state_wf dk (st\<lparr>dag := dag_insert dk x (dag st)\<rparr>)"
  by (simp add: state_wf_def wf_intros)

lemma max_round_le_iff: "max_round m \<le> r \<longleftrightarrow> (\<forall>(n, q) \<in> set m. q \<le> r)"
proof -
  have "max_round m = Max (insert 0 (snd ` set m))"
    by (simp add: max_round_def Max.set_eq_fold [symmetric])
  then show ?thesis by auto
qed

lemma last_committed_le_round:
  "state_wf dk st \<Longrightarrow> map_of (last_committed st) n = Some r \<Longrightarrow> r \<le> last_committed_round st"
  by (auto simp: state_wf_def intro: max_round_bound dest: map_of_SomeD)

text \<open>Committing a certificate raises the last committed round to its round, if it was below.\<close>

lemma last_committed_round_update:
  assumes "state_wf dk st"
  shows "last_committed_round (update depth x st) = max (last_committed_round st) (cert_round x)"
proof (rule antisym)
  have "\<forall>(n, q) \<in> set (raise_committed x (last_committed st)).
      q \<le> max (last_committed_round st) (cert_round x)"
  proof clarify
    fix n q
    assume "(n, q) \<in> set (raise_committed x (last_committed st))"
    moreover have "distinct (map fst (raise_committed x (last_committed st)))"
      using assms by (intro wf_intros) (simp add: state_wf_def)
    ultimately have "map_of (raise_committed x (last_committed st)) n = Some q" by simp
    then show "q \<le> max (last_committed_round st) (cert_round x)"
      using last_committed_le_round [OF assms, of n]
      by (auto simp: raise_committed_lookup le_max_iff_disj split: if_splits option.splits)
  qed
  then show "last_committed_round (update depth x st) \<le> max (last_committed_round st) (cert_round x)"
    by (simp add: max_round_le_iff)
  have up: "\<exists>q' \<ge> q. map_of (raise_committed x (last_committed st)) n = Some q'"
    if "map_of (last_committed st) n = Some q" for n q
    using that by (auto simp: raise_committed_lookup)
  have "map_of (raise_committed x (last_committed st)) n = Some q \<Longrightarrow>
      q \<le> last_committed_round (update depth x st)" for n q
    by (auto intro: max_round_bound dest: map_of_SomeD)
  then have "max_round (last_committed st) \<le> last_committed_round (update depth x st)"
    using up assms unfolding max_round_le_iff state_wf_def
    by (metis (no_types, lifting) case_prodI2 map_of_is_SomeI order_trans)
  moreover have "\<exists>q \<ge> cert_round x. map_of (raise_committed x (last_committed st)) (cert_origin x) = Some q"
    by (auto simp: raise_committed_lookup split: option.split)
  ultimately show "max (last_committed_round st) (cert_round x) \<le> last_committed_round (update depth x st)"
    using assms \<open>\<And>q n. map_of (raise_committed x (last_committed st)) n = Some q \<Longrightarrow> q \<le> _\<close>
    by (auto simp: state_wf_def intro: order_trans)
qed

end
