(* ===== verification/Adversary.thy ===== *)
theory Adversary
  imports Crypto
begin

text \<open>
  \<open>primary/src/adversary.rs\<close>: the deterministic schedule of silent authorities and of leader
  rounds selected for direct commit. A score is 32 bytes of a hash; scores and tie-breakers are
  compared as tuples. Leader rounds (the even rounds) come in windows of \<open>3f + 1\<close>.
\<close>

section \<open>Scores and windows\<close>

definition domain_tag :: bytes where
  "domain_tag = map of_char ''narwhal-dynamic-adversary-v1''"

definition score :: "dalek \<Rightarrow> public_key \<Rightarrow> u64 \<Rightarrow> u64 \<Rightarrow> u8 \<Rightarrow> b256" where
  "score dk authority rnd seed domain =
     first32 (sha512 dk
       (domain_tag @ le_bytes 8 seed @ le_bytes 8 rnd @ [domain] @ key_as_ref authority))"

definition saturating_sub :: "u64 \<Rightarrow> u64 \<Rightarrow> u64" where
  "saturating_sub a b = (if b \<le> a then a - b else 0)"

definition window_start :: "usize \<Rightarrow> u64 \<Rightarrow> usize" where
  "window_start window rnd = (saturating_sub (rnd div 2) 1 div window) * window + 1"

text \<open>The leader rounds of the window that holds the given round.\<close>

definition candidate_rounds :: "usize \<Rightarrow> u64 \<Rightarrow> u64 list" where
  "candidate_rounds window rnd =
     map (\<lambda>offset. 2 * (window_start window rnd + offset)) (u64_range 0 window)"

definition leader_at :: "public_key list \<Rightarrow> u64 \<Rightarrow> public_key" where
  "leader_at authorities rnd = authorities ! unat (rnd mod word_of_nat (length authorities))"

definition leader_is_silent :: "dalek \<Rightarrow> public_key list \<Rightarrow> u64 \<Rightarrow> usize \<Rightarrow> u64 \<Rightarrow> bool" where
  "leader_is_silent dk authorities rnd faults seed =
     (let leader_slots =
            map (\<lambda>candidate. (score dk (leader_at authorities candidate) candidate seed 2, candidate))
              (candidate_rounds (3 * faults + 1) rnd)
      in \<exists>(_, candidate) \<in> set (take (unat faults) (sort leader_slots)). candidate = rnd)"

text \<open>The number of candidates whose score, with the key as tie-breaker, is below one's own.\<close>

definition rank_among :: "dalek \<Rightarrow> public_key list \<Rightarrow> public_key \<Rightarrow> u64 \<Rightarrow> u64 \<Rightarrow> nat" where
  "rank_among dk candidates authority rnd seed =
     length (filter (\<lambda>candidate. (score dk candidate rnd seed 0, candidate) <
                                 (score dk authority rnd seed 0, authority)) candidates)"

section \<open>The two selections\<close>

definition selected :: "dalek \<Rightarrow> public_key \<Rightarrow> public_key list \<Rightarrow> u64 \<Rightarrow> usize \<Rightarrow> u64 \<Rightarrow> bool" where
  "selected dk authority authorities rnd faults seed =
     (let faults = min faults (word_of_nat (length authorities)) in
      if faults = 0 then False
      else if rnd mod 2 = 0 then
        let silent = leader_is_silent dk authorities rnd faults seed;
            leader = leader_at authorities rnd
        in if authority = leader then silent
           else
             let remaining = faults - (if silent then 1 else 0);
                 rank = rank_among dk (filter (\<lambda>candidate. candidate \<noteq> leader) authorities) authority rnd seed
             in rank < unat remaining
      else rank_among dk authorities authority rnd seed < unat faults)"

text \<open>
  A window of size zero (\<open>3 * faults + 1\<close> wrapped around) divides by zero; a window whose vector of
  40-byte entries exceeds the address space overflows the capacity. Both panic.
\<close>

definition direct_commit_selected ::
  "dalek \<Rightarrow> public_key list \<Rightarrow> u64 \<Rightarrow> usize \<Rightarrow> u64 \<Rightarrow> (unit, bool) result" where
  "direct_commit_selected dk authorities leader_round faults seed =
     (if faults = 0 \<or> authorities = [] then Ok True
      else
        let window = 3 * faults + 1; target = min (faults + 2) window in
        if window = 0 \<or> 2 ^ 63 \<le> 40 * unat window then Panicked
        else
          let available =
                map (\<lambda>candidate. (score dk (leader_at authorities candidate) candidate seed 1, candidate))
                  (filter (\<lambda>candidate.
                       \<not> selected dk (leader_at authorities candidate) authorities candidate faults seed)
                    (candidate_rounds window leader_round))
          in Ok (\<exists>(_, rnd) \<in> set (take (unat target) (sort available)). rnd = leader_round))"

section \<open>Silent authorities of a round\<close>

lemma rank_among_card:
  assumes "distinct cs"
  shows "rank_among dk cs a rnd seed =
     card {k \<in> (\<lambda>c. (score dk c rnd seed 0, c)) ` set cs. k < (score dk a rnd seed 0, a)}"
proof -
  let ?key = "\<lambda>c. (score dk c rnd seed 0, c)"
  have "{k \<in> ?key ` set cs. k < ?key a} = ?key ` {c \<in> set cs. ?key c < ?key a}" by blast
  moreover have "inj_on ?key {c \<in> set cs. ?key c < ?key a}" by (auto intro: inj_onI)
  ultimately show ?thesis
    using assms by (simp add: rank_among_def length_filter_card card_image)
qed

lemma count_ranked:
  assumes "distinct cs"
  shows "card {a \<in> set cs. rank_among dk cs a rnd seed < k} = min k (length cs)"
proof -
  let ?key = "\<lambda>c. (score dk c rnd seed 0, c)"
  let ?S = "?key ` set cs"
  have inj: "inj_on ?key A" for A by (auto intro: inj_onI)
  have "{x \<in> ?S. card {y \<in> ?S. y < x} < k} = ?key ` {a \<in> set cs. rank_among dk cs a rnd seed < k}"
    by (auto simp: rank_among_card [OF assms])
  then have "card {a \<in> set cs. rank_among dk cs a rnd seed < k} = min k (card ?S)"
    using card_rank_below [of ?S k] inj by (simp add: card_image)
  then show ?thesis using assms inj by (simp add: card_image distinct_card)
qed

lemma leader_at_in:
  assumes "authorities \<noteq> []" "length authorities < 2 ^ 64"
  shows "leader_at authorities rnd \<in> set authorities"
proof -
  have "unat (word_of_nat (length authorities) :: u64) = length authorities"
    using assms(2) by (simp add: unsigned_of_nat take_bit_nat_eq_self)
  then have "unat (rnd mod word_of_nat (length authorities)) < length authorities"
    using assms(1) by (simp add: unat_mod)
  then show ?thesis by (simp add: leader_at_def)
qed

lemma clamp_faults:
  fixes faults :: usize
  assumes "unat faults \<le> length authorities" "length authorities < 2 ^ 64"
  shows "min faults (word_of_nat (length authorities)) = faults"
proof -
  have "unat (word_of_nat (length authorities) :: u64) = length authorities"
    using assms(2) by (simp add: unsigned_of_nat take_bit_nat_eq_self)
  then have "faults \<le> word_of_nat (length authorities)"
    using assms(1) unfolding word_le_nat_alt by simp
  then show ?thesis by (simp add: min_def)
qed

section \<open>Windows of leader rounds\<close>

text \<open>The leader rounds of the \<open>b\<close>-th window of \<open>3f + 1\<close> slots; they fit in a \<open>u64\<close> when \<open>window_fits\<close>.\<close>

definition window_rounds :: "nat \<Rightarrow> nat \<Rightarrow> u64 list" where
  "window_rounds f b = map (\<lambda>i. word_of_nat (2 * Suc (b * (3 * f + 1) + i))) [0..<3 * f + 1]"

definition window_fits :: "nat \<Rightarrow> nat \<Rightarrow> bool" where
  "window_fits f b \<longleftrightarrow> 2 * (Suc b * (3 * f + 1)) < 2 ^ 64"

lemma unat_of_nat_u64 [simp]: "n < 2 ^ 64 \<Longrightarrow> unat (word_of_nat n :: u64) = n"
  by (simp add: unsigned_of_nat take_bit_nat_eq_self)

lemma word_of_nat_div_u64:
  "m < 2 ^ 64 \<Longrightarrow> k < 2 ^ 64 \<Longrightarrow> (word_of_nat m :: u64) div word_of_nat k = word_of_nat (m div k)"
  by (rule word_unat_eq_iff [THEN iffD2])
    (simp add: unat_div less_imp_diff_less order_le_less_trans [OF div_le_dividend])

lemma window_start_eq:
  assumes i: "i < w" and fits: "2 * (Suc b * w) < 2 ^ 64"
  shows "window_start (word_of_nat w) (word_of_nat (2 * Suc (b * w + i))) = word_of_nat (Suc (b * w))"
proof -
  let ?n = "b * w + i"
  have n: "2 * Suc ?n < 2 ^ 64" "Suc ?n < 2 ^ 64" "?n < 2 ^ 64" "w < 2 ^ 64"
    using i fits by auto
  have "(word_of_nat (2 * Suc ?n) :: u64) div 2 = word_of_nat (2 * Suc ?n div 2)"
    using word_of_nat_div_u64 [OF n(1), of 2] by simp
  moreover have "2 * Suc ?n div 2 = Suc ?n" by simp
  ultimately have half: "(word_of_nat (2 * Suc ?n) :: u64) div 2 = word_of_nat (Suc ?n)"
    by (simp only:)
  have "unat (word_of_nat (Suc ?n) :: u64) = Suc ?n" by (rule unat_of_nat_u64 [OF n(2)])
  then have "1 \<le> (word_of_nat (Suc ?n) :: u64)" unfolding word_le_nat_alt by simp
  then have "saturating_sub (word_of_nat (Suc ?n)) 1 = word_of_nat ?n"
    by (simp add: saturating_sub_def)
  moreover have "(word_of_nat ?n :: u64) div word_of_nat w = word_of_nat b"
    using n i by (simp add: word_of_nat_div_u64 del: of_nat_add of_nat_mult)
  ultimately show ?thesis unfolding window_start_def half by (simp only:) simp
qed

lemma candidate_rounds_window:
  assumes fits: "window_fits f b" and r: "r \<in> set (window_rounds f b)"
  shows "candidate_rounds (3 * word_of_nat f + 1) r = window_rounds f b"
proof -
  let ?w = "3 * f + 1"
  obtain i where "i \<in> set [0..<?w]" "r = word_of_nat (2 * Suc (b * ?w + i))"
    using r unfolding window_rounds_def set_map by (elim imageE)
  then have i: "i < ?w" "r = word_of_nat (2 * Suc (b * ?w + i))" by auto
  have w: "(3 * word_of_nat f + 1 :: u64) = word_of_nat ?w" by simp
  have start: "window_start (word_of_nat ?w) r = word_of_nat (Suc (b * ?w))"
    unfolding i(2) by (rule window_start_eq [OF i(1)]) (use fits in \<open>simp add: window_fits_def\<close>)
  have "?w < 2 ^ 64" using fits by (simp add: window_fits_def)
  then have "u64_range 0 (word_of_nat ?w) = map word_of_nat [0..<?w]"
    unfolding u64_range_def by (simp only: unat_of_nat_u64 unat_0)
  then show ?thesis
    unfolding candidate_rounds_def w start window_rounds_def by (simp add: comp_def algebra_simps)
qed

lemma distinct_window_rounds:
  assumes "window_fits f b"
  shows "distinct (window_rounds f b)"
proof -
  let ?w = "3 * f + 1"
  have "inj_on (\<lambda>i. word_of_nat (2 * Suc (b * ?w + i)) :: u64) {0..<?w}"
  proof (rule inj_onI)
    fix i j
    assume ij: "i \<in> {0..<?w}" "j \<in> {0..<?w}"
      and eq: "(word_of_nat (2 * Suc (b * ?w + i)) :: u64) = word_of_nat (2 * Suc (b * ?w + j))"
    have fits: "2 * Suc (b * ?w + k) < 2 ^ 64" if "k \<in> {0..<?w}" for k
      using that assms by (simp add: window_fits_def)
    have "2 * Suc (b * ?w + i) = 2 * Suc (b * ?w + j)"
      using arg_cong [OF eq, of unat] unfolding unat_of_nat_u64 [OF fits [OF ij(1)]] unat_of_nat_u64 [OF fits [OF ij(2)]] .
    then show "i = j" by simp
  qed
  then show ?thesis unfolding window_rounds_def by (simp only: distinct_map distinct_upt set_upt)
qed

lemma length_window_rounds [simp]: "length (window_rounds f b) = 3 * f + 1"
  by (simp add: window_rounds_def)

lemma window_rounds_even:
  assumes "window_fits f b" and "r \<in> set (window_rounds f b)"
  shows "r mod 2 = 0"
proof -
  let ?w = "3 * f + 1"
  obtain i where "i \<in> set [0..<?w]" "r = word_of_nat (2 * Suc (b * ?w + i))"
    using assms(2) unfolding window_rounds_def set_map by (elim imageE)
  then have i: "i < ?w" and r: "r = word_of_nat (2 * Suc (b * ?w + i))" by auto
  have "2 * Suc (b * ?w + i) < 2 ^ 64"
    using assms(1) i by (simp add: window_fits_def)
  then have "unat r = 2 * Suc (b * ?w + i)" unfolding r by (rule unat_of_nat_u64)
  then have "unat (r mod 2) = 0" by (simp add: unat_mod)
  then show ?thesis by (simp only: unat_eq_0)
qed

lemma count_lowest_rounds:
  fixes g :: "u64 \<Rightarrow> b256"
  assumes "distinct rs"
  shows "card {r. \<exists>(_, c) \<in> set (take k (sort (map (\<lambda>c. (g c, c)) rs))). c = r} = min k (length rs)"
    and "{r. \<exists>(_, c) \<in> set (take k (sort (map (\<lambda>c. (g c, c)) rs))). c = r} \<subseteq> set rs"
proof -
  let ?slots = "map (\<lambda>c. (g c :: b256, c)) rs"
  have eq: "{r. \<exists>(_, c) \<in> set (take k (sort ?slots)). c = r} = snd ` set (take k (sort ?slots))"
    by force
  have "card (snd ` set (take k (sort ?slots))) = min k (length ?slots)"
    by (rule card_lowest_scored) (simp add: comp_def assms)
  then show "card {r. \<exists>(_, c) \<in> set (take k (sort ?slots)). c = r} = min k (length rs)"
    by (simp only: eq length_map)
  have "set (take k (sort ?slots)) \<subseteq> set ?slots"
    using set_take_subset by fastforce
  then show "{r. \<exists>(_, c) \<in> set (take k (sort ?slots)). c = r} \<subseteq> set rs" by auto
qed

text \<open>Whether the leader of a round of the window is silent, read off the whole window.\<close>

definition silent_rounds :: "dalek \<Rightarrow> public_key list \<Rightarrow> nat \<Rightarrow> nat \<Rightarrow> u64 \<Rightarrow> u64 set" where
  "silent_rounds dk authorities f b seed =
     {r. \<exists>(_, c) \<in> set (take f (sort (map (\<lambda>c. (score dk (leader_at authorities c) c seed 2, c))
           (window_rounds f b)))). c = r}"

lemma silent_rounds_card:
  assumes "window_fits f b"
  shows "card (silent_rounds dk authorities f b seed) = f"
    and "silent_rounds dk authorities f b seed \<subseteq> set (window_rounds f b)"
  unfolding silent_rounds_def
  using count_lowest_rounds [OF distinct_window_rounds [OF assms], of f] by auto

lemma faults_of_nat: "window_fits f b \<Longrightarrow> unat (word_of_nat f :: usize) = f"
  by (rule unat_of_nat_u64) (simp add: window_fits_def)

lemma selected_leader_iff:
  assumes "window_fits f b" and "0 < f" and "f \<le> length authorities" and "length authorities < 2 ^ 64"
    and r: "r \<in> set (window_rounds f b)"
  shows "selected dk (leader_at authorities r) authorities r (word_of_nat f) seed \<longleftrightarrow>
     r \<in> silent_rounds dk authorities f b seed"
proof -
  note f = faults_of_nat [OF assms(1)]
  have clamp: "min (word_of_nat f :: usize) (word_of_nat (length authorities)) = word_of_nat f"
    by (rule clamp_faults) (use assms(3,4) f in simp_all)
  have "(word_of_nat f :: usize) \<noteq> 0" using f assms(2) by (metis less_not_refl unat_0)
  moreover have "r mod 2 = 0" by (rule window_rounds_even [OF assms(1) r])
  ultimately have "selected dk (leader_at authorities r) authorities r (word_of_nat f) seed \<longleftrightarrow>
      leader_is_silent dk authorities r (word_of_nat f) seed"
    by (simp add: selected_def clamp)
  then show ?thesis
    by (simp add: leader_is_silent_def silent_rounds_def candidate_rounds_window [OF assms(1) r] f)
qed

lemma direct_commit_iff:
  assumes "window_fits f b" and "0 < f" and "f \<le> length authorities" and "length authorities < 2 ^ 64"
    and "40 * (3 * f + 1) < 2 ^ 63"
    and r: "r \<in> set (window_rounds f b)"
  shows "direct_commit_selected dk authorities r (word_of_nat f) seed =
     Ok (r \<in> {r. \<exists>(_, c) \<in> set (take (f + 2) (sort (map (\<lambda>c. (score dk (leader_at authorities c) c seed 1, c))
         (filter (\<lambda>c. c \<notin> silent_rounds dk authorities f b seed) (window_rounds f b))))). c = r})"
proof -
  let ?f = "word_of_nat f :: usize"
  note f = faults_of_nat [OF assms(1)]
  have "?f \<noteq> 0" using f assms(2) by (metis less_not_refl unat_0)
  moreover have "authorities \<noteq> []" using assms(2,3) by auto
  moreover have w: "unat (3 * ?f + 1) = 3 * f + 1"
    using unat_of_nat_u64 [of "3 * f + 1"] assms(5) by (simp add: add.commute)
  then have "3 * ?f + 1 \<noteq> 0" by (metis Suc_eq_plus1 nat.distinct(1) unat_0)
  moreover have target: "unat (min (?f + 2) (3 * ?f + 1)) = f + 2"
  proof -
    have "unat (?f + 2) = f + 2"
      using unat_of_nat_u64 [of "f + 2"] assms(5) by (simp add: add.commute)
    moreover from this have "?f + 2 \<le> 3 * ?f + 1" using w assms(2) by (simp add: word_le_nat_alt)
    ultimately show ?thesis by (simp add: min_def)
  qed
  moreover have "filter (\<lambda>c. \<not> selected dk (leader_at authorities c) authorities c ?f seed)
        (candidate_rounds (3 * ?f + 1) r) =
      filter (\<lambda>c. c \<notin> silent_rounds dk authorities f b seed) (window_rounds f b)"
    unfolding candidate_rounds_window [OF assms(1) r]
    by (rule filter_cong) (simp_all add: selected_leader_iff [OF assms(1-4)])
  ultimately show ?thesis
    using assms(5) by (simp add: direct_commit_selected_def Let_def w)
qed

section \<open>Properties\<close>

text \<open>
  In every round the schedule silences exactly f authorities, when f is below the number of
  distinct authorities.
\<close>

theorem selects_exactly_f:
  assumes "distinct authorities" and "unat faults < length authorities" and "length authorities < 2 ^ 64"
  shows "length (filter (\<lambda>a. selected dk a authorities rnd faults seed) authorities) = unat faults"
proof -
  have clamp: "min faults (word_of_nat (length authorities)) = faults"
    using assms by (intro clamp_faults) auto
  let ?L = "leader_at authorities rnd" and ?s = "leader_is_silent dk authorities rnd faults seed"
  let ?others = "filter (\<lambda>candidate. candidate \<noteq> leader_at authorities rnd) authorities"
  consider "faults = 0" | "faults \<noteq> 0" "rnd mod 2 \<noteq> 0" | "faults \<noteq> 0" "rnd mod 2 = 0"
    by (cases "faults = 0"; cases "rnd mod 2 = 0") simp_all
  then show ?thesis
  proof cases
    case 1
    then show ?thesis by (simp add: selected_def)
  next
    case 2
    have "length (filter (\<lambda>a. selected dk a authorities rnd faults seed) authorities) =
        card {a \<in> set authorities. rank_among dk authorities a rnd seed < unat faults}"
      using 2 by (simp add: selected_def clamp Let_def length_filter_card assms(1))
    also have "\<dots> = min (unat faults) (length authorities)"
      by (rule count_ranked) (rule assms(1))
    finally show ?thesis using assms(2) by simp
  next
    case 3
    define k where "k = unat (faults - (if ?s then 1 else 0))"
    have L: "?L \<in> set authorities" using assms(2,3) by (intro leader_at_in) auto
    have "length ?others = card (set authorities - {?L})"
      using distinct_card [OF distinct_filter [OF assms(1)], of "\<lambda>a. a \<noteq> ?L"]
      by (simp add: set_diff_eq)
    then have len: "length ?others = length authorities - 1"
      by (simp only: card_Diff_singleton [OF L] distinct_card [OF assms(1)])
    have pos: "0 < unat faults" using 3 by (simp add: unat_gt_0)
    have k: "k = unat faults - (if ?s then 1 else 0)"
      unfolding k_def using pos by (simp add: unat_sub word_le_nat_alt)
    have "{a \<in> set authorities. selected dk a authorities rnd faults seed} =
        (if ?s then {?L} else {}) \<union> {a \<in> set ?others. rank_among dk ?others a rnd seed < k}"
      using 3 L by (auto simp: selected_def clamp Let_def k_def)
    moreover have "card {a \<in> set ?others. rank_among dk ?others a rnd seed < k} = min k (length ?others)"
      by (rule count_ranked) (simp add: assms(1))
    moreover have "?L \<notin> {a \<in> set ?others. rank_among dk ?others a rnd seed < k}" by simp
    ultimately have "card {a \<in> set authorities. selected dk a authorities rnd faults seed} =
        (if ?s then 1 else 0) + min k (length ?others)"
      by (simp add: card_insert_if)
    then show ?thesis
      using assms(1,2) k len pos by (auto simp: length_filter_card)
  qed
qed

theorem selects_exactly_f_witness:
  "length (filter (\<lambda>a. selected ex_dalek a (map PublicKey [1, 2, 3, 4]) 6 2 7)
     (map PublicKey [1, 2, 3, 4])) = 2"
  using selects_exactly_f [of "map PublicKey [1, 2, 3, 4]" 2] by simp

text \<open>
  In every window of 3f + 1 leader rounds exactly f of the leaders are silent.
\<close>

theorem silent_leaders_per_window:
  assumes "window_fits f b" and "0 < f" and "f \<le> length authorities" and "length authorities < 2 ^ 64"
  shows "length (filter (\<lambda>r. selected dk (leader_at authorities r) authorities r (word_of_nat f) seed)
     (window_rounds f b)) = f"
proof -
  have "{r \<in> set (window_rounds f b). selected dk (leader_at authorities r) authorities r (word_of_nat f) seed} =
      silent_rounds dk authorities f b seed"
    using selected_leader_iff [OF assms] silent_rounds_card(2) [OF assms(1)] by blast
  then show ?thesis
    using silent_rounds_card(1) [OF assms(1)]
    by (simp add: length_filter_card distinct_window_rounds [OF assms(1)])
qed

theorem silent_leaders_per_window_witness:
  "length (filter (\<lambda>r. selected ex_dalek (leader_at (map PublicKey [1, 2, 3, 4]) r)
     (map PublicKey [1, 2, 3, 4]) r 1 7) (window_rounds 1 3)) = 1"
  using silent_leaders_per_window [of 1 3 "map PublicKey [1, 2, 3, 4]"] by (simp add: window_fits_def)

text \<open>
  In every window of 3f + 1 leader rounds exactly f + 2 rounds are selected for direct commit,
  and none of them has a silent leader, when f is at most the number of authorities.
\<close>

theorem direct_commits_per_window:
  assumes "window_fits f b" and "0 < f" and "f \<le> length authorities" and "length authorities < 2 ^ 64"
    and "40 * (3 * f + 1) < 2 ^ 63"
  shows "length (filter (\<lambda>r. direct_commit_selected dk authorities r (word_of_nat f) seed = Ok True)
           (window_rounds f b)) = f + 2 \<and>
         (\<forall>r \<in> set (window_rounds f b).
            direct_commit_selected dk authorities r (word_of_nat f) seed = Ok True \<longrightarrow>
            \<not> selected dk (leader_at authorities r) authorities r (word_of_nat f) seed)"
proof -
  let ?rs = "filter (\<lambda>c. c \<notin> silent_rounds dk authorities f b seed) (window_rounds f b)"
  let ?D = "{r. \<exists>(_, c) \<in> set (take (f + 2)
     (sort (map (\<lambda>c. (score dk (leader_at authorities c) c seed 1, c)) ?rs))). c = r}"
  note distinct = distinct_window_rounds [OF assms(1)]
  have D: "r \<in> set (window_rounds f b) \<Longrightarrow>
      direct_commit_selected dk authorities r (word_of_nat f) seed = Ok True \<longleftrightarrow> r \<in> ?D" for r
    using direct_commit_iff [OF assms] by simp
  have sub: "?D \<subseteq> set ?rs" and card: "card ?D = min (f + 2) (length ?rs)"
    using count_lowest_rounds [OF distinct_filter [OF distinct]] by auto
  have "length ?rs + f = 3 * f + 1"
  proof -
    have "{r \<in> set (window_rounds f b). r \<in> silent_rounds dk authorities f b seed} =
        silent_rounds dk authorities f b seed"
      using silent_rounds_card(2) [OF assms(1)] by blast
    then have "length (filter (\<lambda>c. c \<in> silent_rounds dk authorities f b seed) (window_rounds f b)) = f"
      by (simp add: length_filter_card [OF distinct] silent_rounds_card(1) [OF assms(1)])
    then show ?thesis
      using sum_length_filter_compl [of "\<lambda>c. c \<in> silent_rounds dk authorities f b seed" "window_rounds f b"]
      by simp
  qed
  then have "card ?D = f + 2" using card assms(2) by simp
  moreover have "{r \<in> set (window_rounds f b).
      direct_commit_selected dk authorities r (word_of_nat f) seed = Ok True} = ?D"
    using D sub by auto
  ultimately have "length (filter (\<lambda>r. direct_commit_selected dk authorities r (word_of_nat f) seed = Ok True)
      (window_rounds f b)) = f + 2"
    by (simp only: length_filter_card [OF distinct])
  moreover have "\<not> selected dk (leader_at authorities r) authorities r (word_of_nat f) seed"
    if "r \<in> set (window_rounds f b)" "direct_commit_selected dk authorities r (word_of_nat f) seed = Ok True" for r
  proof -
    have "r \<in> set ?rs" using that D sub by blast
    then show ?thesis using selected_leader_iff [OF assms(1-4) that(1)] by simp
  qed
  ultimately show ?thesis by blast
qed

theorem direct_commits_per_window_witness:
  "length (filter (\<lambda>r. direct_commit_selected ex_dalek (map PublicKey [1, 2, 3, 4]) r 1 7 = Ok True)
     (window_rounds 1 3)) = 3"
  using direct_commits_per_window [of 1 3 "map PublicKey [1, 2, 3, 4]" ex_dalek 7] by (simp add: window_fits_def)

end
