(* ===== verification/ConsensusOrder.thy ===== *)
theory ConsensusOrder
  imports ConsensusState Adversary
begin

text \<open>
  The queries of \<open>consensus/src/lib.rs\<close> on the DAG: the leader of a round, the path test between
  two leaders, the list of leaders to commit, and the depth-first flattening of a leader's history.
  An \<open>expect\<close> that fails is \<open>Panicked\<close>.
\<close>

section \<open>The consensus task\<close>

text \<open>
  The fields of \<open>Consensus\<close> that are not channels, with the functions of the third-party crates
  and the process environment.
\<close>

record consensus =
  co_crypto :: dalek
  co_env :: environment
  co_committee :: committee
  co_gc_depth :: round
  co_genesis :: "certificate list"

definition consensus_new :: "dalek \<Rightarrow> environment \<Rightarrow> committee \<Rightarrow> round \<Rightarrow> consensus" where
  "consensus_new dk env c depth =
     \<lparr>co_crypto = dk, co_env = env, co_committee = c, co_gc_depth = depth, co_genesis = genesis c\<rparr>"

definition leader_selected :: "consensus \<Rightarrow> round \<Rightarrow> (unit, bool) result" where
  "leader_selected co r =
     (let faults = env_or (co_env co) ''TUSK_FAULTS'' 0;
          seed = env_or (co_env co) ''TUSK_ADVERSARY_SEED'' 0
      in direct_commit_selected (co_crypto co) (names (co_committee co)) r faults seed)"

text \<open>Round-robin over the sorted keys; the remainder by a committee size of zero panics.\<close>

definition leader :: "consensus \<Rightarrow> round \<Rightarrow> dag \<Rightarrow> (unit, (digest \<times> certificate) option) result" where
  "leader co r d =
     (let coin = r; keys = sort (names (co_committee co)) in
      if committee_size (co_committee co) = 0 then Panicked
      else Ok (dag_get d r (keys ! unat (coin mod committee_size (co_committee co)))))"

section \<open>Paths and past leaders\<close>

text \<open>The loop of \<open>linked\<close>: the certificates of each round that the current ones have as parents.\<close>

fun walk_back :: "dag \<Rightarrow> round list \<Rightarrow> certificate list \<Rightarrow> (unit, certificate list) result" where
  "walk_back d [] parents = Ok parents"
| "walk_back d (r # rs) parents =
     (case map_of d r of
        None \<Rightarrow> Panicked
      | Some row \<Rightarrow>
          walk_back d rs
            (map snd (filter (\<lambda>(h, _). \<exists>x \<in> set parents. h \<in> set (h_parents (c_header x))) (map snd row))))"

definition linked :: "certificate \<Rightarrow> certificate \<Rightarrow> dag \<Rightarrow> (unit, bool) result" where
  "linked ldr prev_leader d =
     and_then (walk_back d (rev (u64_range (cert_round prev_leader) (cert_round ldr))) [ldr])
       (\<lambda>parents. Ok (\<exists>x \<in> set parents. cert_eq x prev_leader))"

text \<open>\<open>step_by(2)\<close> of an iterator: its elements at the even positions.\<close>

fun every_second :: "'a list \<Rightarrow> 'a list" where
  "every_second [] = []"
| "every_second [x] = [x]"
| "every_second (x # _ # xs) = x # every_second xs"

fun past_leaders ::
  "consensus \<Rightarrow> dag \<Rightarrow> round list \<Rightarrow> certificate \<Rightarrow> certificate list \<Rightarrow> (unit, certificate list) result"
where
  "past_leaders co d [] ldr to_commit = Ok to_commit"
| "past_leaders co d (r # rs) ldr to_commit =
     and_then (leader co r d) (\<lambda>found.
       case found of
         None \<Rightarrow> past_leaders co d rs ldr to_commit
       | Some (_, prev_leader) \<Rightarrow>
           and_then (linked ldr prev_leader d) (\<lambda>path.
             if path then past_leaders co d rs prev_leader (to_commit @ [prev_leader])
             else past_leaders co d rs ldr to_commit))"

definition order_leaders ::
  "consensus \<Rightarrow> certificate \<Rightarrow> consensus_state \<Rightarrow> (unit, certificate list) result" where
  "order_leaders co ldr st =
     past_leaders co (dag st)
       (every_second (rev (u64_range_incl (last_committed_round st + 2) (cert_round ldr - 2))))
       ldr [ldr]"

section \<open>Flattening the history of a leader\<close>

definition find_parent :: "dag \<Rightarrow> round \<Rightarrow> digest \<Rightarrow> (digest \<times> certificate) option" where
  "find_parent d r parent =
     (case map_of d r of None \<Rightarrow> None | Some row \<Rightarrow> find (\<lambda>(x, _). x = parent) (map snd row))"

definition committed_at :: "consensus_state \<Rightarrow> certificate \<Rightarrow> bool" where
  "committed_at st y \<longleftrightarrow>
     (case map_of (last_committed st) (cert_origin y) of None \<Rightarrow> False | Some r \<Rightarrow> r = cert_round y)"

text \<open>
  The inner loop over the parents of \<open>x\<close>. The vector \<open>buffer\<close> is a stack: its last element,
  where the code pushes and pops, is the head of the list.
\<close>

fun push_parents ::
  "consensus_state \<Rightarrow> certificate \<Rightarrow> digest list \<Rightarrow> certificate list \<Rightarrow> digest set
   \<Rightarrow> certificate list \<times> digest set" where
  "push_parents st x [] buffer already = (buffer, already)"
| "push_parents st x (parent # parents) buffer already =
     (case find_parent (dag st) (cert_round x - 1) parent of
        None \<Rightarrow> push_parents st x parents buffer already
      | Some (h, y) \<Rightarrow>
          let skip = h \<in> already \<or> committed_at st y
          in if skip then push_parents st x parents buffer already
             else push_parents st x parents (y # buffer) (insert h already))"

definition dag_digests :: "dag \<Rightarrow> digest set" where
  "dag_digests d = (\<Union>(_, row) \<in> set d. (fst \<circ> snd) ` set row)"

lemma finite_dag_digests [simp]: "finite (dag_digests d)"
  by (auto simp: dag_digests_def)

lemma find_parent_SomeD:
  assumes "find_parent d r p = Some (h, y)"
  shows "h = p" and "\<exists>n. (n, h, y) \<in> set (dag_row d r)" and "h \<in> dag_digests d"
proof -
  obtain row where row: "map_of d r = Some row" and f: "find (\<lambda>(x, _). x = p) (map snd row) = Some (h, y)"
    using assms by (auto simp: find_parent_def split: option.splits)
  from f obtain n where n: "(n, h, y) \<in> set row" and "h = p"
    by (auto simp: find_Some_iff) (metis nth_mem surjective_pairing snd_conv)
  then show "h = p" by simp
  show "\<exists>n. (n, h, y) \<in> set (dag_row d r)" using n row by (auto simp: dag_row_def)
  have "(r, row) \<in> set d" using row by (rule map_of_SomeD)
  moreover have "h \<in> (fst \<circ> snd) ` set row" using n by (rule rev_image_eqI) simp
  ultimately show "h \<in> dag_digests d" unfolding dag_digests_def by blast
qed

text \<open>A push takes a digest out of those not yet ordered, so the two counts balance.\<close>

lemma push_parents_measure:
  assumes "push_parents st x ps buffer already = (buffer', already')"
  shows "card (dag_digests (dag st) - already') + length buffer' =
         card (dag_digests (dag st) - already) + length buffer"
  using assms
proof (induction ps arbitrary: buffer already)
  case Nil
  then show ?case by simp
next
  case (Cons parent ps)
  show ?case
  proof (cases "find_parent (dag st) (cert_round x - 1) parent")
    case None
    then show ?thesis using Cons by simp
  next
    case (Some hy)
    obtain h y where hy: "hy = (h, y)" by (cases hy)
    show ?thesis
    proof (cases "h \<in> already \<or> committed_at st y")
      case True
      then have "push_parents st x ps buffer already = (buffer', already')"
        using Cons.prems Some hy by (auto simp: Let_def)
      then show ?thesis by (rule Cons.IH)
    next
      case False
      then have "push_parents st x ps (y # buffer) (insert h already) = (buffer', already')"
        using Cons.prems Some hy by (auto simp: Let_def)
      note IH = Cons.IH [OF this]
      have "h \<in> dag_digests (dag st) - already"
        using find_parent_SomeD(3) [of "dag st" _ _ h y] Some hy False by simp
      then have "Suc (card (dag_digests (dag st) - already - {h})) = card (dag_digests (dag st) - already)"
        by (intro card_Suc_Diff1) simp_all
      moreover have "dag_digests (dag st) - insert h already = dag_digests (dag st) - already - {h}"
        by blast
      ultimately show ?thesis using IH by simp
    qed
  qed
qed

function order_loop ::
  "consensus_state \<Rightarrow> certificate list \<Rightarrow> digest set \<Rightarrow> certificate list \<Rightarrow> certificate list" where
  "order_loop st [] already ordered = ordered"
| "order_loop st (x # buffer) already ordered =
     (let (buffer', already') = push_parents st x (h_parents (c_header x)) buffer already
      in order_loop st buffer' already' (ordered @ [x]))"
  by pat_completeness auto
termination
proof (relation "measure (\<lambda>(st, buffer, already, _).
    card (dag_digests (dag st) - already) + length buffer)", goal_cases)
  case 1
  then show ?case by simp
next
  case (2 st x buffer already ordered p buffer' already')
  then have "push_parents st x (h_parents (c_header x)) buffer already = (buffer', already')" by simp
  from push_parents_measure [OF this] show ?case by simp
qed

definition order_dag :: "consensus \<Rightarrow> certificate \<Rightarrow> consensus_state \<Rightarrow> certificate list" where
  "order_dag co ldr st =
     (let ordered = order_loop st [ldr] {} [] in
      sort_key cert_round
        (filter (\<lambda>x. last_committed_round st \<le> cert_round x + co_gc_depth co) ordered))"

section \<open>What the depth-first search returns\<close>

text \<open>The certificates of a DAG, and the edges to parents that are present and not yet committed.\<close>

definition dag_certs :: "dag \<Rightarrow> certificate set" where
  "dag_certs d = {x. \<exists>r n h. dag_get d r n = Some (h, x)}"

definition parent_edge :: "consensus_state \<Rightarrow> certificate \<Rightarrow> certificate \<Rightarrow> bool" where
  "parent_edge st x y \<longleftrightarrow>
     (\<exists>p \<in> set (h_parents (c_header x)). find_parent (dag st) (cert_round x - 1) p = Some (p, y)) \<and>
     \<not> committed_at st y"

definition history :: "consensus_state \<Rightarrow> certificate \<Rightarrow> certificate set" where
  "history st ldr = {y. (parent_edge st)\<^sup>*\<^sup>* ldr y}"

lemma find_parent_wf:
  assumes "dag_wf dk d" and "find_parent d r p = Some (h, y)"
  shows "h = p" and "p = cert_digest dk y" and "cert_round y = r" and "y \<in> dag_certs d"
    and "dag_get d r (cert_origin y) = Some (h, y)"
proof -
  show "h = p" by (rule find_parent_SomeD(1) [OF assms(2)])
  obtain n where n: "(n, h, y) \<in> set (dag_row d r)" using find_parent_SomeD(2) [OF assms(2)] by blast
  then have get: "dag_get d r n = Some (h, y)" using assms(1) by (simp add: dag_row_get)
  note wf = dag_get_wf [OF assms(1) get]
  show "cert_round y = r" "p = cert_digest dk y" using wf \<open>h = p\<close> by auto
  show "y \<in> dag_certs d" using get by (auto simp: dag_certs_def)
  show "dag_get d r (cert_origin y) = Some (h, y)" using get wf by simp
qed

text \<open>One pass over the parents pushes the missing ones, with distinct digests, and misses none.\<close>

definition pushed ::
  "dalek \<Rightarrow> consensus_state \<Rightarrow> certificate \<Rightarrow> digest list \<Rightarrow> digest set \<Rightarrow> certificate list \<Rightarrow> bool" where
  "pushed dk st x ps already new \<longleftrightarrow>
     distinct (map (cert_digest dk) new) \<and> cert_digest dk ` set new \<inter> already = {} \<and>
     (\<forall>y \<in> set new. \<not> committed_at st y \<and>
        (\<exists>p \<in> set ps. find_parent (dag st) (cert_round x - 1) p = Some (p, y))) \<and>
     (\<forall>p \<in> set ps. \<forall>y. find_parent (dag st) (cert_round x - 1) p = Some (p, y) \<longrightarrow>
        \<not> committed_at st y \<longrightarrow> p \<in> already \<union> cert_digest dk ` set new)"

lemma pushed_Cons_new:
  assumes "pushed dk st x ps (insert p already) new"
    and "find_parent (dag st) (cert_round x - 1) p = Some (p, y)" "p = cert_digest dk y"
    and "p \<notin> already" "\<not> committed_at st y"
  shows "pushed dk st x (p # ps) already (new @ [y])"
proof -
  have "distinct (map (cert_digest dk) (new @ [y]))"
    and "cert_digest dk ` set (new @ [y]) \<inter> already = {}"
    using assms(1,3,4) by (auto simp: pushed_def)
  moreover have "p \<in> already \<union> cert_digest dk ` set (new @ [y])" using assms(3) by simp
  moreover have "already \<union> cert_digest dk ` set (new @ [y]) = insert p already \<union> cert_digest dk ` set new"
    using assms(3) by auto
  moreover have "\<forall>z \<in> set (new @ [y]). \<not> committed_at st z \<and>
      (\<exists>p \<in> set (p # ps). find_parent (dag st) (cert_round x - 1) p = Some (p, z))"
    using assms(1,2,5) by (auto simp: pushed_def)
  ultimately show ?thesis
    using assms(1) unfolding pushed_def by (metis set_ConsD)
qed

lemma pushed_Cons_skip:
  assumes "pushed dk st x ps already new"
    and "\<And>y. find_parent (dag st) (cert_round x - 1) p = Some (p, y) \<Longrightarrow>
       \<not> committed_at st y \<Longrightarrow> p \<in> already"
  shows "pushed dk st x (p # ps) already new"
  using assms unfolding pushed_def by auto

lemma push_parents_new:
  assumes "dag_wf dk (dag st)" and "push_parents st x ps buffer already = (buffer', already')"
  shows "\<exists>new. buffer' = new @ buffer \<and> already' = already \<union> cert_digest dk ` set new \<and>
     pushed dk st x ps already new"
  using assms(2)
proof (induction ps arbitrary: buffer already)
  case Nil
  then show ?case by (simp add: pushed_def)
next
  case (Cons parent ps)
  let ?found = "find_parent (dag st) (cert_round x - 1) parent"
  show ?case
  proof (cases "\<exists>y. ?found = Some (parent, y) \<and> parent \<notin> already \<and> \<not> committed_at st y")
    case True
    then obtain y where y: "?found = Some (parent, y)" "parent \<notin> already" "\<not> committed_at st y" by blast
    then have "push_parents st x ps (y # buffer) (insert parent already) = (buffer', already')"
      using Cons.prems by simp
    from Cons.IH [OF this] obtain new where new:
      "buffer' = new @ y # buffer" "already' = insert parent already \<union> cert_digest dk ` set new"
      "pushed dk st x ps (insert parent already) new" by blast
    have p: "parent = cert_digest dk y" by (rule find_parent_wf(2) [OF assms(1) y(1)])
    show ?thesis
      using new(1,2) pushed_Cons_new [OF new(3) y(1) p y(2,3)] p by (intro exI [of _ "new @ [y]"]) simp
  next
    case False
    have same: "h = parent" if "?found = Some (h, y)" for h y
      using that by (rule find_parent_SomeD(1))
    then have "push_parents st x ps buffer already = (buffer', already')"
    proof (cases ?found)
      case None
      then show ?thesis using Cons.prems by simp
    next
      case (Some hy)
      then obtain y where "?found = Some (parent, y)" using same by (cases hy) auto
      then show ?thesis using Cons.prems False by auto
    qed
    from Cons.IH [OF this] obtain new where new:
      "buffer' = new @ buffer" "already' = already \<union> cert_digest dk ` set new"
      "pushed dk st x ps already new" by blast
    have "pushed dk st x (parent # ps) already new"
      by (rule pushed_Cons_skip [OF new(3)]) (use False in simp)
    then show ?thesis using new(1,2) by (intro exI [of _ new]) simp
  qed
qed

text \<open>
  The invariant of the outer loop: apart from the leader, what is ordered or waiting has distinct
  digests, which are the ones marked; it is reachable from the leader; and the parents of what is
  ordered are marked.
\<close>

definition search_inv ::
  "dalek \<Rightarrow> consensus_state \<Rightarrow> certificate \<Rightarrow> certificate list \<Rightarrow> digest set \<Rightarrow> certificate list \<Rightarrow> bool"
where
  "search_inv dk st ldr buffer already ordered \<longleftrightarrow>
     (\<exists>rest. mset (ordered @ buffer) = mset (ldr # rest) \<and>
        distinct (map (cert_digest dk) rest) \<and> already = cert_digest dk ` set rest \<and>
        (\<forall>y \<in> set rest. (parent_edge st)\<^sup>+\<^sup>+ ldr y) \<and>
        (\<forall>x \<in> set ordered. \<forall>y. parent_edge st x y \<longrightarrow> cert_digest dk y \<in> already))"

lemma search_inv_start: "search_inv dk st ldr [ldr] {} []"
  by (simp add: search_inv_def)

lemma search_inv_step:
  assumes wf: "dag_wf dk (dag st)" and inv: "search_inv dk st ldr (x # buffer) already ordered"
    and push: "push_parents st x (h_parents (c_header x)) buffer already = (buffer', already')"
  shows "search_inv dk st ldr buffer' already' (ordered @ [x])"
proof -
  obtain rest where rest: "mset (ordered @ x # buffer) = mset (ldr # rest)"
    "distinct (map (cert_digest dk) rest)" "already = cert_digest dk ` set rest"
    "\<forall>y \<in> set rest. (parent_edge st)\<^sup>+\<^sup>+ ldr y"
    "\<forall>x \<in> set ordered. \<forall>y. parent_edge st x y \<longrightarrow> cert_digest dk y \<in> already"
    using inv unfolding search_inv_def by blast
  obtain new where new: "buffer' = new @ buffer" "already' = already \<union> cert_digest dk ` set new"
    "pushed dk st x (h_parents (c_header x)) already new"
    using push_parents_new [OF wf push] by blast
  have "x \<in> set (ldr # rest)"
    using arg_cong [OF rest(1), of set_mset] by auto
  then have reach: "(parent_edge st)\<^sup>*\<^sup>* ldr x" using rest(4) by auto
  have edge: "parent_edge st x y" if "y \<in> set new" for y
    using new(3) that by (auto simp: parent_edge_def pushed_def)
  have all: "cert_digest dk y \<in> already'" if "parent_edge st x y" for y
  proof -
    obtain p where p: "p \<in> set (h_parents (c_header x))" "\<not> committed_at st y"
      "find_parent (dag st) (cert_round x - 1) p = Some (p, y)"
      using \<open>parent_edge st x y\<close> by (auto simp: parent_edge_def)
    then show ?thesis using new(2,3) find_parent_wf(2) [OF wf p(3)] by (auto simp: pushed_def)
  qed
  have "distinct (map (cert_digest dk) (rest @ new))"
    using rest(2,3) new(3) by (auto simp: pushed_def)
  moreover have "mset ((ordered @ [x]) @ buffer') = mset (ldr # rest @ new)"
    using rest(1) new(1) by simp
  moreover have "already' = cert_digest dk ` set (rest @ new)" using rest(3) new(2) by auto
  moreover have "\<forall>y \<in> set (rest @ new). (parent_edge st)\<^sup>+\<^sup>+ ldr y"
    using rest(4) reach edge by (auto intro: rtranclp_into_tranclp1)
  moreover have "\<forall>z \<in> set (ordered @ [x]). \<forall>y. parent_edge st z y \<longrightarrow> cert_digest dk y \<in> already'"
    using rest(5) new(2) all by auto
  ultimately show ?thesis unfolding search_inv_def by blast
qed

lemma search_inv_end:
  assumes "dag_wf dk (dag st)" and "search_inv dk st ldr buffer already ordered"
  shows "\<exists>already'. search_inv dk st ldr [] already' (order_loop st buffer already ordered)"
  using assms
proof (induction st buffer already ordered rule: order_loop.induct)
  case (1 st already ordered)
  then show ?case by auto
next
  case (2 st x buffer already ordered)
  obtain buffer' already' where push:
    "push_parents st x (h_parents (c_header x)) buffer already = (buffer', already')"
    by fastforce
  have "search_inv dk st ldr buffer' already' (ordered @ [x])"
    by (rule search_inv_step [OF 2(2,3) push])
  then show ?case using 2(1) [OF push [symmetric] refl 2(2)] push by simp
qed

declare order_loop.simps [simp del]

lemma order_loop_result:
  assumes "dag_wf dk (dag st)"
  obtains rest where "mset (order_loop st [ldr] {} []) = mset (ldr # rest)"
    "distinct (map (cert_digest dk) rest)" "\<forall>y \<in> set rest. (parent_edge st)\<^sup>+\<^sup>+ ldr y"
    "\<forall>x \<in> set (ldr # rest). \<forall>y. parent_edge st x y \<longrightarrow> cert_digest dk y \<in> cert_digest dk ` set rest"
proof -
  obtain rest where rest: "mset (order_loop st [ldr] {} []) = mset (ldr # rest)"
    "distinct (map (cert_digest dk) rest)" "\<forall>y \<in> set rest. (parent_edge st)\<^sup>+\<^sup>+ ldr y"
    "\<forall>x \<in> set (order_loop st [ldr] {} []).
       \<forall>y. parent_edge st x y \<longrightarrow> cert_digest dk y \<in> cert_digest dk ` set rest"
    using search_inv_end [OF assms search_inv_start [of dk st ldr]] unfolding search_inv_def
    by (auto simp del: mset.simps mset_append)
  moreover have "set (order_loop st [ldr] {} []) = set (ldr # rest)"
    by (rule mset_eq_setD) (rule rest(1))
  ultimately show thesis using that by simp
qed

lemma parent_edgeD:
  assumes "dag_wf dk (dag st)" and "parent_edge st x y"
  shows "cert_round y = cert_round x - 1" and "y \<in> dag_certs (dag st)" and "\<not> committed_at st y"
proof -
  obtain p where p: "find_parent (dag st) (cert_round x - 1) p = Some (p, y)"
    using assms(2) by (auto simp: parent_edge_def)
  show "cert_round y = cert_round x - 1" "y \<in> dag_certs (dag st)"
    using find_parent_wf [OF assms(1) p] by auto
  show "\<not> committed_at st y" using assms(2) by (simp add: parent_edge_def)
qed

lemma reached_certs:
  assumes "dag_wf dk (dag st)" and "(parent_edge st)\<^sup>+\<^sup>+ x y"
  shows "y \<in> dag_certs (dag st)" and "\<not> committed_at st y"
proof -
  obtain z where "parent_edge st z y" using assms(2) by (metis tranclp.cases)
  then show "y \<in> dag_certs (dag st)" "\<not> committed_at st y" using parent_edgeD [OF assms(1)] by blast+
qed

lemma dag_certs_slot:
  assumes "dag_wf dk d" "x \<in> dag_certs d" "y \<in> dag_certs d"
    and "cert_origin x = cert_origin y" "cert_round x = cert_round y"
  shows "x = y"
proof -
  obtain r n h r' n' h' where get: "dag_get d r n = Some (h, x)" "dag_get d r' n' = Some (h', y)"
    using assms(2,3) by (auto simp: dag_certs_def)
  have "r = r'" "n = n'"
    using dag_get_wf [OF assms(1) get(1)] dag_get_wf [OF assms(1) get(2)] assms(4,5) by auto
  with get show ?thesis by simp
qed

text \<open>
  The parents of a round are looked up in the round before; from round 0 the subtraction wraps
  around to the last round, which no certificate of the DAG reaches.
\<close>

definition last_round_free :: "dag \<Rightarrow> bool" where
  "last_round_free d \<longleftrightarrow> (\<forall>x \<in> dag_certs d. cert_round x \<noteq> - 1)"

lemma parent_edge_round:
  assumes "dag_wf dk (dag st)" "last_round_free (dag st)" and "parent_edge st x y"
  shows "cert_round y < cert_round x"
proof -
  note edge = parent_edgeD [OF assms(1,3)]
  have "cert_round x - 1 \<noteq> - 1" using edge assms(2) by (auto simp: last_round_free_def)
  then have "cert_round x \<noteq> 0" by auto
  then show ?thesis using edge(1) by (simp add: word_less_nat_alt unat_minus_one unat_gt_0)
qed

lemma reached_round:
  assumes "dag_wf dk (dag st)" "last_round_free (dag st)" and "(parent_edge st)\<^sup>+\<^sup>+ x y"
  shows "cert_round y < cert_round x"
  using assms(3)
proof induction
  case (base y)
  then show ?case by (rule parent_edge_round [OF assms(1,2)])
next
  case (step y z)
  then show ?case using parent_edge_round [OF assms(1,2) step.hyps(2)] by (rule_tac less_trans)
qed

definition slot :: "certificate \<Rightarrow> public_key \<times> round" where
  "slot x = (cert_origin x, cert_round x)"

text \<open>No slot of an author and a round is flattened twice.\<close>

lemma order_loop_slots:
  assumes wf: "dag_wf dk (dag st)" and free: "last_round_free (dag st)"
  shows "distinct (map slot (order_loop st [ldr] {} []))"
proof -
  obtain rest where rest: "mset (order_loop st [ldr] {} []) = mset (ldr # rest)"
    "distinct (map (cert_digest dk) rest)" "\<forall>y \<in> set rest. (parent_edge st)\<^sup>+\<^sup>+ ldr y"
    by (rule order_loop_result [OF wf])
  have "inj_on slot (set rest)"
  proof (rule inj_onI)
    fix x y
    assume "x \<in> set rest" "y \<in> set rest" and eq: "slot x = slot y"
    then have "x \<in> dag_certs (dag st)" "y \<in> dag_certs (dag st)"
      using rest(3) reached_certs(1) [OF wf] by blast+
    then show "x = y" by (rule dag_certs_slot [OF wf]) (use eq in \<open>simp_all add: slot_def\<close>)
  qed
  moreover have "distinct rest" using rest(2) by (simp add: distinct_map)
  moreover have "slot ldr \<notin> slot ` set rest"
    using rest(3) reached_round [OF wf free, of ldr] by (fastforce simp: slot_def)
  ultimately have "distinct (map slot (ldr # rest))" by (simp add: distinct_map)
  moreover have "mset (map slot (order_loop st [ldr] {} [])) = mset (map slot (ldr # rest))"
    using rest(1) by simp
  ultimately show ?thesis by (metis mset_eq_imp_distinct_iff)
qed

lemma order_dag_slots:
  assumes "dag_wf dk (dag st)" and "last_round_free (dag st)"
  shows "distinct (map slot (order_dag co ldr st))"
proof -
  let ?kept = "filter (\<lambda>x. last_committed_round st \<le> cert_round x + co_gc_depth co)
    (order_loop st [ldr] {} [])"
  have "distinct (map slot ?kept)"
    using order_loop_slots [OF assms, of ldr] by (induction "order_loop st [ldr] {} []") (auto intro: distinct_map_filter)
  moreover have "mset (map slot (order_dag co ldr st)) = mset (map slot ?kept)"
    by (simp add: order_dag_def Let_def)
  ultimately show ?thesis by (metis mset_eq_imp_distinct_iff)
qed

lemma order_dag_sorted: "sorted (map cert_round (order_dag co ldr st))"
  by (simp add: order_dag_def Let_def)

lemma order_dag_subset:
  assumes "dag_wf dk (dag st)" and "x \<in> set (order_dag co ldr st)"
  shows "x = ldr \<or> (parent_edge st)\<^sup>+\<^sup>+ ldr x"
proof -
  obtain rest where rest: "mset (order_loop st [ldr] {} []) = mset (ldr # rest)"
    "\<forall>y \<in> set rest. (parent_edge st)\<^sup>+\<^sup>+ ldr y"
    by (rule order_loop_result [OF assms(1)])
  have "x \<in> set (order_loop st [ldr] {} [])" using assms(2) by (auto simp: order_dag_def Let_def)
  with rest mset_eq_setD [OF rest(1)] show ?thesis by auto
qed

text \<open>Without collisions the search finds the whole history of the leader.\<close>

lemma order_loop_history:
  assumes wf: "dag_wf dk (dag st)" and inj: "inj_on (cert_digest dk) (dag_certs (dag st))"
  shows "set (order_loop st [ldr] {} []) = history st ldr"
proof -
  obtain rest where rest: "mset (order_loop st [ldr] {} []) = mset (ldr # rest)"
    "\<forall>y \<in> set rest. (parent_edge st)\<^sup>+\<^sup>+ ldr y"
    "\<forall>x \<in> set (ldr # rest). \<forall>y. parent_edge st x y \<longrightarrow> cert_digest dk y \<in> cert_digest dk ` set rest"
    by (rule order_loop_result [OF wf])
  have "z \<in> set (ldr # rest)" if "(parent_edge st)\<^sup>*\<^sup>* ldr z" for z
    using that
  proof induction
    case base
    then show ?case by simp
  next
    case (step y z)
    then have "cert_digest dk z \<in> cert_digest dk ` set rest" using rest(3) by blast
    then obtain z' where z': "z' \<in> set rest" "cert_digest dk z = cert_digest dk z'" by blast
    have "z \<in> dag_certs (dag st)" by (rule parent_edgeD(2) [OF wf step.hyps(2)])
    moreover have "z' \<in> dag_certs (dag st)" using rest(2) z'(1) by (intro reached_certs(1) [OF wf]) auto
    ultimately have "z = z'" using inj z'(2) by (auto dest: inj_onD)
    then show ?case using z'(1) by simp
  qed
  then have "set (ldr # rest) = history st ldr"
    using rest(2) by (auto simp: history_def)
  then show ?thesis using mset_eq_setD [OF rest(1)] by simp
qed

lemma order_dag_set:
  assumes "dag_wf dk (dag st)" and "inj_on (cert_digest dk) (dag_certs (dag st))"
  shows "set (order_dag co ldr st) =
     {x \<in> history st ldr. last_committed_round st \<le> cert_round x + co_gc_depth co}"
  using order_loop_history [OF assms] by (auto simp: order_dag_def Let_def)

end
