(* ===== verification/ConsensusPaths.thy ===== *)
theory ConsensusPaths
  imports ConsensusOrder
begin

text \<open>
  Paths between leaders. A certificate with a quorum of parents in the DAG has a path to every
  leader that is supported by a validity threshold of the next round, so the walk over the past
  leaders picks such a leader up, whichever replica saw the support.
\<close>

section \<open>Parents and supporters\<close>

definition cites :: "certificate \<Rightarrow> digest \<Rightarrow> bool" where
  "cites x h \<longleftrightarrow> h \<in> set (h_parents (c_header x))"

text \<open>The committee members whose certificates of the previous round are parents of \<open>x\<close>.\<close>

definition parent_authors :: "committee \<Rightarrow> dag \<Rightarrow> certificate \<Rightarrow> public_key set" where
  "parent_authors c d x =
     {n \<in> set (names c). \<exists>h y. dag_get d (cert_round x - 1) n = Some (h, y) \<and> cites x h}"

definition has_quorum_parents :: "committee \<Rightarrow> dag \<Rightarrow> certificate \<Rightarrow> bool" where
  "has_quorum_parents c d x \<longleftrightarrow>
     unat (quorum_threshold c) \<le> sum (stake_nat c) (parent_authors c d x)"

text \<open>The committee members whose certificates of a round have the digest as a parent.\<close>

definition supporters :: "committee \<Rightarrow> dag \<Rightarrow> round \<Rightarrow> digest \<Rightarrow> public_key set" where
  "supporters c d r h =
     {n \<in> set (names c). \<exists>h' y. dag_get d r n = Some (h', y) \<and> cites y h}"

lemma quorum_parent_exists:
  assumes "committee_ok c" and "has_quorum_parents c d x"
  obtains n h y where "n \<in> set (names c)" "dag_get d (cert_round x - 1) n = Some (h, y)" "cites x h"
proof -
  have "parent_authors c d x \<noteq> {}"
    using assms unat_quorum_threshold by (force simp: has_quorum_parents_def)
  then show thesis using that by (auto simp: parent_authors_def)
qed

lemma quorum_parent_supports:
  assumes "committee_ok c" and "has_quorum_parents c d x"
    and "S \<subseteq> set (names c)" and "unat (validity_threshold c) \<le> sum (stake_nat c) S"
  obtains n h y where "n \<in> S" "dag_get d (cert_round x - 1) n = Some (h, y)" "cites x h"
proof -
  have "parent_authors c d x \<inter> S \<noteq> {}"
    by (rule committee.quorum_meets_validity [OF assms(1)])
      (use assms in \<open>auto simp: parent_authors_def has_quorum_parents_def\<close>)
  then show thesis using that by (auto simp: parent_authors_def)
qed

section \<open>Walking back\<close>

lemma dag_get_row:
  assumes "dag_get d r n = Some (h, y)"
  obtains row where "map_of d r = Some row" and "(n, h, y) \<in> set row"
  using assms by (auto simp: dag_get_def dag_row_def split: option.splits dest: map_of_SomeD)

text \<open>A step of the walk keeps every cited certificate.\<close>

lemma walk_back_step:
  assumes "x \<in> set ps" and "dag_get d r n = Some (h, y)" and "cites x h"
  obtains ps' where "y \<in> set ps'" and "walk_back d (r # rs) ps = walk_back d rs ps'"
proof -
  obtain row where row: "map_of d r = Some row" "(n, h, y) \<in> set row"
    by (rule dag_get_row [OF assms(2)])
  let ?kept = "filter (\<lambda>(h, _). \<exists>x \<in> set ps. h \<in> set (h_parents (c_header x))) (map snd row)"
  have "(h, y) \<in> set (map snd row)" using row(2) by force
  then have "(h, y) \<in> set ?kept" using assms(1,3) by (auto simp: cites_def)
  then have "y \<in> set (map snd ?kept)" by force
  then show thesis by (rule that) (simp add: row(1))
qed

lemma rev_upt_Cons: "m < b \<Longrightarrow> rev [m..<b] = (b - 1) # rev [m..<b - 1]"
  by (metis One_nat_def Suc_pred less_imp_Suc_add rev.simps(2) rev_append rev_singleton_conv
      append_Cons append_Nil less_Suc_eq_le upt_Suc diff_Suc_1 zero_less_Suc)

text \<open>
  From a certificate two or more rounds above a leader, with quorum parents all the way down, the
  walk arrives at the leader when a validity threshold of the round in between supports it.
\<close>

lemma walk_to_supported:
  assumes ok: "committee_ok c" and wf: "dag_wf dk d"
    and L: "dag_get d r k = Some (hL, L)"
    and S: "S \<subseteq> set (names c)" "unat (validity_threshold c) \<le> sum (stake_nat c) S"
      "\<forall>n \<in> S. \<forall>h y. dag_get d (r + 1) n = Some (h, y) \<longrightarrow> cites y hL"
    and deep: "\<forall>x \<in> dag_certs d. unat r + 2 \<le> unat (cert_round x) \<longrightarrow> has_quorum_parents c d x"
    and x: "x \<in> set ps" "has_quorum_parents c d x" "unat (cert_round x) = b" "unat r + 2 \<le> b"
  shows "\<exists>ps'. walk_back d (map word_of_nat (rev [unat r..<b])) ps = Ok ps' \<and> L \<in> set ps'"
  using x
proof (induction b arbitrary: x ps rule: less_induct)
  case (less b)
  have prev: "word_of_nat (b - 1) = cert_round x - 1"
  proof -
    have "cert_round x \<noteq> 0" using less.prems(3,4) by auto
    then have "unat (cert_round x - 1) = b - 1" using less.prems(3) by (simp add: unat_minus_one)
    then show ?thesis using word_of_nat_unat [of "cert_round x - 1"] by simp
  qed
  have rounds: "map word_of_nat (rev [unat r..<b]) =
      (cert_round x - 1) # map word_of_nat (rev [unat r..<b - 1])"
    using less.prems(4) rev_upt_Cons [of "unat r" b] prev by simp
  show ?case
  proof (cases "b = unat r + 2")
    case True
    have mid: "cert_round x - 1 = r + 1"
    proof -
      have "cert_round x - 1 = word_of_nat (Suc (unat r))" using prev True by simp
      then show ?thesis by (simp add: add.commute)
    qed
    obtain n h y where y: "n \<in> S" "dag_get d (r + 1) n = Some (h, y)" "cites x h"
      using quorum_parent_supports [OF ok less.prems(2) S(1,2)] mid by metis
    obtain ps1 where ps1: "y \<in> set ps1"
      "walk_back d ((r + 1) # map word_of_nat (rev [unat r..<b - 1])) ps =
       walk_back d (map word_of_nat (rev [unat r..<b - 1])) ps1"
      by (rule walk_back_step [OF less.prems(1) y(2,3)])
    have last: "map word_of_nat (rev [unat r..<b - 1]) = [r]"
      using True by (simp add: rev_upt_Cons)
    have "cites y hL" using S(3) y(1,2) by blast
    then obtain ps2 where ps2: "L \<in> set ps2" "walk_back d [r] ps1 = walk_back d [] ps2"
      by (rule walk_back_step [OF ps1(1) L])
    have "walk_back d (map word_of_nat (rev [unat r..<b])) ps = Ok ps2"
      unfolding rounds mid last ps1(2) [unfolded last] ps2(2) by simp
    then show ?thesis using ps2(1) by blast
  next
    case False
    obtain n h y where y: "dag_get d (cert_round x - 1) n = Some (h, y)" "cites x h"
      by (rule quorum_parent_exists [OF ok less.prems(2)])
    obtain ps1 where ps1: "y \<in> set ps1"
      "walk_back d ((cert_round x - 1) # map word_of_nat (rev [unat r..<b - 1])) ps =
       walk_back d (map word_of_nat (rev [unat r..<b - 1])) ps1"
      by (rule walk_back_step [OF less.prems(1) y])
    have "cert_round y = cert_round x - 1" by (rule dag_get_wf(1) [OF wf y(1)])
    then have by1: "unat (cert_round y) = b - 1"
      using less.prems(3,4) by (simp add: unat_minus_one word_gt_0 flip: unat_gt_0)
    have "y \<in> dag_certs d" using y(1) by (auto simp: dag_certs_def)
    then have "has_quorum_parents c d y" using deep by1 less.prems(4) False by auto
    then have "\<exists>ps'. walk_back d (map word_of_nat (rev [unat r..<b - 1])) ps1 = Ok ps' \<and> L \<in> set ps'"
      using less.prems(4) False by (intro less.IH [OF _ ps1(1) _ by1]) auto
    then show ?thesis unfolding rounds ps1(2) .
  qed
qed

lemma linked_to_supported:
  assumes "committee_ok c" and "dag_wf dk d"
    and "dag_get d r k = Some (hL, L)"
    and "S \<subseteq> set (names c)" "unat (validity_threshold c) \<le> sum (stake_nat c) S"
      "\<forall>n \<in> S. \<forall>h y. dag_get d (r + 1) n = Some (h, y) \<longrightarrow> cites y hL"
    and "\<forall>x \<in> dag_certs d. unat r + 2 \<le> unat (cert_round x) \<longrightarrow> has_quorum_parents c d x"
    and "has_quorum_parents c d ldr" "unat r + 2 \<le> unat (cert_round ldr)"
  shows "linked ldr L d = Ok True"
proof -
  have "cert_round L = r" by (rule dag_get_wf(1) [OF assms(2,3)])
  then have "rev (u64_range (cert_round L) (cert_round ldr)) =
      map word_of_nat (rev [unat r..<unat (cert_round ldr)])"
    by (simp add: u64_range_def rev_map)
  moreover obtain ps' where "walk_back d (map word_of_nat (rev [unat r..<unat (cert_round ldr)])) [ldr] = Ok ps'"
    "L \<in> set ps'"
    using walk_to_supported [OF assms(1-7), of ldr "[ldr]"] assms(8,9) by auto
  moreover have "cert_eq L L" by (simp add: cert_eq_def)
  ultimately show ?thesis unfolding linked_def by auto
qed

section \<open>The walk over past leaders\<close>

lemma past_leaders_keep:
  "past_leaders co d rs ldr acc = Ok ls \<Longrightarrow> set acc \<subseteq> set ls"
proof (induction co d rs ldr acc arbitrary: ls rule: past_leaders.induct)
  case (1 co d ldr to_commit)
  then show ?case by simp
next
  case (2 co d r rs ldr to_commit)
  then show ?case by (fastforce simp: and_then_Ok_iff split: option.splits if_splits)
qed

text \<open>
  Whatever leaders the walk takes before, it reaches the supported leader of round \<open>r\<close> from one that
  is linked to it.
\<close>

lemma past_leaders_supported:
  assumes "past_leaders co d rs ldr acc = Ok ls"
    and "leader co r d = Ok (Some (hL, L))" and "r \<in> set rs"
    and "\<And>x. x = ldr \<or> x \<in> dag_certs d \<Longrightarrow> unat r + 2 \<le> unat (cert_round x) \<Longrightarrow> linked x L d = Ok True"
    and "\<forall>r' \<in> set (takeWhile (\<lambda>r'. r' \<noteq> r) rs). unat r + 2 \<le> unat r'"
    and "unat r + 2 \<le> unat (cert_round ldr)" and "dag_wf dk d"
  shows "L \<in> set ls"
  using assms
proof (induction rs arbitrary: ldr acc)
  case Nil
  then show ?case by simp
next
  case (Cons r' rs)
  show ?case
  proof (cases "r' = r")
    case True
    have "linked ldr L d = Ok True" using Cons.prems(4,6) by blast
    then have "past_leaders co d rs L (acc @ [L]) = Ok ls"
      using Cons.prems(1,2) True by simp
    then show ?thesis using past_leaders_keep by force
  next
    case False
    then have rs: "r \<in> set rs" "\<forall>r' \<in> set (takeWhile (\<lambda>r'. r' \<noteq> r) rs). unat r + 2 \<le> unat r'"
      and r': "unat r + 2 \<le> unat r'"
      using Cons.prems(3,5) by auto
    obtain found where found: "leader co r' d = Ok found"
      using Cons.prems(1) by (auto simp: and_then_Ok_iff)
    show ?thesis
    proof (cases found)
      case None
      then have "past_leaders co d rs ldr acc = Ok ls" using Cons.prems(1) found by simp
      then show ?thesis
        by (rule Cons.IH) (fact Cons.prems(2) rs Cons.prems(4,6,7))+
    next
      case (Some hp)
      obtain h prev where hp: "hp = (h, prev)" by (cases hp)
      have get: "\<exists>n. dag_get d r' n = Some (h, prev)"
        using found Some hp by (auto simp: leader_def Let_def split: if_splits)
      then have prev: "prev \<in> dag_certs d" "cert_round prev = r'"
        using dag_get_wf(1) [OF Cons.prems(7)] by (auto simp: dag_certs_def)
      obtain path where path: "linked ldr prev d = Ok path"
        using Cons.prems(1) found Some hp by (auto simp: and_then_Ok_iff)
      show ?thesis
      proof (cases path)
        case True
        have "past_leaders co d rs prev (acc @ [prev]) = Ok ls"
          using Cons.prems(1) found Some hp path True by simp
        then show ?thesis
          by (rule Cons.IH) (use Cons.prems(2,4,7) rs r' prev in auto)
      next
        case False
        have "past_leaders co d rs ldr acc = Ok ls"
          using Cons.prems(1) found Some hp path False by simp
        then show ?thesis
          by (rule Cons.IH) (fact Cons.prems(2) rs Cons.prems(4,6,7))+
      qed
    qed
  qed
qed

text \<open>The rounds the walk visits: down by two from the last one.\<close>

lemma every_second_rev_upt:
  "m < n \<Longrightarrow> every_second (rev [m..<n]) = (n - 1) # every_second (rev [m..<n - 2])"
proof -
  assume "m < n"
  then consider "n = Suc m" | "Suc m < n" by linarith
  then show ?thesis
  proof cases
    case 1
    then show ?thesis by simp
  next
    case 2
    then have "rev [m..<n] = (n - 1) # (n - 2) # rev [m..<n - 2]"
      using rev_upt_Cons [of m n] rev_upt_Cons [of m "n - 1"] by (simp add: numeral_2_eq_2)
    then show ?thesis by simp
  qed
qed

lemma even_minus_two: "even (n :: nat) \<Longrightarrow> even (n - 2)"
proof -
  assume "even n"
  then obtain q where "n = 2 * q" by (rule evenE)
  then have "n - 2 = 2 * (q - 1)" by simp
  then show ?thesis by simp
qed

lemma every_second_visits:
  assumes "m \<le> j" "j < n" "even (n - 1 - j)"
  shows "j \<in> set (every_second (rev [m..<n])) \<and>
    (\<forall>i \<in> set (takeWhile (\<lambda>i. i \<noteq> j) (every_second (rev [m..<n]))). j + 2 \<le> i \<and> i < n)"
  using assms
proof (induction n rule: less_induct)
  case (less n)
  have unroll: "every_second (rev [m..<n]) = (n - 1) # every_second (rev [m..<n - 2])"
    using less.prems by (intro every_second_rev_upt) simp
  show ?case
  proof (cases "j = n - 1")
    case True
    then show ?thesis by (simp add: unroll)
  next
    case False
    then have j: "j + 2 \<le> n - 1"
    proof -
      obtain q where q: "n - 1 - j = 2 * q" using less.prems(3) by (auto simp: dvd_def)
      then have "q \<noteq> 0" using False less.prems(2) by auto
      with q show ?thesis by linarith
    qed
    then have "even (n - 2 - 1 - j)"
    proof -
      have "n - 2 - 1 - j = n - 1 - j - 2" by simp
      then show ?thesis using even_minus_two [OF less.prems(3)] by (simp only:)
    qed
    then have "j \<in> set (every_second (rev [m..<n - 2])) \<and>
        (\<forall>i \<in> set (takeWhile (\<lambda>i. i \<noteq> j) (every_second (rev [m..<n - 2]))). j + 2 \<le> i \<and> i < n - 2)"
      using j less.prems(1) by (intro less.IH) auto
    then show ?thesis using j by (fastforce simp: unroll)
  qed
qed

lemma every_second_map: "every_second (map f xs) = map f (every_second xs)"
  by (induction xs rule: every_second.induct) auto

lemma order_leaders_supported:
  assumes "order_leaders co ldr st = Ok ls"
    and "leader co r (dag st) = Ok (Some (hL, L))" and "dag_wf dk (dag st)"
    and lo: "unat (last_committed_round st) + 2 \<le> unat r"
    and hi: "unat r + 2 \<le> unat (cert_round ldr)" and par: "even (unat (cert_round ldr) - unat r)"
    and "\<And>x. x = ldr \<or> x \<in> dag_certs (dag st) \<Longrightarrow> unat r + 2 \<le> unat (cert_round x) \<Longrightarrow>
      linked x L (dag st) = Ok True"
  shows "L \<in> set ls"
proof -
  let ?m = "unat (last_committed_round st) + 2" and ?n = "unat (cert_round ldr) - 1"
  let ?ks = "every_second (rev [?m..<?n])"
  have r_max: "unat r < 2 ^ 64" and R_max: "unat (cert_round ldr) < 2 ^ 64"
    using unsigned_less [of r] unsigned_less [of "cert_round ldr"] by simp_all
  have m: "unat (last_committed_round st + 2) = ?m"
    using lo r_max by (simp add: unat_add_no_wrap)
  have n: "Suc (unat (cert_round ldr - 2)) = ?n"
    using hi by (subst unat_sub) (simp_all add: word_le_nat_alt)
  have "u64_range_incl (last_committed_round st + 2) (cert_round ldr - 2) = map word_of_nat [?m..<?n]"
    unfolding u64_range_incl_def m n ..
  then have rounds: "every_second (rev (u64_range_incl (last_committed_round st + 2) (cert_round ldr - 2))) =
      map word_of_nat ?ks"
    by (simp add: rev_map every_second_map)
  have "?n - 1 - unat r = unat (cert_round ldr) - unat r - 2" by simp
  then have par': "even (?n - 1 - unat r)" using even_minus_two [OF par] by (simp only:)
  have visits: "unat r \<in> set ?ks"
    "\<forall>i \<in> set (takeWhile (\<lambda>i. i \<noteq> unat r) ?ks). unat r + 2 \<le> i \<and> i < ?n"
    using every_second_visits [OF lo _ par'] hi by auto
  have ks: "\<forall>i \<in> set ?ks. i < 2 ^ 64"
  proof -
    have "set (every_second xs) \<subseteq> set xs" for xs :: "nat list"
      by (induction xs rule: every_second.induct) auto
    then have "set ?ks \<subseteq> set (rev [?m..<?n])" by blast
    then have "i < ?n" if "i \<in> set ?ks" for i using that by auto
    then show ?thesis using R_max by fastforce
  qed
  have "takeWhile (\<lambda>r'. r' \<noteq> r) (map word_of_nat ?ks) = map word_of_nat (takeWhile (\<lambda>i. i \<noteq> unat r) ?ks)"
  proof -
    have "takeWhile (\<lambda>i. word_of_nat i \<noteq> r) ?ks = takeWhile (\<lambda>i. i \<noteq> unat r) ?ks"
      using ks by (intro takeWhile_cong) (auto simp: word_unat_eq_iff)
    then show ?thesis by (simp add: takeWhile_map comp_def)
  qed
  then have early: "\<forall>r' \<in> set (takeWhile (\<lambda>r'. r' \<noteq> r) (map word_of_nat ?ks)). unat r + 2 \<le> unat r'"
    using visits(2) R_max by auto
  have "(word_of_nat (unat r) :: u64) \<in> word_of_nat ` set ?ks" using visits(1) by (rule imageI)
  then have "r \<in> set (map word_of_nat ?ks)" by (simp only: word_of_nat_unat set_map)
  moreover have "past_leaders co (dag st) (map word_of_nat ?ks) ldr [ldr] = Ok ls"
    using assms(1) by (simp add: order_leaders_def rounds)
  ultimately show ?thesis
    using assms(2,3,7) hi early by (intro past_leaders_supported [where rs = "map word_of_nat ?ks"]) auto
qed

text \<open>With every round of the walk present the code never runs into its \<open>expect\<close>.\<close>

lemma walk_back_total:
  "\<forall>r \<in> set rs. map_of d r \<noteq> None \<Longrightarrow> \<exists>ps'. walk_back d rs ps = Ok ps'"
  by (induction rs arbitrary: ps) auto

lemma linked_total:
  assumes "\<forall>r. cert_round prev \<le> r \<and> r < cert_round ldr \<longrightarrow> map_of d r \<noteq> None"
  shows "\<exists>b. linked ldr prev d = Ok b"
proof -
  have "\<exists>ps'. walk_back d (rev (u64_range (cert_round prev) (cert_round ldr))) [ldr] = Ok ps'"
    by (rule walk_back_total) (use assms in simp)
  then show ?thesis by (auto simp: linked_def)
qed

lemma past_leaders_total:
  assumes "dag_wf dk d" and "committee_size (co_committee co) \<noteq> 0"
    and "\<forall>r. lo \<le> r \<and> r < hi \<longrightarrow> map_of d r \<noteq> None"
    and "\<forall>r \<in> set rs. lo \<le> r \<and> r \<le> hi" and "cert_round ldr \<le> hi"
  shows "\<exists>ls. past_leaders co d rs ldr acc = Ok ls"
  using assms(4,5)
proof (induction rs arbitrary: ldr acc)
  case Nil
  then show ?case by simp
next
  case (Cons r rs)
  obtain found where found: "leader co r d = Ok found"
    "found = dag_get d r (sort (names (co_committee co)) ! unat (r mod committee_size (co_committee co)))"
    using assms(2) by (simp add: leader_def Let_def)
  show ?case
  proof (cases found)
    case None
    then show ?thesis using Cons found(1) by simp
  next
    case (Some hp)
    obtain h prev where hp: "hp = (h, prev)" by (cases hp)
    have prev: "cert_round prev = r" using dag_get_wf(1) [OF assms(1)] found(2) Some hp by metis
    have "\<exists>b. linked ldr prev d = Ok b"
    proof (rule linked_total, intro allI impI, elim conjE)
      fix r'
      assume "cert_round prev \<le> r'" "r' < cert_round ldr"
      moreover have "lo \<le> r" using Cons.prems(1) by simp
      ultimately have "lo \<le> r' \<and> r' < hi" using prev Cons.prems(2) by (meson order_trans less_le_trans)
      then show "map_of d r' \<noteq> None" using assms(3) by blast
    qed
    then obtain b where "linked ldr prev d = Ok b" by blast
    moreover have "cert_round prev \<le> hi" using prev Cons.prems by simp
    ultimately show ?thesis using Cons found(1) Some hp by (cases b) simp_all
  qed
qed

end
