(* ===== verification/Consensus.thy ===== *)
theory Consensus
  imports ConsensusPaths
begin

text \<open>
  The task of \<open>consensus/src/lib.rs\<close>: what it does with one certificate and with a sequence of
  them. The output of a step is the committed sequence that is sent to the primary and to the
  application, with the flag \<open>is_leader\<close> of every certificate; both channels are taken to be open.
\<close>

section \<open>The run loop\<close>

definition is_leader :: "consensus \<Rightarrow> certificate \<Rightarrow> consensus_state \<Rightarrow> (unit, bool) result" where
  "is_leader co x st =
     (if cert_round x mod 2 = 0 then
        and_then (leader co (cert_round x) (dag st)) (\<lambda>found.
          Ok (case found of None \<Rightarrow> False | Some (h, _) \<Rightarrow> h = cert_digest (co_crypto co) x))
      else Ok False)"

definition commit_one ::
  "consensus \<Rightarrow> certificate \<Rightarrow> consensus_state
   \<Rightarrow> (unit, consensus_state \<times> (certificate \<times> bool) list) result" where
  "commit_one co x st =
     and_then (is_leader co x st) (\<lambda>flag. Ok (update (co_gc_depth co) x st, [(x, flag)]))"

definition commit_leader ::
  "consensus \<Rightarrow> certificate \<Rightarrow> consensus_state
   \<Rightarrow> (unit, consensus_state \<times> (certificate \<times> bool) list) result" where
  "commit_leader co ldr st = each (commit_one co) (order_dag co ldr st) st"

definition support_stake ::
  "committee \<Rightarrow> (public_key \<times> digest \<times> certificate) list \<Rightarrow> digest \<Rightarrow> stake" where
  "support_stake c row leader_digest =
     sum_list (map (\<lambda>(_, _, x). stake_of c (cert_origin x))
       (filter (\<lambda>(_, _, x). leader_digest \<in> set (h_parents (c_header x))) row))"

text \<open>Committing the leader of round \<open>r - 2\<close>, which is above the last committed round.\<close>

definition commit_round ::
  "consensus \<Rightarrow> round \<Rightarrow> consensus_state
   \<Rightarrow> (unit, consensus_state \<times> (certificate \<times> bool) list) result" where
  "commit_round co r st =
     and_then (leader_selected co (r - 2)) (\<lambda>sel.
     if \<not> sel then Ok (st, [])
     else
       and_then (leader co (r - 2) (dag st)) (\<lambda>found.
       case found of
         None \<Rightarrow> Ok (st, [])
       | Some (leader_digest, ldr) \<Rightarrow>
           (case map_of (dag st) (r - 1) of
              None \<Rightarrow> Panicked
            | Some row \<Rightarrow>
                if support_stake (co_committee co) row leader_digest
                     < validity_threshold (co_committee co)
                then Ok (st, [])
                else and_then (order_leaders co ldr st)
                       (\<lambda>leaders_to_commit. each (commit_leader co) (rev leaders_to_commit) st))))"

definition try_commit ::
  "consensus \<Rightarrow> round \<Rightarrow> consensus_state
   \<Rightarrow> (unit, consensus_state \<times> (certificate \<times> bool) list) result" where
  "try_commit co rnd st =
     (let r = rnd - 1 in
      if r mod 2 \<noteq> 0 \<or> r < 4 then Ok (st, [])
      else let leader_round = r - 2 in
        if leader_round \<le> last_committed_round st then Ok (st, [])
        else commit_round co r st)"

definition consensus_step ::
  "consensus \<Rightarrow> certificate \<Rightarrow> consensus_state
   \<Rightarrow> (unit, consensus_state \<times> (certificate \<times> bool) list) result" where
  "consensus_step co x st =
     try_commit co (cert_round x) (st\<lparr>dag := dag_insert (co_crypto co) x (dag st)\<rparr>)"

definition consensus_run ::
  "consensus \<Rightarrow> certificate list
   \<Rightarrow> (unit, consensus_state \<times> (certificate \<times> bool) list) result" where
  "consensus_run co xs = each (consensus_step co) xs (state_new (co_crypto co) (co_genesis co))"

section \<open>Past leaders\<close>

lemma past_leaders_new:
  assumes "past_leaders co d rs ldr acc = Ok ls" and "dag_wf dk d"
    and "sorted_wrt (>) rs" and "\<forall>r \<in> set rs. r < cert_round ldr"
  shows "\<exists>new. ls = acc @ new \<and> sorted_wrt (\<lambda>x y. cert_round y < cert_round x) (ldr # new) \<and>
     (\<forall>y \<in> set new. y \<in> dag_certs d \<and> cert_round y \<in> set rs)"
  using assms(1,3,4)
proof (induction rs arbitrary: ldr acc)
  case Nil
  then show ?case by simp
next
  case (Cons r rs)
  obtain found where found: "leader co r d = Ok found"
    using Cons.prems(1) by (auto simp: and_then_Ok_iff)
  have rs: "sorted_wrt (>) rs" "\<forall>r \<in> set rs. r < cert_round ldr" using Cons.prems(2,3) by auto
  consider "past_leaders co d rs ldr acc = Ok ls"
    | h prev where "found = Some (h, prev)" "past_leaders co d rs prev (acc @ [prev]) = Ok ls"
    using Cons.prems(1) found by (auto simp: and_then_Ok_iff split: option.splits if_splits)
  then show ?case
  proof cases
    case 1
    from Cons.IH [OF this rs] show ?thesis by auto
  next
    case 2
    then obtain n where "dag_get d r n = Some (h, prev)"
      using found by (auto simp: leader_def Let_def split: if_splits)
    then have prev: "prev \<in> dag_certs d" "cert_round prev = r"
      using dag_get_wf(1) [OF assms(2)] by (auto simp: dag_certs_def)
    have "\<forall>r \<in> set rs. r < cert_round prev" using Cons.prems(2) prev by auto
    from Cons.IH [OF 2(2) rs(1) this] obtain new where
      "ls = (acc @ [prev]) @ new" "sorted_wrt (\<lambda>x y. cert_round y < cert_round x) (prev # new)"
      "\<forall>y \<in> set new. y \<in> dag_certs d \<and> cert_round y \<in> set rs" by blast
    then show ?thesis
      using prev Cons.prems(3) rs(2) by (intro exI [of _ "prev # new"]) auto
  qed
qed

lemma u64_range_incl_sorted: "sorted_wrt (<) (u64_range_incl a b)"
proof -
  have "unat b < 2 ^ 64" using unsigned_less [of b] by simp
  then have "\<forall>i \<in> set [unat a..<Suc (unat b)]. unat (word_of_nat i :: u64) = i" by auto
  then have "sorted_wrt (\<lambda>i j. (word_of_nat i :: u64) < word_of_nat j) [unat a..<Suc (unat b)]"
    by (intro sorted_wrt_mono_rel [OF _ sorted_wrt_upt]) (simp add: word_less_nat_alt del: upt_Suc)
  then show ?thesis by (simp add: u64_range_incl_def sorted_wrt_map del: upt_Suc)
qed

lemma set_every_second: "set (every_second xs) \<subseteq> set xs"
  by (induction xs rule: every_second.induct) auto

lemma sorted_every_second: "sorted_wrt P xs \<Longrightarrow> sorted_wrt P (every_second xs)"
proof (induction xs rule: every_second.induct)
  case (3 x y xs)
  then show ?case using set_every_second [of xs] by auto
qed simp_all

text \<open>
  The leaders to commit, oldest first: their rounds increase, and the ones before the newest are
  above the last committed round.
\<close>

lemma order_leaders_rounds:
  assumes "order_leaders co ldr st = Ok ls" and "dag_wf dk (dag st)"
    and "unat (last_committed_round st) + 2 < 2 ^ 64" and "last_committed_round st < cert_round ldr"
    and "2 \<le> cert_round ldr"
  shows "sorted_wrt (\<lambda>x y. cert_round x < cert_round y) (rev ls) \<and> last (rev ls) = ldr \<and> ls \<noteq> [] \<and>
     (\<forall>x \<in> set ls. last_committed_round st < cert_round x \<and> (x = ldr \<or> x \<in> dag_certs (dag st)))"
proof -
  let ?rs = "every_second (rev (u64_range_incl (last_committed_round st + 2) (cert_round ldr - 2)))"
  have "sorted_wrt (>) ?rs"
    by (intro sorted_every_second) (simp add: sorted_wrt_rev u64_range_incl_sorted)
  moreover have rs: "last_committed_round st < r \<and> r < cert_round ldr" if "r \<in> set ?rs" for r
  proof -
    have "last_committed_round st + 2 \<le> r" "r \<le> cert_round ldr - 2"
      using that set_every_second [of "rev (u64_range_incl (last_committed_round st + 2) (cert_round ldr - 2))"]
      by auto
    moreover have "unat (last_committed_round st + 2) = unat (last_committed_round st) + 2"
      using assms(3) by (simp add: unat_add_no_wrap)
    moreover have "unat (cert_round ldr - 2) = unat (cert_round ldr) - 2"
      using assms(5) by (simp add: unat_sub)
    moreover have "2 \<le> unat (cert_round ldr)" using assms(5) by (simp add: word_le_nat_alt)
    ultimately show ?thesis unfolding word_le_nat_alt word_less_nat_alt by linarith
  qed
  ultimately obtain new where new: "ls = [ldr] @ new"
    "sorted_wrt (\<lambda>x y. cert_round y < cert_round x) (ldr # new)"
    "\<forall>y \<in> set new. y \<in> dag_certs (dag st) \<and> cert_round y \<in> set ?rs"
    using past_leaders_new [OF assms(1) [unfolded order_leaders_def] assms(2)] by auto
  moreover have "sorted_wrt (\<lambda>x y. cert_round x < cert_round y) (rev ls)"
    unfolding sorted_wrt_rev using new(1,2) by simp
  ultimately show ?thesis using rs assms(4) by auto
qed

section \<open>What has been committed\<close>

text \<open>
  The invariant of a run: \<open>D\<close> holds the slots delivered so far and \<open>out\<close> the certificates committed
  so far. A certificate of the DAG whose slot was committed sits exactly at the last committed round
  of its author, where the search skips it. The genesis slots count as committed.
\<close>

definition genesis_slots :: "consensus \<Rightarrow> (public_key \<times> round) set" where
  "genesis_slots co = slot ` set (co_genesis co)"

definition settled :: "consensus \<Rightarrow> certificate list \<Rightarrow> (public_key \<times> round) set" where
  "settled co out = genesis_slots co \<union> slot ` set out"

definition commit_inv ::
  "consensus \<Rightarrow> (public_key \<times> round) set \<Rightarrow> consensus_state \<Rightarrow> certificate list \<Rightarrow> bool" where
  "commit_inv co D st out \<longleftrightarrow>
     state_wf (co_crypto co) st \<and> unat (last_committed_round st) < 2 ^ 63 \<and>
     (\<forall>x \<in> dag_certs (dag st). unat (cert_round x) < 2 ^ 63 \<and> slot x \<in> D \<union> genesis_slots co) \<and>
     (\<forall>x \<in> dag_certs (dag st). slot x \<in> settled co out \<longrightarrow> committed_at st x) \<and>
     (\<forall>(n, q) \<in> settled co out. \<exists>r. map_of (last_committed st) n = Some r \<and> q \<le> r) \<and>
     distinct (map slot out) \<and> slot ` set out \<subseteq> D"

lemma commit_invD:
  assumes "commit_inv co D st out"
  shows "x \<in> dag_certs (dag st) \<Longrightarrow> unat (cert_round x) < 2 ^ 63"
    and "x \<in> dag_certs (dag st) \<Longrightarrow> slot x \<in> D \<union> genesis_slots co"
    and "x \<in> dag_certs (dag st) \<Longrightarrow> slot x \<in> settled co out \<Longrightarrow> committed_at st x"
    and "(n, q) \<in> settled co out \<Longrightarrow> \<exists>r. map_of (last_committed st) n = Some r \<and> q \<le> r"
    and "slot ` set out \<subseteq> D" and "distinct (map slot out)"
    and "unat (last_committed_round st) < 2 ^ 63"
  using assms unfolding commit_inv_def by blast+

lemma commit_inv_wf:
  assumes "commit_inv co D st out"
  shows "state_wf (co_crypto co) st" and "dag_wf (co_crypto co) (dag st)" and "last_round_free (dag st)"
proof -
  show wf: "state_wf (co_crypto co) st" using assms by (simp add: commit_inv_def)
  then show "dag_wf (co_crypto co) (dag st)" by (simp add: state_wf_def)
  have "cert_round x \<noteq> - 1" if "x \<in> dag_certs (dag st)" for x
  proof
    assume "cert_round x = - 1"
    moreover have "unat (cert_round x) < 2 ^ 63" using assms that by (simp add: commit_inv_def)
    ultimately show False by (simp add: unsigned_minus_1_eq_mask mask_eq_exp_minus_1)
  qed
  then show "last_round_free (dag st)" by (simp add: last_round_free_def)
qed

lemma committed_at_iff: "committed_at st y \<longleftrightarrow> map_of (last_committed st) (cert_origin y) = Some (cert_round y)"
  by (auto simp: committed_at_def split: option.split)

lemma dag_certs_update:
  assumes "state_wf dk st" and "y \<in> dag_certs (dag (update depth x st))"
  shows "y \<in> dag_certs (dag st)"
    and "map_of (last_committed (update depth x st)) (cert_origin y) = Some q \<Longrightarrow> q \<le> cert_round y"
proof -
  obtain r n h where y: "dag_get (dag (update depth x st)) r n = Some (h, y)"
    using assms(2) by (auto simp: dag_certs_def)
  then have y0: "dag_get (dag st) r n = Some (h, y)"
    unfolding dag_get_update [OF assms(1)] by (simp split: if_splits)
  then show "y \<in> dag_certs (dag st)" by (auto simp: dag_certs_def)
  have "dag_wf dk (dag st)" using assms(1) by (simp add: state_wf_def)
  note rn = dag_get_wf(1,2) [OF this y0]
  assume "map_of (last_committed (update depth x st)) (cert_origin y) = Some q"
  then show "q \<le> cert_round y"
    using y rn unfolding dag_get_update [OF assms(1)] by (auto split: if_splits simp: not_less)
qed

text \<open>Committing a certificate whose slot is not settled keeps the invariant.\<close>

lemma commit_inv_update:
  assumes inv: "commit_inv co D st out" and new: "slot x \<notin> settled co out" "slot x \<in> D"
    and small: "unat (cert_round x) < 2 ^ 63"
  shows "commit_inv co D (update depth x st) (out @ [x])"
proof -
  let ?st = "update depth x st" and ?lc = "last_committed (update depth x st)"
  note wf = commit_inv_wf(1) [OF inv]
  have up: "\<exists>r'. map_of ?lc n = Some r' \<and> r \<le> r'" if "map_of (last_committed st) n = Some r" for n r
    using that by (auto simp: raise_committed_lookup)
  have at_x: "\<exists>r. map_of ?lc (cert_origin x) = Some r \<and> cert_round x \<le> r"
    by (auto simp: raise_committed_lookup split: option.split)
  have settled': "settled co (out @ [x]) = insert (slot x) (settled co out)"
    by (auto simp: settled_def)
  have lookup: "\<exists>r. map_of ?lc n = Some r \<and> q \<le> r" if s: "(n, q) \<in> settled co (out @ [x])" for n q
  proof (cases "(n, q) = slot x")
    case True
    then show ?thesis using at_x by (auto simp: slot_def)
  next
    case False
    then obtain r where "map_of (last_committed st) n = Some r" "q \<le> r"
      using commit_invD(4) [OF inv, of n q] s settled' by auto
    then show ?thesis using up by (meson order_trans)
  qed
  have "committed_at ?st y" if y: "y \<in> dag_certs (dag ?st)" "slot y \<in> settled co (out @ [x])" for y
  proof -
    obtain r where r: "map_of ?lc (cert_origin y) = Some r" "cert_round y \<le> r"
      using lookup [of "cert_origin y" "cert_round y"] y(2) by (auto simp: slot_def)
    then have "r = cert_round y" using dag_certs_update(2) [OF wf y(1)] by (meson antisym)
    then show ?thesis using r(1) unfolding committed_at_iff by simp
  qed
  moreover have "unat (last_committed_round ?st) < 2 ^ 63"
    unfolding last_committed_round_update [OF wf] using inv small
    by (auto simp: commit_inv_def max_def)
  moreover have "distinct (map slot (out @ [x]))"
    using inv new(1) by (auto simp: commit_inv_def settled_def)
  moreover have "state_wf (co_crypto co) ?st" by (rule update_wf [OF wf])
  moreover have "\<forall>y \<in> dag_certs (dag ?st). unat (cert_round y) < 2 ^ 63 \<and> slot y \<in> D \<union> genesis_slots co"
    using inv dag_certs_update(1) [OF wf] unfolding commit_inv_def by blast
  moreover have "slot ` set (out @ [x]) \<subseteq> D" using inv new(2) by (auto simp: commit_inv_def)
  ultimately show ?thesis using lookup unfolding commit_inv_def by blast
qed

text \<open>Inserting a certificate of a new slot keeps the invariant.\<close>

lemma commit_inv_insert:
  assumes inv: "commit_inv co D st out" and new: "slot x \<notin> D" "slot x \<notin> genesis_slots co"
    and small: "unat (cert_round x) < 2 ^ 63"
  shows "commit_inv co (insert (slot x) D) (st\<lparr>dag := dag_insert (co_crypto co) x (dag st)\<rparr>) out"
proof -
  let ?d = "dag_insert (co_crypto co) x (dag st)"
  let ?st = "st\<lparr>dag := ?d\<rparr>"
  have certs: "y = x \<or> y \<in> dag_certs (dag st)" if "y \<in> dag_certs (dag ?st)" for y
    using that by (auto simp: dag_certs_def dag_get_insert split: if_splits)
  have "slot x \<notin> settled co out"
    using commit_invD(5) [OF inv] new by (auto simp: settled_def)
  then have "committed_at ?st y" if "y \<in> dag_certs (dag ?st)" "slot y \<in> settled co out" for y
    using certs [OF that(1)] that(2) commit_invD(3) [OF inv, of y] by (auto simp: committed_at_def)
  moreover have "unat (cert_round y) < 2 ^ 63 \<and> slot y \<in> insert (slot x) D \<union> genesis_slots co"
    if "y \<in> dag_certs (dag ?st)" for y
    using certs [OF that] small commit_invD(1,2) [OF inv, of y] by auto
  moreover have "state_wf (co_crypto co) ?st"
    by (rule insert_state_wf [OF commit_inv_wf(1) [OF inv]])
  moreover have "slot ` set out \<subseteq> insert (slot x) D" using commit_invD(5) [OF inv] by blast
  moreover have "(n, q) \<in> settled co out \<Longrightarrow> \<exists>r. map_of (last_committed ?st) n = Some r \<and> q \<le> r" for n q
    using commit_invD(4) [OF inv, of n q] by simp
  moreover have "unat (last_committed_round ?st) < 2 ^ 63" "distinct (map slot out)"
    using commit_invD(6,7) [OF inv] by simp_all
  ultimately show ?thesis unfolding commit_inv_def by blast
qed

lemma commit_one_Ok:
  assumes "commit_one co x st = Ok (st', out)"
  shows "st' = update (co_gc_depth co) x st" and "map fst out = [x]"
  using assms by (auto simp: commit_one_def and_then_Ok_iff)

text \<open>Committing a list of certificates with new, distinct slots.\<close>

lemma commit_inv_each:
  assumes "each (commit_one co) xs st = Ok (st', out)" and "commit_inv co D st acc"
    and "distinct (map slot xs)" and "slot ` set xs \<inter> settled co acc = {}" and "slot ` set xs \<subseteq> D"
    and "\<forall>x \<in> set xs. unat (cert_round x) < 2 ^ 63"
  shows "commit_inv co D st' (acc @ xs)" and "map fst out = xs"
    and "last_committed_round st \<le> b \<Longrightarrow> \<forall>x \<in> set xs. cert_round x \<le> b \<Longrightarrow> last_committed_round st' \<le> b"
    and "last_committed_round st \<le> last_committed_round st' \<and>
      (\<forall>x \<in> set xs. cert_round x \<le> last_committed_round st')"
proof -
  have "commit_inv co D st' (acc @ xs) \<and> map fst out = xs \<and>
      (last_committed_round st \<le> b \<and> (\<forall>x \<in> set xs. cert_round x \<le> b) \<longrightarrow> last_committed_round st' \<le> b) \<and>
      last_committed_round st \<le> last_committed_round st' \<and>
      (\<forall>x \<in> set xs. cert_round x \<le> last_committed_round st')"
    using assms
  proof (induction xs arbitrary: st acc out)
    case Nil
    then show ?case by simp
  next
    case (Cons x xs)
    obtain st1 out1 out2 where step: "commit_one co x st = Ok (st1, out1)"
      "each (commit_one co) xs st1 = Ok (st', out2)" "out = out1 @ out2"
      by (rule each_Cons_Ok [OF Cons.prems(1)])
    note one = commit_one_Ok [OF step(1)]
    have inv1: "commit_inv co D st1 (acc @ [x])"
      unfolding one(1) by (rule commit_inv_update [OF Cons.prems(2)]) (use Cons.prems in auto)
    have lcr1: "last_committed_round st1 = max (last_committed_round st) (cert_round x)"
      unfolding one(1) by (rule last_committed_round_update [OF commit_inv_wf(1) [OF Cons.prems(2)]])
    have "slot ` set xs \<inter> settled co (acc @ [x]) = {}"
      using Cons.prems(3,4) by (auto simp: settled_def)
    from Cons.IH [OF step(2) inv1 _ this] Cons.prems(3,5,6)
    have IH: "commit_inv co D st' ((acc @ [x]) @ xs)" "map fst out2 = xs"
      "last_committed_round st1 \<le> b \<and> (\<forall>x \<in> set xs. cert_round x \<le> b) \<longrightarrow> last_committed_round st' \<le> b"
      "last_committed_round st1 \<le> last_committed_round st'"
      "\<forall>x \<in> set xs. cert_round x \<le> last_committed_round st'"
      by auto
    have "last_committed_round st \<le> last_committed_round st'" "cert_round x \<le> last_committed_round st'"
      using IH(4) unfolding lcr1 by simp_all
    then show ?case using IH one(2) step(3) lcr1 by auto
  qed
  then show "commit_inv co D st' (acc @ xs)" and "map fst out = xs"
    and "last_committed_round st \<le> b \<Longrightarrow> \<forall>x \<in> set xs. cert_round x \<le> b \<Longrightarrow> last_committed_round st' \<le> b"
    and "last_committed_round st \<le> last_committed_round st' \<and>
      (\<forall>x \<in> set xs. cert_round x \<le> last_committed_round st')"
    by blast+
qed

text \<open>What the search returns for a leader above the last committed round.\<close>

lemma order_dag_fresh:
  assumes inv: "commit_inv co D st acc" and ldr: "last_committed_round st < cert_round ldr"
    "slot ldr \<in> D" "unat (cert_round ldr) < 2 ^ 63"
  shows "distinct (map slot (order_dag co ldr st))"
    and "slot ` set (order_dag co ldr st) \<inter> settled co acc = {}"
    and "slot ` set (order_dag co ldr st) \<subseteq> D"
    and "x \<in> set (order_dag co ldr st) \<Longrightarrow> unat (cert_round x) < 2 ^ 63 \<and> cert_round x \<le> cert_round ldr"
proof -
  note wf = commit_inv_wf [OF inv]
  show "distinct (map slot (order_dag co ldr st))" by (rule order_dag_slots [OF wf(2,3)])
  have ldr_new: "slot ldr \<notin> settled co acc"
  proof
    assume "slot ldr \<in> settled co acc"
    then obtain r where "map_of (last_committed st) (cert_origin ldr) = Some r" "cert_round ldr \<le> r"
      using commit_invD(4) [OF inv, of "cert_origin ldr" "cert_round ldr"] by (auto simp: slot_def)
    then show False using last_committed_le_round [OF wf(1)] ldr(1) by (meson leD order_trans)
  qed
  have fresh: "slot x \<notin> settled co acc \<and> slot x \<in> D \<and> unat (cert_round x) < 2 ^ 63 \<and>
      cert_round x \<le> cert_round ldr" if x: "x \<in> set (order_dag co ldr st)" for x
  proof (cases "x = ldr")
    case True
    then show ?thesis using ldr ldr_new by simp
  next
    case False
    then have reach: "(parent_edge st)\<^sup>+\<^sup>+ ldr x" using order_dag_subset [OF wf(2) x] by blast
    note certs = reached_certs [OF wf(2) reach]
    have "slot x \<notin> settled co acc" using commit_invD(3) [OF inv certs(1)] certs(2) by blast
    moreover from this have "slot x \<in> D"
      using commit_invD(2) [OF inv certs(1)] by (auto simp: settled_def)
    moreover have "cert_round x < cert_round ldr" by (rule reached_round [OF wf(2,3) reach])
    ultimately show ?thesis using commit_invD(1) [OF inv certs(1)] by simp
  qed
  then show "slot ` set (order_dag co ldr st) \<inter> settled co acc = {}"
    and "slot ` set (order_dag co ldr st) \<subseteq> D"
    and "x \<in> set (order_dag co ldr st) \<Longrightarrow> unat (cert_round x) < 2 ^ 63 \<and> cert_round x \<le> cert_round ldr"
    by blast+
qed

text \<open>The leader itself is always kept, so committing its history ends at its round.\<close>

lemma leader_in_order_dag:
  assumes "dag_wf dk (dag st)" and "last_committed_round st < cert_round ldr"
    and "unat (cert_round ldr) + unat (co_gc_depth co) < 2 ^ 64"
  shows "ldr \<in> set (order_dag co ldr st)"
proof -
  obtain rest where "mset (order_loop st [ldr] {} []) = mset (ldr # rest)"
    by (rule order_loop_result [OF assms(1)])
  then have "ldr \<in> set (order_loop st [ldr] {} [])"
    using mset_eq_setD by fastforce
  moreover have "unat (cert_round ldr + co_gc_depth co) = unat (cert_round ldr) + unat (co_gc_depth co)"
    by (rule unat_add_no_wrap) (use assms(3) in simp)
  then have "last_committed_round st \<le> cert_round ldr + co_gc_depth co"
    using assms(2) by (simp add: word_le_nat_alt word_less_nat_alt)
  ultimately show ?thesis by (simp add: order_dag_def Let_def)
qed

lemma commit_inv_leaders:
  assumes "each (commit_leader co) ls st = Ok (st', out)" and "commit_inv co D st acc"
    and "sorted_wrt (\<lambda>x y. cert_round x < cert_round y) ls"
    and "\<forall>l \<in> set ls. last_committed_round st < cert_round l \<and> slot l \<in> D \<and> unat (cert_round l) < 2 ^ 63"
  shows "commit_inv co D st' (acc @ map fst out)"
    and "unat (co_gc_depth co) < 2 ^ 63 \<Longrightarrow>
      set ls \<subseteq> fst ` set out \<and> (ls \<noteq> [] \<longrightarrow> last_committed_round st' = cert_round (last ls))"
proof -
  have "commit_inv co D st' (acc @ map fst out) \<and> (unat (co_gc_depth co) < 2 ^ 63 \<longrightarrow>
      set ls \<subseteq> fst ` set out \<and> (ls \<noteq> [] \<longrightarrow> last_committed_round st' = cert_round (last ls)))"
    using assms
  proof (induction ls arbitrary: st acc out)
    case Nil
    then show ?case by simp
  next
    case (Cons l ls)
    obtain st1 out1 out2 where step: "commit_leader co l st = Ok (st1, out1)"
      "each (commit_leader co) ls st1 = Ok (st', out2)" "out = out1 @ out2"
      by (rule each_Cons_Ok [OF Cons.prems(1)])
    have l: "last_committed_round st < cert_round l" "slot l \<in> D" "unat (cert_round l) < 2 ^ 63"
      using Cons.prems(4) by simp_all
    note fresh = order_dag_fresh [OF Cons.prems(2) l]
    have small: "\<forall>x \<in> set (order_dag co l st). unat (cert_round x) < 2 ^ 63"
      and below: "\<forall>x \<in> set (order_dag co l st). cert_round x \<le> cert_round l"
      using fresh(4) by blast+
    note each = commit_inv_each [OF step(1) [unfolded commit_leader_def] Cons.prems(2) fresh(1-3) small]
    have le: "last_committed_round st1 \<le> cert_round l" by (rule each(3) [OF less_imp_le [OF l(1)] below])
    then have above: "\<forall>l' \<in> set ls. last_committed_round st1 < cert_round l'"
      using Cons.prems(3) by (auto intro: le_less_trans)
    have "commit_inv co D st' ((acc @ order_dag co l st) @ map fst out2) \<and>
        (unat (co_gc_depth co) < 2 ^ 63 \<longrightarrow>
           set ls \<subseteq> fst ` set out2 \<and> (ls \<noteq> [] \<longrightarrow> last_committed_round st' = cert_round (last ls)))"
      using Cons.prems(3,4) above by (intro Cons.IH [OF step(2) each(1)]) auto
    moreover have "l \<in> fst ` set out1 \<and> last_committed_round st1 = cert_round l"
      if "unat (co_gc_depth co) < 2 ^ 63"
    proof -
      have "l \<in> set (order_dag co l st)"
        by (rule leader_in_order_dag [OF commit_inv_wf(2) [OF Cons.prems(2)] l(1)]) (use that l(3) in simp)
      moreover from this have "l \<in> set (map fst out1)" by (simp only: each(2))
      ultimately show ?thesis using each(4) le by (auto intro: antisym)
    qed
    moreover have "st' = st1" if "ls = []" using step(2) that by simp
    ultimately show ?case using each(2) step(3) by (auto simp: image_Un)
  qed
  then show "commit_inv co D st' (acc @ map fst out)"
    and "unat (co_gc_depth co) < 2 ^ 63 \<Longrightarrow>
      set ls \<subseteq> fst ` set out \<and> (ls \<noteq> [] \<longrightarrow> last_committed_round st' = cert_round (last ls))"
    by blast+
qed

text \<open>Committing leaders of a committee that is not empty cannot fail.\<close>

lemma each_total:
  assumes "\<And>x s. x \<in> set xs \<Longrightarrow> \<exists>s' out. f x s = Ok (s', out)"
  shows "\<exists>s' out. each f xs s = Ok (s', out)"
  using assms
proof (induction xs arbitrary: s)
  case Nil
  then show ?case by simp
next
  case (Cons x xs)
  obtain s1 out1 where "f x s = Ok (s1, out1)" using Cons.prems by fastforce
  moreover obtain s2 out2 where "each f xs s1 = Ok (s2, out2)" using Cons by fastforce
  ultimately show ?case by simp
qed

lemma commit_leader_total:
  assumes "committee_size (co_committee co) \<noteq> 0"
  shows "\<exists>st' out. commit_leader co l st = Ok (st', out)"
  unfolding commit_leader_def
  by (rule each_total) (use assms in \<open>simp add: commit_one_def is_leader_def leader_def Let_def\<close>)

section \<open>A commit\<close>

text \<open>What has to hold for a step to change the state or to output anything.\<close>

definition commits ::
  "consensus \<Rightarrow> round \<Rightarrow> consensus_state \<Rightarrow> digest \<Rightarrow> certificate
   \<Rightarrow> (public_key \<times> digest \<times> certificate) list \<Rightarrow> certificate list \<Rightarrow> bool" where
  "commits co r st h ldr row ls \<longleftrightarrow>
     leader_selected co (r - 2) = Ok True \<and> leader co (r - 2) (dag st) = Ok (Some (h, ldr)) \<and>
     map_of (dag st) (r - 1) = Some row \<and>
     validity_threshold (co_committee co) \<le> support_stake (co_committee co) row h \<and>
     order_leaders co ldr st = Ok ls"

lemma commit_round_Ok:
  "commit_round co r st = Ok (st', out) \<longleftrightarrow>
     (\<exists>h ldr row ls. commits co r st h ldr row ls \<and> each (commit_leader co) (rev ls) st = Ok (st', out)) \<or>
     (st' = st \<and> out = [] \<and>
        (leader_selected co (r - 2) = Ok False \<or>
         leader_selected co (r - 2) = Ok True \<and>
           (leader co (r - 2) (dag st) = Ok None \<or>
            (\<exists>h ldr row. leader co (r - 2) (dag st) = Ok (Some (h, ldr)) \<and>
               map_of (dag st) (r - 1) = Some row \<and>
               support_stake (co_committee co) row h < validity_threshold (co_committee co)))))"
proof (cases "leader_selected co (r - 2)")
  case (Inl f)
  then show ?thesis by (simp add: commit_round_def commits_def)
next
  case (Inr sel)
  show ?thesis
  proof (cases "leader co (r - 2) (dag st)")
    case (Inl f)
    then show ?thesis using Inr by (cases sel) (auto simp: commit_round_def commits_def)
  next
    case found: (Inr found)
    show ?thesis
    proof (cases found)
      case None
      then show ?thesis using Inr found by (cases sel) (auto simp: commit_round_def commits_def)
    next
      case (Some hl)
      obtain h ldr where "hl = (h, ldr)" by (cases hl)
      then show ?thesis
        using Inr found Some
        by (cases sel; cases "map_of (dag st) (r - 1)"; cases "order_leaders co ldr st")
          (auto simp: commit_round_def commits_def not_less)
    qed
  qed
qed

lemma try_commit_Ok:
  assumes "try_commit co rnd st = Ok (st', out)" and "out \<noteq> [] \<or> st' \<noteq> st"
  obtains h ldr row ls where "(rnd - 1) mod 2 = 0" "4 \<le> rnd - 1" "last_committed_round st < rnd - 3"
    "commits co (rnd - 1) st h ldr row ls" "each (commit_leader co) (rev ls) st = Ok (st', out)"
proof -
  have r: "rnd - 1 - 2 = rnd - 3" by simp
  have guards: "(rnd - 1) mod 2 = 0" "4 \<le> rnd - 1" "last_committed_round st < rnd - 3"
    using assms by (auto simp: try_commit_def Let_def r not_less not_le split: if_splits)
  moreover have "commit_round co (rnd - 1) st = Ok (st', out)"
    using assms by (auto simp: try_commit_def Let_def split: if_splits)
  then obtain h ldr row ls where "commits co (rnd - 1) st h ldr row ls"
    "each (commit_leader co) (rev ls) st = Ok (st', out)"
    using assms(2) unfolding commit_round_Ok by blast
  ultimately show thesis by (rule that)
qed

lemma leader_in_dag:
  assumes "leader co r d = Ok (Some (h, ldr))" and "dag_wf dk d"
  shows "cert_round ldr = r" and "ldr \<in> dag_certs d" and "h = cert_digest dk ldr"
proof -
  obtain n where get: "dag_get d r n = Some (h, ldr)"
    using assms(1) by (auto simp: leader_def Let_def split: if_splits)
  then show "ldr \<in> dag_certs d" by (auto simp: dag_certs_def)
  show "cert_round ldr = r" and "h = cert_digest dk ldr"
    using dag_get_wf [OF assms(2) get] by simp_all
qed

lemma commit_rounds:
  fixes rnd :: round
  assumes "(rnd - 1) mod 2 = 0" and "4 \<le> rnd - 1"
  shows "5 \<le> unat rnd" and "unat (rnd - 1) = unat rnd - 1" and "unat (rnd - 2) = unat rnd - 2"
    and "unat (rnd - 3) = unat rnd - 3"
proof -
  have "rnd \<noteq> 0" using assms(1) by auto
  then show "unat (rnd - 1) = unat rnd - 1" by (simp add: unat_minus_one)
  moreover have "4 \<le> unat (rnd - 1)" using assms(2) by (simp add: word_le_nat_alt)
  ultimately show "5 \<le> unat rnd" by linarith
  then have "2 \<le> rnd" "3 \<le> rnd" by (simp_all add: word_le_nat_alt)
  then show "unat (rnd - 2) = unat rnd - 2" "unat (rnd - 3) = unat rnd - 3"
    by (simp_all add: unat_sub)
qed

text \<open>The leaders of a commit, oldest first, satisfy what \<open>commit_inv_leaders\<close> asks for.\<close>

lemma commit_leaders_ok:
  assumes inv: "commit_inv co D st acc" and gen: "\<forall>s \<in> genesis_slots co. snd s = 0"
    and c: "(rnd - 1) mod 2 = 0" "4 \<le> rnd - 1" "last_committed_round st < rnd - 3"
    and ldr: "leader co (rnd - 3) (dag st) = Ok (Some (h, ldr))" and ls: "order_leaders co ldr st = Ok ls"
  shows "sorted_wrt (\<lambda>x y. cert_round x < cert_round y) (rev ls)" and "last (rev ls) = ldr" and "ls \<noteq> []"
    and "\<forall>l \<in> set (rev ls). last_committed_round st < cert_round l \<and> slot l \<in> D \<and> unat (cert_round l) < 2 ^ 63"
proof -
  note wf = commit_inv_wf [OF inv]
  note ldr = leader_in_dag [OF ldr wf(2)]
  note rounds = commit_rounds [OF c(1,2)]
  have "2 \<le> cert_round ldr" using rounds ldr(1) by (simp add: word_le_nat_alt)
  then have ord: "sorted_wrt (\<lambda>x y. cert_round x < cert_round y) (rev ls) \<and> last (rev ls) = ldr \<and> ls \<noteq> [] \<and>
      (\<forall>l \<in> set ls. last_committed_round st < cert_round l \<and> (l = ldr \<or> l \<in> dag_certs (dag st)))"
    using commit_invD(7) [OF inv] c(3) ldr(1) by (intro order_leaders_rounds [OF ls wf(2)]) auto
  then show "sorted_wrt (\<lambda>x y. cert_round x < cert_round y) (rev ls)" "last (rev ls) = ldr" "ls \<noteq> []"
    by blast+
  have "slot l \<in> D \<and> unat (cert_round l) < 2 ^ 63 \<and> last_committed_round st < cert_round l" if "l \<in> set ls" for l
  proof -
    have l: "l \<in> dag_certs (dag st)" "last_committed_round st < cert_round l"
      using ord that ldr(2) by auto
    then have "cert_round l \<noteq> 0" by auto
    then have "slot l \<notin> genesis_slots co" using gen by (auto simp: slot_def)
    then show ?thesis using commit_invD(1,2) [OF inv l(1)] l(2) by auto
  qed
  then show "\<forall>l \<in> set (rev ls). last_committed_round st < cert_round l \<and> slot l \<in> D \<and> unat (cert_round l) < 2 ^ 63"
    by simp
qed

lemma commit_inv_step:
  assumes step: "consensus_step co x st = Ok (st', out)" and inv: "commit_inv co D st acc"
    and new: "slot x \<notin> D" "slot x \<notin> genesis_slots co" and small: "unat (cert_round x) < 2 ^ 63"
    and gen: "\<forall>s \<in> genesis_slots co. snd s = 0"
  shows "commit_inv co (insert (slot x) D) st' (acc @ map fst out)"
proof -
  let ?st = "st\<lparr>dag := dag_insert (co_crypto co) x (dag st)\<rparr>" and ?D = "insert (slot x) D"
  have inv': "commit_inv co ?D ?st acc" by (rule commit_inv_insert [OF inv new small])
  have tc: "try_commit co (cert_round x) ?st = Ok (st', out)"
    using step by (simp add: consensus_step_def)
  show ?thesis
  proof (cases "out \<noteq> [] \<or> st' \<noteq> ?st")
    case False
    then show ?thesis using inv' by simp
  next
    case True
    obtain h ldr row ls where c: "(cert_round x - 1) mod 2 = 0" "4 \<le> cert_round x - 1"
      "last_committed_round ?st < cert_round x - 3" "commits co (cert_round x - 1) ?st h ldr row ls"
      "each (commit_leader co) (rev ls) ?st = Ok (st', out)"
      by (rule try_commit_Ok [OF tc True])
    have ldr: "leader co (cert_round x - 3) (dag ?st) = Ok (Some (h, ldr))"
      and ls: "order_leaders co ldr ?st = Ok ls"
      using c(4) by (simp_all add: commits_def)
    note ok = commit_leaders_ok [OF inv' gen c(1-3) ldr ls]
    show ?thesis by (rule commit_inv_leaders(1) [OF c(5) inv' ok(1,4)])
  qed
qed

lemma commit_inv_run:
  assumes "each (consensus_step co) xs st = Ok (st', out)" and "commit_inv co D st acc"
    and "distinct (map slot xs)" and "slot ` set xs \<inter> D = {}"
    and "\<forall>x \<in> set xs. cert_round x \<noteq> 0 \<and> unat (cert_round x) < 2 ^ 63"
    and "\<forall>s \<in> genesis_slots co. snd s = 0"
  shows "commit_inv co (D \<union> slot ` set xs) st' (acc @ map fst out)"
  using assms
proof (induction xs arbitrary: st D acc out)
  case Nil
  then show ?case by simp
next
  case (Cons x xs)
  obtain st1 out1 out2 where step: "consensus_step co x st = Ok (st1, out1)"
    "each (consensus_step co) xs st1 = Ok (st', out2)" "out = out1 @ out2"
    by (rule each_Cons_Ok [OF Cons.prems(1)])
  have "slot x \<notin> genesis_slots co" using Cons.prems(5,6) by (auto simp: slot_def)
  then have "commit_inv co (insert (slot x) D) st1 (acc @ map fst out1)"
    using Cons.prems by (intro commit_inv_step [OF step(1)]) auto
  from Cons.IH [OF step(2) this] Cons.prems(3-6)
  have "commit_inv co (insert (slot x) D \<union> slot ` set xs) st' ((acc @ map fst out1) @ map fst out2)"
    by auto
  then show ?case using step(3) by (simp add: insert_commute Un_insert_left)
qed

lemma genesis_round: "x \<in> set (genesis c) \<Longrightarrow> cert_round x = 0"
  by (auto simp: genesis_def certificate_default_def header_default_def cert_round_def)

lemma commit_inv_start:
  "commit_inv (consensus_new dk env c depth) {} (state_new dk (genesis c)) []"
proof -
  let ?co = "consensus_new dk env c depth" and ?st = "state_new dk (genesis c)"
  have gen: "\<forall>x \<in> set (genesis c). cert_round x = 0" using genesis_round by blast
  note lookup = last_committed_new_zero [OF gen, of dk]
  have d: "dag_wf dk (dag ?st)" by (rule state_new_wf [OF gen])
  have lc: "distinct (map fst (last_committed ?st))"
    by (simp add: state_new_def Let_def distinct_collect_map)
  have "r = 0" if "(n, r) \<in> set (last_committed ?st)" for n r
    using map_of_is_SomeI [OF lc that] lookup [of n] by (simp split: if_splits)
  then have "\<forall>(n, r) \<in> set (last_committed ?st). r \<le> 0" by blast
  then have "max_round (last_committed ?st) \<le> 0" unfolding max_round_le_iff .
  then have wf: "state_wf dk ?st"
    using d lc by (simp add: state_wf_def) (simp add: state_new_def Let_def)
  have certs: "x \<in> set (genesis c)" if x: "x \<in> dag_certs (dag ?st)" for x
  proof -
    let ?kvs = "map (\<lambda>x. (cert_origin x, (cert_digest dk x, x))) (genesis c)"
    have "dag ?st = [(0, collect_map ?kvs)]" by (simp add: state_new_def Let_def)
    then obtain n h where "map_of (collect_map ?kvs) n = Some (h, x)"
      using x by (auto simp: dag_certs_def dag_get_def dag_row_def split: if_splits)
    then show ?thesis using set_collect_map [of ?kvs] by (auto dest!: map_of_SomeD)
  qed
  have slots: "settled ?co [] = slot ` set (genesis c)" "genesis_slots ?co = slot ` set (genesis c)"
    by (simp_all add: settled_def genesis_slots_def consensus_new_def)
  show ?thesis
    unfolding commit_inv_def slots
  proof (intro conjI ballI impI)
    show "state_wf (co_crypto ?co) ?st" using wf by (simp add: consensus_new_def)
    show "unat (last_committed_round ?st) < 2 ^ 63" by (simp add: state_new_def Let_def)
  next
    fix x assume x: "x \<in> dag_certs (dag ?st)"
    then show "unat (cert_round x) < 2 ^ 63" "slot x \<in> {} \<union> slot ` set (genesis c)"
      using certs gen by simp_all
    show "committed_at ?st x" using certs [OF x] gen lookup by (simp add: committed_at_iff)
  next
    fix s assume "s \<in> slot ` set (genesis c)"
    then show "case s of (n, q) \<Rightarrow> \<exists>r. map_of (last_committed ?st) n = Some r \<and> q \<le> r"
      using gen lookup by (auto simp: slot_def)
  qed simp_all
qed

end
