(* ===== verification/ConsensusSafety.thy ===== *)
theory ConsensusSafety
  imports Consensus
begin

text \<open>
  Properties of the ordering: the flattening of a leader's history, agreement on supported leaders,
  no certificate committed twice under single delivery, and concrete runs in which delivering a
  certificate again commits it again and two delivery orders lead to different committed sequences.
\<close>

section \<open>Concrete certificates\<close>

text \<open>The certificate of authority \<open>k\<close> in round \<open>r\<close>; parents are named by round and authority.\<close>

definition ex_id :: "round \<times> b256 \<Rightarrow> digest" where
  "ex_id = (\<lambda>(r, k). Digest (256 * ucast r + k))"

definition xc :: "b256 \<Rightarrow> round \<Rightarrow> (round \<times> b256) list \<Rightarrow> certificate" where
  "xc k r ps =
     \<lparr>c_header = header_default\<lparr>h_author := PublicKey k, h_round := r, h_parents := map ex_id ps\<rparr>,
      c_votes = []\<rparr>"

lemma xc_simps [simp]:
  "cert_round (xc k r ps) = r" "cert_origin (xc k r ps) = PublicKey k"
  "h_parents (c_header (xc k r ps)) = map ex_id ps"
  by (simp_all add: xc_def cert_round_def cert_origin_def)

lemma vote_bytes_nth:
  "vote_bytes d r k ! 32 = ucast r" "last (vote_bytes d r k) = ucast (key_bits k)"
proof -
  show "vote_bytes d r k ! 32 = ucast r"
    by (simp add: vote_bytes_def nth_append le_bytes_nth)
  have "key_as_ref k \<noteq> []" by (simp flip: length_0_conv)
  moreover have "last (key_as_ref k) = ucast (key_bits k)"
    by (simp add: key_as_ref_def be_bytes_def last_rev hd_conv_nth le_bytes_nth flip: length_0_conv)
  ultimately show "last (vote_bytes d r k) = ucast (key_bits k)" by (simp add: vote_bytes_def)
qed

lemma xc_digest [simp]:
  "cert_digest ex_dalek (xc k r ps) = Digest (256 * ucast (ucast r :: u8) + ucast (ucast k :: u8))"
  by (simp add: cert_digest_def ex_hash32 vote_bytes_nth)

definition ex_consensus :: consensus where
  "ex_consensus = consensus_new ex_dalek (\<lambda>_. None) ex_committee 50"

lemma ex_selected [simp]: "leader_selected ex_consensus r = Ok True"
  by (simp add: leader_selected_def ex_consensus_def consensus_new_def direct_commit_selected_def)

lemma ex_consensus_simps [simp]:
  "co_crypto ex_consensus = ex_dalek" "co_committee ex_consensus = ex_committee"
  "co_gc_depth ex_consensus = 50" "co_genesis ex_consensus = map (\<lambda>k. xc k 0 []) [1, 2, 3, 4]"
  by (simp_all add: ex_consensus_def consensus_new_def genesis_def xc_def certificate_default_def header_default_def)

lemma ex_leader [simp]:
  "leader ex_consensus r d = Ok (dag_get d r ([PublicKey 1, PublicKey 2, PublicKey 3, PublicKey 4] ! unat (r mod 4)))"
  by (simp add: leader_def Let_def committee_size_def ex_committee_def names_def sort_key_def)

text \<open>Evaluation of runs: one step at a time, the state in normal form before the next step.\<close>

lemma and_then_weak_cong: "r = r' \<Longrightarrow> and_then r k = and_then r' k"
  by simp

lemmas weak_congs = and_then_weak_cong let_weak_cong prod.case_cong_weak

definition quiet :: "certificate \<Rightarrow> bool" where
  "quiet x \<longleftrightarrow> (cert_round x - 1) mod 2 \<noteq> 0 \<or> cert_round x - 1 < 4"

lemma each_quiet:
  assumes "quiet x"
  shows "each (consensus_step co) (x # xs) st =
    each (consensus_step co) xs (st\<lparr>dag := dag_insert (co_crypto co) x (dag st)\<rparr>)"
proof -
  have "consensus_step co x st = Ok (st\<lparr>dag := dag_insert (co_crypto co) x (dag st)\<rparr>, [])"
    using assms by (simp add: quiet_def consensus_step_def try_commit_def Let_def)
  then show ?thesis
    by (cases "each (consensus_step co) xs (st\<lparr>dag := dag_insert (co_crypto co) x (dag st)\<rparr>)") auto
qed

lemmas run_simps = state_new_def collect_map_def consensus_step_def
  try_commit_def commit_round_def dag_insert_def dag_row_def dag_get_def support_stake_def
  order_leaders_def u64_range_incl_def u64_range_def commit_leader_def commit_one_def is_leader_def
  order_dag_def order_loop.simps committed_at_def find_parent_def update_def raise_committed_def max_round_def
  retain_for_def ex_id_def word_less_nat_alt word_le_nat_alt linked_def cert_eq_def Let_def
  each_quiet quiet_def

text \<open>A certificate is delivered after all its parents.\<close>

fun causally_delivered :: "dalek \<Rightarrow> digest set \<Rightarrow> certificate list \<Rightarrow> bool" where
  "causally_delivered dk known [] = True"
| "causally_delivered dk known (x # xs) \<longleftrightarrow>
     set (h_parents (c_header x)) \<subseteq> known \<and> causally_delivered dk (insert (cert_digest dk x) known) xs"

text \<open>Every certificate is above round 0 and has at least as many parents as a quorum of stake 1 each.\<close>

definition quorum_cited :: "committee \<Rightarrow> certificate list \<Rightarrow> bool" where
  "quorum_cited c xs \<longleftrightarrow>
     (\<forall>x \<in> set xs. cert_round x \<noteq> 0 \<and>
        unat (quorum_threshold c) \<le> length (remdups (h_parents (c_header x))))"

text \<open>The slots that a run commits, in order.\<close>

definition ordered_slots :: "consensus \<Rightarrow> certificate list \<Rightarrow> (public_key \<times> round) list option" where
  "ordered_slots co xs =
     (case consensus_run co xs of Inl _ \<Rightarrow> None | Inr (_, out) \<Rightarrow> Some (map (slot \<circ> fst) out))"

text \<open>
  A run of four authorities: \<open>start ps\<close> ends with the certificate that commits the leader of round
  2, whose parents are \<open>ps\<close>; \<open>rest\<close> cites the certificate of authority 3 in round 1 and ends
  with the certificate that commits the leader of round 4.
\<close>

definition late :: certificate where
  "late = xc 3 1 [(0, 1), (0, 2), (0, 3)]"

definition start :: "(round \<times> b256) list \<Rightarrow> certificate list" where
  "start ps =
     [xc 1 2 ps, xc 2 2 ps, xc 3 2 ps,
      xc 1 3 [(2, 1), (2, 2), (2, 3)], xc 2 3 [(2, 1), (2, 2), (2, 3)], xc 3 3 [(2, 1), (2, 2), (2, 3)],
      xc 2 4 [(3, 1), (3, 2), (3, 3)], xc 3 4 [(3, 1), (3, 2), (3, 3)], xc 4 4 [(3, 1), (3, 2), (3, 3)],
      xc 2 5 [(4, 2), (4, 3), (4, 4)]]"

definition first_round :: "certificate list" where
  "first_round = map (\<lambda>k. xc k 1 [(0, 1), (0, 2), (0, 3)]) [1, 2, 4]"

definition rest :: "certificate list" where
  "rest =
     [xc 4 2 [(1, 1), (1, 2), (1, 3)], xc 4 3 [(2, 1), (2, 2), (2, 4)], xc 1 4 [(3, 1), (3, 2), (3, 4)],
      xc 1 5 [(4, 1), (4, 2), (4, 3)], xc 3 5 [(4, 1), (4, 2), (4, 3)], xc 4 5 [(4, 1), (4, 2), (4, 3)],
      xc 1 6 [(5, 1), (5, 3), (5, 4)], xc 2 6 [(5, 1), (5, 3), (5, 4)], xc 3 6 [(5, 1), (5, 3), (5, 4)],
      xc 1 7 [(6, 1), (6, 2), (6, 3)]]"

definition early_run :: "certificate list" where
  "early_run = first_round @ late # start [(1, 1), (1, 2), (1, 4)] @ rest"

definition late_run :: "certificate list" where
  "late_run = first_round @ start [(1, 1), (1, 2), (1, 4)] @ late # rest"

definition repeated_run :: "certificate list" where
  "repeated_run = first_round @ late # start [(1, 1), (1, 2), (1, 3)] @ late # rest"

lemmas run_lists = early_run_def late_run_def repeated_run_def first_round_def late_def start_def rest_def

lemma early_slots:
  "ordered_slots ex_consensus early_run =
     Some (map (\<lambda>(k, r). (PublicKey k, r))
       [(4, 1), (2, 1), (1, 1), (3, 2), (4, 2), (2, 2), (1, 2), (4, 3), (2, 3), (1, 3), (1, 4)])"
  by (simp add: ordered_slots_def consensus_run_def run_lists run_simps slot_def cong: weak_congs)

lemma late_slots:
  "ordered_slots ex_consensus late_run =
     Some (map (\<lambda>(k, r). (PublicKey k, r))
       [(4, 1), (2, 1), (1, 1), (3, 2), (3, 1), (4, 2), (2, 2), (1, 2), (4, 3), (2, 3), (1, 3), (1, 4)])"
  by (simp add: ordered_slots_def consensus_run_def run_lists run_simps slot_def cong: weak_congs)

lemma repeated_slots:
  "ordered_slots ex_consensus repeated_run =
     Some (map (\<lambda>(k, r). (PublicKey k, r))
       [(3, 1), (2, 1), (1, 1), (3, 2), (3, 1), (4, 2), (2, 2), (1, 2), (4, 3), (2, 3), (1, 3), (1, 4)])"
  by (simp add: ordered_slots_def consensus_run_def run_lists run_simps slot_def cong: weak_congs)

lemma run_causal:
  "causally_delivered ex_dalek (cert_digest ex_dalek ` set (co_genesis ex_consensus)) early_run"
  "causally_delivered ex_dalek (cert_digest ex_dalek ` set (co_genesis ex_consensus)) late_run"
  "causally_delivered ex_dalek (cert_digest ex_dalek ` set (co_genesis ex_consensus)) repeated_run"
  by (simp_all add: run_lists ex_id_def)

lemma run_quorums:
  "quorum_cited ex_committee early_run" "quorum_cited ex_committee late_run"
  "quorum_cited ex_committee repeated_run"
  by (simp_all add: quorum_cited_def run_lists ex_id_def)

lemma run_distinct: "distinct (map slot early_run)" "distinct (map slot late_run)"
  by (simp_all add: run_lists slot_def)

text \<open>The invariant when a run receives one more certificate.\<close>

lemma consensus_new_simps:
  "co_crypto (consensus_new dk env c depth) = dk" "co_committee (consensus_new dk env c depth) = c"
  "co_gc_depth (consensus_new dk env c depth) = depth" "co_genesis (consensus_new dk env c depth) = genesis c"
  by (simp_all add: consensus_new_def)

lemma genesis_slots_zero: "\<forall>s \<in> genesis_slots (consensus_new dk env c depth). snd s = 0"
  using genesis_round by (auto simp: genesis_slots_def consensus_new_def slot_def)

lemma run_inv:
  assumes "distinct (map slot xs)"
    and "\<forall>y \<in> set xs. cert_round y \<noteq> 0 \<and> unat (cert_round y) < 2 ^ 63"
    and "consensus_run (consensus_new dk env c depth) xs = Ok (st, acc)"
  shows "commit_inv (consensus_new dk env c depth) (slot ` set xs) st (map fst acc)"
proof -
  have "each (consensus_step (consensus_new dk env c depth)) xs (state_new dk (genesis c)) = Ok (st, acc)"
    using assms(3) by (simp add: consensus_run_def consensus_new_simps)
  from commit_inv_run [OF this commit_inv_start assms(1) _ assms(2) genesis_slots_zero]
  show ?thesis by simp
qed

lemma run_insert_inv:
  assumes "distinct (map slot (xs @ [x]))"
    and "\<forall>y \<in> set (xs @ [x]). cert_round y \<noteq> 0 \<and> unat (cert_round y) < 2 ^ 63"
    and "consensus_run (consensus_new dk env c depth) xs = Ok (st, acc)"
  shows "commit_inv (consensus_new dk env c depth) (insert (slot x) (slot ` set xs))
     (st\<lparr>dag := dag_insert dk x (dag st)\<rparr>) (map fst acc)"
proof -
  have "slot x \<notin> genesis_slots (consensus_new dk env c depth)"
    using assms(2) genesis_slots_zero by (force simp: slot_def)
  then show ?thesis
    using commit_inv_insert [OF run_inv [OF _ _ assms(3)], of x] assms(1,2)
    by (simp add: consensus_new_simps)
qed

section \<open>Properties\<close>

text \<open>
  C2: However the primary interleaves the rounds, a consensus task that receives every certificate
  once commits no slot (author and round) twice, and only slots that it received.
\<close>

theorem never_commits_twice:
  assumes "distinct (map slot xs)"
    and "\<forall>x \<in> set xs. cert_round x \<noteq> 0 \<and> unat (cert_round x) < 2 ^ 63"
    and "consensus_run (consensus_new dk env c depth) xs = Ok (st, out)"
  shows "distinct (map (slot \<circ> fst) out) \<and> (slot \<circ> fst) ` set out \<subseteq> slot ` set xs"
  using commit_invD(5,6) [OF run_inv [OF assms]] by (simp add: image_image comp_def)

lemma late_run_Ok:
  obtains st out where "consensus_run ex_consensus late_run = Ok (st, out)"
    "map (slot \<circ> fst) out = map (\<lambda>(k, r). (PublicKey k, r))
       [(4, 1), (2, 1), (1, 1), (3, 2), (3, 1), (4, 2), (2, 2), (1, 2), (4, 3), (2, 3), (1, 3), (1, 4)]"
  using late_slots by (auto simp: ordered_slots_def split: sum.splits)

theorem never_commits_twice_witness:
  "\<exists>st out. consensus_run ex_consensus late_run = Ok (st, out) \<and> length out = 12 \<and>
     distinct (map (slot \<circ> fst) out)"
proof -
  obtain st out where run: "consensus_run ex_consensus late_run = Ok (st, out)"
    "map (slot \<circ> fst) out = map (\<lambda>(k, r). (PublicKey k, r))
       [(4, 1), (2, 1), (1, 1), (3, 2), (3, 1), (4, 2), (2, 2), (1, 2), (4, 3), (2, 3), (1, 3), (1, 4)]"
    by (rule late_run_Ok)
  have "\<forall>x \<in> set late_run. cert_round x \<noteq> 0 \<and> unat (cert_round x) < 2 ^ 63"
    by (simp add: run_lists)
  from never_commits_twice [OF run_distinct(2) this run(1) [unfolded ex_consensus_def]]
  show ?thesis using run arg_cong [OF run(2), of length] by auto
qed

text \<open>
  Delivering a certificate again after it was cleaned up commits it a second time: a causal
  sequence of certificates with quorum parents in which one is repeated commits a slot twice.
\<close>

theorem redelivery_commits_twice:
  "causally_delivered ex_dalek (cert_digest ex_dalek ` set (co_genesis ex_consensus)) repeated_run \<and>
   quorum_cited ex_committee repeated_run \<and>
   map_option (\<lambda>slots. count_list slots (PublicKey 3, 1)) (ordered_slots ex_consensus repeated_run) = Some 2"
  using run_causal(3) run_quorums(3) by (simp add: repeated_slots)

text \<open>
  C39: The committed sequence depends on the order of delivery: two replicas that receive the same
  certificates, each once, in causal order and with quorum parents, commit sequences of which neither
  is a prefix of the other.
\<close>

theorem commit_order_depends_on_delivery:
  "mset early_run = mset late_run \<and> distinct (map slot early_run) \<and>
   causally_delivered ex_dalek (cert_digest ex_dalek ` set (co_genesis ex_consensus)) early_run \<and>
   causally_delivered ex_dalek (cert_digest ex_dalek ` set (co_genesis ex_consensus)) late_run \<and>
   quorum_cited ex_committee early_run \<and>
   (\<exists>a b common rest_a rest_b. a \<noteq> b \<and>
      ordered_slots ex_consensus early_run = Some (common @ a # rest_a) \<and>
      ordered_slots ex_consensus late_run = Some (common @ b # rest_b))"
proof -
  have "mset early_run = mset late_run" by (simp add: early_run_def late_run_def)
  moreover have "\<exists>a b common rest_a rest_b. a \<noteq> b \<and>
      ordered_slots ex_consensus early_run = Some (common @ a # rest_a) \<and>
      ordered_slots ex_consensus late_run = Some (common @ b # rest_b)"
    unfolding early_slots late_slots
    by (rule exI [of _ "(PublicKey 4, 2)"], rule exI [of _ "(PublicKey 3, 1)"],
        rule exI [of _ "[(PublicKey 4, 1), (PublicKey 2, 1), (PublicKey 1, 1), (PublicKey 3, 2)]"]) simp
  ultimately show ?thesis using run_causal run_quorums run_distinct by blast
qed

text \<open>
  C8: Flattening a leader returns exactly the certificates of its uncommitted history that are within
  the garbage collection depth, each slot once, by rounds, and never a certificate before one of its
  own uncommitted parents.
\<close>

theorem order_dag_is_history:
  assumes "dag_wf dk (dag st)" and "last_round_free (dag st)"
    and "inj_on (cert_digest dk) (dag_certs (dag st))"
  shows "set (order_dag co ldr st) =
      {x \<in> history st ldr. last_committed_round st \<le> cert_round x + co_gc_depth co} \<and>
    distinct (map slot (order_dag co ldr st)) \<and> sorted (map cert_round (order_dag co ldr st)) \<and>
    sorted_wrt (\<lambda>x y. \<not> parent_edge st x y) (order_dag co ldr st)"
proof -
  have "sorted_wrt (\<lambda>x y. cert_round x \<le> cert_round y) (order_dag co ldr st)"
    using order_dag_sorted [of co ldr st] by (simp add: sorted_wrt_map)
  moreover have "\<not> parent_edge st x y" if "cert_round x \<le> cert_round y" for x y
    using parent_edge_round [OF assms(1,2)] that leD by blast
  ultimately have "sorted_wrt (\<lambda>x y. \<not> parent_edge st x y) (order_dag co ldr st)"
    by (rule sorted_wrt_mono_rel [rotated])
  then show ?thesis
    using order_dag_set [OF assms(1,3)] order_dag_slots [OF assms(1,2)] order_dag_sorted by blast
qed

text \<open>A state built by insertions only.\<close>

definition ex_state :: "certificate list \<Rightarrow> consensus_state" where
  "ex_state xs =
     \<lparr>last_committed_round = 0, last_committed = [], dag = fold (dag_insert ex_dalek) xs []\<rparr>"

lemma ex_state_lcr: "last_committed_round (ex_state xs) = 0"
  by (simp add: ex_state_def)

lemma fold_insert_wf: "dag_wf dk d \<Longrightarrow> dag_wf dk (fold (dag_insert dk) xs d)"
  by (induction xs arbitrary: d) (auto intro: wf_intros)

lemma ex_state_wf: "dag_wf ex_dalek (dag (ex_state xs))"
proof -
  have "dag_wf ex_dalek []" by (simp add: dag_wf_def)
  then show ?thesis by (simp add: ex_state_def fold_insert_wf)
qed

lemma fold_insert_certs: "dag_certs (fold (dag_insert dk) xs d) \<subseteq> dag_certs d \<union> set xs"
proof (induction xs arbitrary: d)
  case Nil
  then show ?case by simp
next
  case (Cons x xs)
  have "dag_certs (dag_insert dk x d) \<subseteq> insert x (dag_certs d)"
    by (auto simp: dag_certs_def dag_get_insert split: if_splits)
  with Cons [of "dag_insert dk x d"] show ?case by auto
qed

lemma ex_state_certs: "dag_certs (dag (ex_state xs)) \<subseteq> set xs"
proof -
  have "dag_certs [] = {}" by (simp add: dag_certs_def dag_get_def dag_row_def)
  then show ?thesis using fold_insert_certs [of ex_dalek xs "[]"] by (simp add: ex_state_def)
qed

theorem order_dag_is_history_witness:
  "set (order_dag ex_consensus (xc 3 2 [(1, 1)]) (ex_state [xc 1 1 [], xc 2 1 [], xc 3 2 [(1, 1)]])) =
   {x \<in> history (ex_state [xc 1 1 [], xc 2 1 [], xc 3 2 [(1, 1)]]) (xc 3 2 [(1, 1)]). 0 \<le> cert_round x + 50}"
proof -
  let ?st = "ex_state [xc 1 1 [], xc 2 1 [], xc 3 2 [(1, 1)]]"
  have "inj_on (cert_digest ex_dalek) (dag_certs (dag ?st))"
    by (rule inj_on_subset [OF _ ex_state_certs]) (simp add: inj_on_def)
  moreover have "last_round_free (dag ?st)"
    unfolding last_round_free_def using ex_state_certs by fastforce
  ultimately show ?thesis
    using order_dag_is_history [OF ex_state_wf, of "[xc 1 1 [], xc 2 1 [], xc 3 2 [(1, 1)]]" ex_consensus]
    by (simp add: ex_state_def)
qed

text \<open>The support that the code adds up in \<open>u32\<close> is the stake of the supporting authors.\<close>

lemma support_stake_supporters:
  assumes ok: "committee_ok c" and wf: "dag_wf dk d" and row: "map_of d r = Some row"
  shows "unat (support_stake c row h) = sum (stake_nat c) (supporters c d r h)"
proof -
  let ?citing = "filter (\<lambda>(_, _, x). h \<in> set (h_parents (c_header x))) row"
  have row': "dag_row d r = row" using row by (simp add: dag_row_def)
  then have rw: "row_wf dk r row" using dag_row_wf [OF wf, of r] by simp
  have origin: "map (\<lambda>(_, _, x). stake_of c (cert_origin x)) ?citing = map (stake_of c) (map fst ?citing)"
    using rw by (auto simp: row_wf_def)
  have "distinct (map fst ?citing)"
    using rw by (intro distinct_map_fst_filter) (simp add: row_wf_def)
  then have "unat (support_stake c row h) = sum (stake_nat c) (set (map fst ?citing))"
    unfolding support_stake_def origin by (rule unat_sum_stake [OF ok])
  also have "\<dots> = sum (stake_nat c) (set (map fst ?citing) \<inter> set (names c))"
    by (rule committee.weight_restrict) simp
  also have "set (map fst ?citing) \<inter> set (names c) = supporters c d r h"
  proof (intro set_eqI iffI)
    fix n
    assume "n \<in> set (map fst ?citing) \<inter> set (names c)"
    then obtain h' x where "(n, h', x) \<in> set row" "cites x h" "n \<in> set (names c)"
      by (auto simp: cites_def)
    moreover from this have "dag_get d r n = Some (h', x)"
      using dag_row_get [OF wf, of n h' x r] row' by simp
    ultimately show "n \<in> supporters c d r h" by (auto simp: supporters_def)
  next
    fix n
    assume "n \<in> supporters c d r h"
    then obtain h' x where x: "dag_get d r n = Some (h', x)" "cites x h" "n \<in> set (names c)"
      by (auto simp: supporters_def)
    then have "(n, h', x) \<in> set row" using dag_row_get [OF wf, of n h' x r] row' by simp
    then have "(n, h', x) \<in> set ?citing" using x(2) by (simp add: cites_def)
    then have "n \<in> set (map fst ?citing)" by force
    then show "n \<in> set (map fst ?citing) \<inter> set (names c)" using x(3) by simp
  qed
  finally show ?thesis .
qed

text \<open>
  C6: Agreement on leaders: when one replica counts a validity threshold of support for the leader of
  a round, every replica whose DAG agrees on that next round and has quorum parents above it takes the
  same leader into the list of leaders to commit with any later leader.
\<close>

theorem supported_leader_in_later_commits:
  assumes "committee_ok c" and "co_committee co = c"
    and "dag_wf dk seen" and "map_of seen (r + 1) = Some row"
    and "validity_threshold c \<le> support_stake c row h"
    and "dag_wf dk (dag st)" and "leader co r (dag st) = Ok (Some (h, ldr))"
    and "\<forall>n. \<forall>e \<in> set_option (dag_get seen (r + 1) n). \<forall>e' \<in> set_option (dag_get (dag st) (r + 1) n). e = e'"
    and "\<forall>x \<in> dag_certs (dag st). unat r + 2 \<le> unat (cert_round x) \<longrightarrow> has_quorum_parents c (dag st) x"
    and "later \<in> dag_certs (dag st)" and "order_leaders co later st = Ok ls"
    and "unat (last_committed_round st) + 2 \<le> unat r" and "unat r + 2 \<le> unat (cert_round later)"
    and "even (unat (cert_round later) - unat r)"
  shows "ldr \<in> set ls"
proof -
  let ?S = "supporters c seen (r + 1) h"
  have S: "?S \<subseteq> set (names c)" by (auto simp: supporters_def)
  have stake: "unat (validity_threshold c) \<le> sum (stake_nat c) ?S"
    using assms(5) support_stake_supporters [OF assms(1,3,4)] by (simp add: word_le_nat_alt)
  have cite: "\<forall>n \<in> ?S. \<forall>h' y. dag_get (dag st) (r + 1) n = Some (h', y) \<longrightarrow> cites y h"
    using assms(8) by (fastforce simp: supporters_def)
  obtain n where n: "dag_get (dag st) r n = Some (h, ldr)"
    using assms(7) by (auto simp: leader_def Let_def split: if_splits)
  have "linked x ldr (dag st) = Ok True"
    if "x = later \<or> x \<in> dag_certs (dag st)" "unat r + 2 \<le> unat (cert_round x)" for x
  proof (rule linked_to_supported [OF assms(1,6) n S stake cite assms(9) _ that(2)])
    show "has_quorum_parents c (dag st) x" using that assms(9,10) by blast
  qed
  then show ?thesis by (rule order_leaders_supported [OF assms(11,7,6,12,13,14)])
qed

text \<open>A DAG in which every certificate from round 2 on has a quorum of parents.\<close>

definition full_list :: "certificate list" where
  "full_list = first_round @ late # start [(1, 1), (1, 2), (1, 4)]"

lemma full_dag:
  "dag (ex_state full_list) =
     [(1, [(PublicKey 1, Digest 257, xc 1 1 [(0, 1), (0, 2), (0, 3)]),
           (PublicKey 2, Digest 258, xc 2 1 [(0, 1), (0, 2), (0, 3)]),
           (PublicKey 4, Digest 260, xc 4 1 [(0, 1), (0, 2), (0, 3)]),
           (PublicKey 3, Digest 259, xc 3 1 [(0, 1), (0, 2), (0, 3)])]),
      (2, [(PublicKey 1, Digest 513, xc 1 2 [(1, 1), (1, 2), (1, 4)]),
           (PublicKey 2, Digest 514, xc 2 2 [(1, 1), (1, 2), (1, 4)]),
           (PublicKey 3, Digest 515, xc 3 2 [(1, 1), (1, 2), (1, 4)])]),
      (3, [(PublicKey 1, Digest 769, xc 1 3 [(2, 1), (2, 2), (2, 3)]),
           (PublicKey 2, Digest 770, xc 2 3 [(2, 1), (2, 2), (2, 3)]),
           (PublicKey 3, Digest 771, xc 3 3 [(2, 1), (2, 2), (2, 3)])]),
      (4, [(PublicKey 2, Digest 1026, xc 2 4 [(3, 1), (3, 2), (3, 3)]),
           (PublicKey 3, Digest 1027, xc 3 4 [(3, 1), (3, 2), (3, 3)]),
           (PublicKey 4, Digest 1028, xc 4 4 [(3, 1), (3, 2), (3, 3)])]),
      (5, [(PublicKey 2, Digest 1282, xc 2 5 [(4, 2), (4, 3), (4, 4)])])]"
  by (simp add: ex_state_def full_list_def run_lists ex_id_def dag_insert_def dag_row_def)

lemma ex_quorum:
  assumes "distinct ks" "length ks = 3" "set ks \<subseteq> set (names ex_committee)"
    and "\<forall>k \<in> set ks. \<exists>h y. dag_get d (cert_round x - 1) k = Some (h, y) \<and> cites x h"
  shows "has_quorum_parents ex_committee d x"
proof -
  have "stake_nat ex_committee k = 1" if "k \<in> set ks" for k
    using that assms(3) by (auto simp: stake_nat_def)
  then have "sum (stake_nat ex_committee) (set ks) = card (set ks)" by simp
  also have "\<dots> = 3" using assms(1,2) by (simp add: distinct_card)
  finally have "3 = sum (stake_nat ex_committee) (set ks)" by simp
  also have "\<dots> \<le> sum (stake_nat ex_committee) (parent_authors ex_committee d x)"
    using assms(3,4) by (intro sum_mono2) (auto simp: parent_authors_def)
  finally show ?thesis by (simp add: has_quorum_parents_def)
qed

lemma full_quorums:
  "\<forall>x \<in> dag_certs (dag (ex_state full_list)). 4 \<le> unat (cert_round x) \<longrightarrow>
     has_quorum_parents ex_committee (dag (ex_state full_list)) x"
proof (intro ballI impI)
  fix x
  assume "x \<in> dag_certs (dag (ex_state full_list))" "4 \<le> unat (cert_round x)"
  then have "x \<in> set full_list" "4 \<le> unat (cert_round x)" using ex_state_certs by blast+
  then consider "x = xc 2 5 [(4, 2), (4, 3), (4, 4)]" | k where "x = xc k 4 [(3, 1), (3, 2), (3, 3)]"
    by (auto simp: full_list_def run_lists)
  then show "has_quorum_parents ex_committee (dag (ex_state full_list)) x"
  proof cases
    case 1
    show ?thesis
      by (rule ex_quorum [of "[PublicKey 2, PublicKey 3, PublicKey 4]"])
        (simp_all add: 1 full_dag dag_get_def dag_row_def cites_def ex_id_def)
  next
    case 2
    show ?thesis
      by (rule ex_quorum [of "[PublicKey 1, PublicKey 2, PublicKey 3]"])
        (simp_all add: 2 full_dag dag_get_def dag_row_def cites_def ex_id_def)
  qed
qed

theorem supported_leader_in_later_commits_witness:
  "\<exists>ls. order_leaders ex_consensus (xc 2 4 [(3, 1), (3, 2), (3, 3)]) (ex_state full_list) = Ok ls \<and>
     xc 3 2 [(1, 1), (1, 2), (1, 4)] \<in> set ls"
proof -
  let ?d = "dag (ex_state full_list)" and ?later = "xc 2 4 [(3, 1), (3, 2), (3, 3)]"
  have ls: "order_leaders ex_consensus ?later (ex_state full_list) =
      Ok [?later, xc 3 2 [(1, 1), (1, 2), (1, 4)]]"
    by (simp add: order_leaders_def u64_range_incl_def linked_def u64_range_def full_dag dag_get_def dag_row_def
        ex_id_def cert_eq_def ex_state_lcr cong: weak_congs)
  have row: "map_of ?d (2 + 1) =
      Some [(PublicKey 1, Digest 769, xc 1 3 [(2, 1), (2, 2), (2, 3)]),
           (PublicKey 2, Digest 770, xc 2 3 [(2, 1), (2, 2), (2, 3)]),
           (PublicKey 3, Digest 771, xc 3 3 [(2, 1), (2, 2), (2, 3)])]"
    by (simp add: full_dag)
  have ldr: "leader ex_consensus 2 ?d = Ok (Some (Digest 515, xc 3 2 [(1, 1), (1, 2), (1, 4)]))"
    by (simp add: full_dag dag_get_def dag_row_def)
  have "xc 3 2 [(1, 1), (1, 2), (1, 4)] \<in> set [?later, xc 3 2 [(1, 1), (1, 2), (1, 4)]]"
  proof (rule supported_leader_in_later_commits [OF ex_committee_ok _ ex_state_wf row _ ex_state_wf ldr
        _ _ _ ls])
    show "?later \<in> dag_certs ?d"
      unfolding dag_certs_def
      by (simp, rule exI [of _ 4], rule exI [of _ "PublicKey 2"]) (simp add: full_dag dag_get_def dag_row_def)
    show "\<forall>x \<in> dag_certs ?d. unat (2 :: round) + 2 \<le> unat (cert_round x) \<longrightarrow>
        has_quorum_parents ex_committee ?d x"
      using full_quorums by simp
  qed (simp_all add: support_stake_def ex_id_def ex_state_lcr word_le_nat_alt)
  then show ?thesis using ls by blast
qed

text \<open>
  C19: What a commit is: when a step of a run to which no slot is delivered twice outputs anything, the leader three
  rounds below the received certificate is selected, above the last committed round and supported by a
  validity threshold; it is part of the output and its round becomes the last committed round.
\<close>

theorem commit_needs_supported_leader:
  assumes "distinct (map slot (xs @ [x]))" and "unat depth < 2 ^ 63"
    and "\<forall>y \<in> set (xs @ [x]). cert_round y \<noteq> 0 \<and> unat (cert_round y) < 2 ^ 63"
    and "consensus_run (consensus_new dk env c depth) xs = Ok (st, acc)"
    and "consensus_step (consensus_new dk env c depth) x st = Ok (st', out)" and "out \<noteq> []"
  shows "\<exists>h ldr row. leader_selected (consensus_new dk env c depth) (cert_round x - 3) = Ok True \<and>
     leader (consensus_new dk env c depth) (cert_round x - 3) (dag_insert dk x (dag st)) = Ok (Some (h, ldr)) \<and>
     map_of (dag_insert dk x (dag st)) (cert_round x - 2) = Some row \<and>
     validity_threshold c \<le> support_stake c row h \<and>
     last_committed_round st < cert_round x - 3 \<and>
     ldr \<in> fst ` set out \<and> last_committed_round st' = cert_round x - 3"
proof -
  let ?co = "consensus_new dk env c depth" and ?st = "st\<lparr>dag := dag_insert dk x (dag st)\<rparr>"
  note inv = run_insert_inv [OF assms(1,3,4)] and crypto = consensus_new_simps [of dk env c depth]
  have tc: "try_commit ?co (cert_round x) ?st = Ok (st', out)"
    using assms(5) by (simp add: consensus_step_def crypto)
  obtain h ldr row ls where k: "(cert_round x - 1) mod 2 = 0" "4 \<le> cert_round x - 1"
    "last_committed_round ?st < cert_round x - 3" "commits ?co (cert_round x - 1) ?st h ldr row ls"
    "each (commit_leader ?co) (rev ls) ?st = Ok (st', out)"
    by (rule try_commit_Ok [OF tc]) (use assms(6) in simp)
  have c: "leader_selected ?co (cert_round x - 3) = Ok True"
    "leader ?co (cert_round x - 3) (dag ?st) = Ok (Some (h, ldr))"
    "map_of (dag ?st) (cert_round x - 2) = Some row" "validity_threshold c \<le> support_stake c row h"
    and ls: "order_leaders ?co ldr ?st = Ok ls"
    using k(4) by (simp_all add: commits_def crypto)
  note ok = commit_leaders_ok [OF inv genesis_slots_zero k(1-3) c(2) ls]
  have "unat (co_gc_depth ?co) < 2 ^ 63" using assms(2) by (simp add: crypto)
  note effect = commit_inv_leaders(2) [OF k(5) inv ok(1,4) this]
  have "ldr \<in> set (rev ls)" using ok(2,3) last_in_set [of "rev ls"] by simp
  moreover have "cert_round ldr = cert_round x - 3"
    by (rule leader_in_dag(1) [OF c(2) commit_inv_wf(2) [OF inv]])
  ultimately show ?thesis using c k(3) effect ok(2,3) by auto
qed

text \<open>A run up to the certificate that triggers the first commit.\<close>

definition small_list :: "certificate list" where
  "small_list = [xc 1 1 [], xc 3 2 [(1, 1)], xc 1 3 [(2, 3)], xc 2 3 [(2, 3)]]"

definition small_state :: consensus_state where
  "small_state =
     \<lparr>last_committed_round = 0, last_committed = map (\<lambda>k. (PublicKey k, 0)) [1, 2, 3, 4],
      dag = [(0, map (\<lambda>k. (PublicKey k, Digest k, xc k 0 [])) [1, 2, 3, 4]),
             (1, [(PublicKey 1, Digest 257, xc 1 1 [])]),
             (2, [(PublicKey 3, Digest 515, xc 3 2 [(1, 1)])]),
             (3, [(PublicKey 1, Digest 769, xc 1 3 [(2, 3)]), (PublicKey 2, Digest 770, xc 2 3 [(2, 3)])])]\<rparr>"

lemma small_run: "consensus_run ex_consensus small_list = Ok (small_state, [])"
  by (simp add: consensus_run_def small_list_def small_state_def run_simps cong: weak_congs)

lemma small_step:
  "\<exists>st'. consensus_step ex_consensus (xc 1 5 []) small_state =
     Ok (st', [(xc 1 1 [], False), (xc 3 2 [(1, 1)], True)])"
  by (simp add: small_state_def run_simps cong: weak_congs)

lemma small_slots:
  "distinct (map slot (small_list @ [xc 1 5 []]))"
  "\<forall>y \<in> set (small_list @ [xc 1 5 []]). cert_round y \<noteq> 0 \<and> unat (cert_round y) < 2 ^ 63"
  by (simp_all add: small_list_def slot_def)

theorem commit_needs_supported_leader_witness:
  "\<exists>st' out. consensus_step ex_consensus (xc 1 5 []) small_state = Ok (st', out) \<and>
     last_committed_round st' = 2"
proof -
  obtain st' where st': "consensus_step ex_consensus (xc 1 5 []) small_state =
      Ok (st', [(xc 1 1 [], False), (xc 3 2 [(1, 1)], True)])"
    using small_step by blast
  have "last_committed_round st' = cert_round (xc 1 5 []) - 3"
    using commit_needs_supported_leader [OF small_slots(1) _ small_slots(2) small_run [unfolded ex_consensus_def]
        st' [unfolded ex_consensus_def]] by auto
  then show ?thesis using st' by auto
qed

text \<open>
  C11: Progress: a leader that is selected, above the last committed round and supported by a
  validity threshold is committed as soon as a certificate three rounds above it arrives, provided
  the DAG still holds the rounds in between: the step does not panic, outputs the leader and raises the
  last committed round to it.
\<close>

theorem supported_leader_is_committed:
  assumes "distinct (map slot (xs @ [x]))" and "unat depth < 2 ^ 63"
    and "\<forall>y \<in> set (xs @ [x]). cert_round y \<noteq> 0 \<and> unat (cert_round y) < 2 ^ 63"
    and "consensus_run (consensus_new dk env c depth) xs = Ok (st, acc)"
    and "(cert_round x - 1) mod 2 = 0" and "4 \<le> cert_round x - 1"
    and "last_committed_round st < cert_round x - 3"
    and "leader_selected (consensus_new dk env c depth) (cert_round x - 3) = Ok True"
    and "leader (consensus_new dk env c depth) (cert_round x - 3) (dag_insert dk x (dag st)) = Ok (Some (h, ldr))"
    and "map_of (dag_insert dk x (dag st)) (cert_round x - 2) = Some row"
    and "validity_threshold c \<le> support_stake c row h"
    and "\<forall>r. last_committed_round st + 2 \<le> r \<and> r < cert_round x - 3 \<longrightarrow>
      map_of (dag_insert dk x (dag st)) r \<noteq> None"
  shows "\<exists>st' out. consensus_step (consensus_new dk env c depth) x st = Ok (st', out) \<and>
     ldr \<in> fst ` set out \<and> last_committed_round st' = cert_round x - 3"
proof -
  let ?co = "consensus_new dk env c depth" and ?st = "st\<lparr>dag := dag_insert dk x (dag st)\<rparr>"
  note inv = run_insert_inv [OF assms(1,3,4)] and crypto = consensus_new_simps [of dk env c depth]
  note ldr = leader_in_dag [OF assms(9), of dk]
  have wf: "dag_wf dk (dag ?st)" using commit_inv_wf(2) [OF inv] by (simp add: crypto)
  have size: "committee_size (co_committee ?co) \<noteq> 0"
    using assms(9) by (auto simp: leader_def Let_def split: if_splits)
  let ?rs = "every_second (rev (u64_range_incl (last_committed_round ?st + 2) (cert_round ldr - 2)))"
  have round: "cert_round ldr = cert_round x - 3" using ldr(1) wf by simp
  have "r \<le> cert_round ldr" if "r \<le> cert_round ldr - 2" for r
  proof -
    have "2 \<le> cert_round ldr" using commit_rounds [OF assms(5,6)] round by (simp add: word_le_nat_alt)
    then have "cert_round ldr - 2 \<le> cert_round ldr" by (simp add: word_le_nat_alt unat_sub)
    then show ?thesis using that by (rule order_trans [rotated])
  qed
  then have "\<forall>r \<in> set ?rs. last_committed_round ?st + 2 \<le> r \<and> r \<le> cert_round ldr"
    using set_every_second [of "rev (u64_range_incl (last_committed_round ?st + 2) (cert_round ldr - 2))"]
    by auto
  then have "\<exists>ls. order_leaders ?co ldr ?st = Ok ls"
    unfolding order_leaders_def using assms(12) round
    by (intro past_leaders_total [OF wf size, where lo = "last_committed_round ?st + 2"]) auto
  then obtain ls where ls: "order_leaders ?co ldr ?st = Ok ls" by blast
  obtain st' out where commit: "each (commit_leader ?co) (rev ls) ?st = Ok (st', out)"
    using each_total [of "rev ls" "commit_leader ?co" ?st] commit_leader_total [OF size] by blast
  have "last_committed_round ?st < cert_round x - 3"
    "leader ?co (cert_round x - 3) (dag ?st) = Ok (Some (h, ldr))"
    using assms(7,9) by simp_all
  note ok = commit_leaders_ok [OF inv genesis_slots_zero assms(5,6) this ls]
  have "\<not> cert_round x - 1 < 4" using assms(6) by simp
  moreover have "\<not> cert_round x - 3 \<le> last_committed_round st" using assms(7) by simp
  moreover have "\<not> support_stake c row h < validity_threshold c" using assms(11) by simp
  moreover have "cert_round x - 1 - 2 = cert_round x - 3" "cert_round x - 1 - 1 = cert_round x - 2" by simp_all
  ultimately have "consensus_step ?co x st = Ok (st', out)"
    using assms(5,8,9,10) ls commit
    by (simp add: consensus_step_def try_commit_def commit_round_def Let_def crypto)
  moreover have "unat (co_gc_depth ?co) < 2 ^ 63" using assms(2) by (simp add: crypto)
  note effect = commit_inv_leaders(2) [OF commit inv ok(1,4) this]
  moreover have "ldr \<in> set (rev ls)" using ok(2,3) last_in_set [of "rev ls"] by simp
  ultimately show ?thesis using round ok(2,3) by auto
qed

theorem supported_leader_is_committed_witness:
  "\<exists>st' out. consensus_step ex_consensus (xc 1 5 []) small_state = Ok (st', out) \<and>
     xc 3 2 [(1, 1)] \<in> fst ` set out \<and> last_committed_round st' = 2"
proof -
  let ?co = "consensus_new ex_dalek (\<lambda>_. None) ex_committee 50" and ?x = "xc 1 5 []"
  have d: "dag_insert ex_dalek ?x (dag small_state) = dag small_state @ [(5, [(PublicKey 1, Digest 1281, ?x)])]"
    by (simp add: small_state_def dag_insert_def dag_row_def)
  have ldr: "leader ?co (cert_round ?x - 3) (dag_insert ex_dalek ?x (dag small_state)) =
      Ok (Some (Digest 515, xc 3 2 [(1, 1)]))"
    unfolding ex_consensus_def [symmetric] d by (simp add: small_state_def dag_get_def dag_row_def)
  have row: "map_of (dag_insert ex_dalek ?x (dag small_state)) (cert_round ?x - 2) =
      Some [(PublicKey 1, Digest 769, xc 1 3 [(2, 3)]), (PublicKey 2, Digest 770, xc 2 3 [(2, 3)])]"
    unfolding d by (simp add: small_state_def)
  have "\<exists>st' out. consensus_step ?co ?x small_state = Ok (st', out) \<and>
      xc 3 2 [(1, 1)] \<in> fst ` set out \<and> last_committed_round st' = cert_round ?x - 3"
    by (rule supported_leader_is_committed [OF small_slots(1) _ small_slots(2)
          small_run [unfolded ex_consensus_def] _ _ _ _ ldr row])
      (auto simp: small_state_def support_stake_def ex_id_def word_le_nat_alt word_less_nat_alt
        simp flip: ex_consensus_def)
  then show ?thesis by (simp add: ex_consensus_def)
qed

end
