(* ===== verification/LeaderChain.thy ===== *)
theory LeaderChain
  imports ConsensusSafety "HOL-Library.Sublist"
begin

text \<open>
  The leaders that a replica commits. A certificate determines a chain of leaders below it: going down by two
  rounds, a leader is taken when the one taken before has a path to it. The chain depends only on the certificates
  and not on the replica, and a supported leader is in the chain of every later one; the locale
  \<open>leader_chain\<close> derives from this that the chains of two supported leaders extend each other.
\<close>

section \<open>Chains of leaders\<close>

fun chain :: "(nat \<Rightarrow> 'v option) \<Rightarrow> ('v \<Rightarrow> 'v \<Rightarrow> bool) \<Rightarrow> nat list \<Rightarrow> 'v \<Rightarrow> 'v list" where
  "chain at_round reach [] v = []"
| "chain at_round reach (r # rs) v =
     (case at_round r of
        None \<Rightarrow> chain at_round reach rs v
      | Some p \<Rightarrow> if reach v p then p # chain at_round reach rs p else chain at_round reach rs v)"

text \<open>The rounds of the leaders below an even round, down to 2.\<close>

fun below :: "nat \<Rightarrow> nat list" where
  "below n = (if n < 4 then [] else (n - 2) # below (n - 2))"

declare below.simps [simp del]

lemma every_second_below:
  assumes "even r" and "even n" and "r < n"
  shows "below n = every_second (rev [r + 2..<n - 1]) @ (if r = 0 then [] else r # below r)"
  using assms(2,3)
proof (induction n rule: less_induct)
  case (less n)
  show ?case
  proof (cases "n = r + 2")
    case True
    then have "below n = (if r + 2 < 4 then [] else r # below r)" by (subst below.simps) simp
    moreover have "r = 0 \<or> 2 \<le> r" using assms(1) by presburger
    ultimately show ?thesis using True by auto
  next
    case False
    then have n: "r + 4 \<le> n" using assms(1) less.prems by presburger
    have "every_second (rev [r + 2..<n - 1]) = (n - 2) # every_second (rev [r + 2..<n - 2 - 1])"
      using n every_second_rev_upt [of "r + 2" "n - 1"] by (simp add: numeral_eq_Suc)
    moreover have "below (n - 2) = every_second (rev [r + 2..<n - 2 - 1]) @ (if r = 0 then [] else r # below r)"
      using n less.prems(1) by (intro less.IH) auto
    ultimately show ?thesis using n by (simp add: below.simps [of n])
  qed
qed

locale leader_chain =
  fixes invar :: "'g \<Rightarrow> bool"
    and vertex :: "'g \<Rightarrow> 'v \<Rightarrow> bool"
    and round_of :: "'v \<Rightarrow> nat"
    and at_round :: "'g \<Rightarrow> nat \<Rightarrow> 'v option"
    and reach :: "'g \<Rightarrow> 'v \<Rightarrow> 'v \<Rightarrow> bool"
    and supported :: "'g \<Rightarrow> 'v \<Rightarrow> bool"
  assumes at_round_vertex: "invar g \<Longrightarrow> at_round g r = Some v \<Longrightarrow> vertex g v \<and> round_of v = r"
    and supported_leader: "invar g \<Longrightarrow> supported g v \<Longrightarrow> vertex g v \<and> at_round g (round_of v) = Some v"
    and reach_supported: "invar g \<Longrightarrow> vertex g w \<Longrightarrow> supported g v \<Longrightarrow> round_of v + 2 \<le> round_of w \<Longrightarrow> reach g w v"
begin

definition leaders :: "'g \<Rightarrow> 'v \<Rightarrow> 'v list" where
  "leaders g v = v # chain (at_round g) (reach g) (below (round_of v)) v"

lemma chain_reaches:
  assumes "invar g" and "supported g p" and "vertex g v" and "round_of p + 2 \<le> round_of v"
    and "\<forall>i \<in> set rs. round_of p + 2 \<le> i"
  shows "chain (at_round g) (reach g) (rs @ round_of p # rs') v =
    chain (at_round g) (reach g) rs v @ p # chain (at_round g) (reach g) rs' p"
  using assms(3-5)
proof (induction rs arbitrary: v)
  case Nil
  then show ?case using supported_leader [OF assms(1,2)] reach_supported [OF assms(1) _ assms(2)] by simp
next
  case (Cons r rs)
  show ?case
  proof (cases "at_round g r")
    case None
    then show ?thesis using Cons by simp
  next
    case (Some q)
    then show ?thesis using Cons at_round_vertex [OF assms(1) Some] by simp
  qed
qed

text \<open>The chain of a later leader goes through a supported one and continues with its chain.\<close>

lemma leaders_extend:
  assumes "invar g" and "supported g p" and "vertex g v" and "round_of p < round_of v"
    and "even (round_of p)" and "even (round_of v)" and "round_of p \<noteq> 0"
  shows "leaders g v = (v # chain (at_round g) (reach g) (every_second (rev [round_of p + 2..<round_of v - 1])) v) @ leaders g p"
proof -
  have "\<forall>i \<in> set (every_second (rev [round_of p + 2..<round_of v - 1])). round_of p + 2 \<le> i"
    using set_every_second [of "rev [round_of p + 2..<round_of v - 1]"] by auto
  moreover have "round_of p + 2 \<le> round_of v" using assms(4-6) by presburger
  ultimately show ?thesis
    using chain_reaches [OF assms(1-3)] every_second_below [OF assms(5,6,4)] assms(7)
    by (simp add: leaders_def)
qed

lemma leaders_agree:
  assumes "invar g" and "supported g p" and "supported g q"
    and "even (round_of p)" "even (round_of q)" and "round_of p \<noteq> 0" and "round_of p \<le> round_of q"
  shows "prefix (rev (leaders g p)) (rev (leaders g q))"
proof (cases "round_of p = round_of q")
  case True
  then have "p = q" using supported_leader [OF assms(1)] assms(2,3) by (metis option.inject)
  then show ?thesis by simp
next
  case False
  then have "leaders g q = (q # chain (at_round g) (reach g) (every_second (rev [round_of p + 2..<round_of q - 1])) q) @ leaders g p"
    using assms supported_leader [OF assms(1,3)] by (intro leaders_extend) auto
  then show ?thesis by (simp only: rev_append prefixI)
qed

end

end
