(* ===== verification/ReplicaDag.thy ===== *)
theory ReplicaDag
  imports LeaderChain
begin

text \<open>
  The DAG that replicas share and the part of it that one replica holds: what its cleanup keeps, and that its walk
  over past leaders finds exactly the chain of leaders of the shared DAG.
\<close>

section \<open>The certified DAG\<close>

text \<open>
  What two replicas can agree on in the certificates of a header: its author, round, id and parents, not the votes
  and not the signature.
\<close>

definition outline :: "certificate \<Rightarrow> header" where
  "outline x = (c_header x)\<lparr>h_payload := [], h_signature := signature_default\<rparr>"

lemma outline_simps [simp]:
  "h_round (outline x) = cert_round x" "h_author (outline x) = cert_origin x"
  "h_id (outline x) = h_id (c_header x)" "h_parents (outline x) = h_parents (c_header x)"
  by (simp_all add: outline_def cert_round_def cert_origin_def)

lemma outline_eq:
  assumes "outline x = outline y"
  shows "cert_round x = cert_round y" "cert_origin x = cert_origin y" "h_id (c_header x) = h_id (c_header y)"
    "cert_digest dk x = cert_digest dk y"
proof -
  show "cert_round x = cert_round y" "cert_origin x = cert_origin y" "h_id (c_header x) = h_id (c_header y)"
    using outline_simps [of x] outline_simps [of y] assms by metis+
  then show "cert_digest dk x = cert_digest dk y" by (simp add: cert_digest_def)
qed

definition leader_key :: "committee \<Rightarrow> round \<Rightarrow> public_key" where
  "leader_key c r = sort (names c) ! unat (r mod committee_size c)"

text \<open>The authors of the previous round that a certificate cites.\<close>

definition cited_authors :: "dalek \<Rightarrow> committee \<Rightarrow> certificate set \<Rightarrow> certificate \<Rightarrow> public_key set" where
  "cited_authors dk c G x =
     {n \<in> set (names c). \<exists>y \<in> G. slot y = (n, cert_round x - 1) \<and> cites x (cert_digest dk y)}"

text \<open>The authors of a round that cite a certificate.\<close>

definition citing_authors :: "dalek \<Rightarrow> committee \<Rightarrow> certificate set \<Rightarrow> round \<Rightarrow> certificate \<Rightarrow> public_key set" where
  "citing_authors dk c G r x = {n \<in> set (names c). \<exists>y \<in> G. slot y = (n, r) \<and> cites y (cert_digest dk x)}"

text \<open>
  Certificates of one slot, and certificates with one digest, have the same id and parents (that ids agree is what
  verification gives while less than a validity threshold is Byzantine), and from round 2 on a certificate cites a
  quorum of the round before.
\<close>

definition certified :: "dalek \<Rightarrow> committee \<Rightarrow> certificate set \<Rightarrow> bool" where
  "certified dk c G \<longleftrightarrow>
     committee_ok c \<and>
     (\<forall>x \<in> G. cert_round x \<noteq> 0 \<and> unat (cert_round x) < 2 ^ 63) \<and>
     (\<forall>x \<in> G. \<forall>y \<in> G. slot x = slot y \<longrightarrow> outline x = outline y) \<and>
     (\<forall>x \<in> G. \<forall>y \<in> G \<union> set (genesis c). cert_digest dk x = cert_digest dk y \<longrightarrow> outline x = outline y) \<and>
     (\<forall>x \<in> G. cert_round x \<noteq> 1 \<longrightarrow> unat (quorum_threshold c) \<le> sum (stake_nat c) (cited_authors dk c G x))"

lemma certifiedD:
  assumes "certified dk c G"
  shows "committee_ok c"
    and "x \<in> G \<Longrightarrow> cert_round x \<noteq> 0" and "x \<in> G \<Longrightarrow> unat (cert_round x) < 2 ^ 63"
    and "x \<in> G \<Longrightarrow> y \<in> G \<Longrightarrow> slot x = slot y \<Longrightarrow> outline x = outline y"
    and "x \<in> G \<Longrightarrow> y \<in> G \<or> y \<in> set (genesis c) \<Longrightarrow> cert_digest dk x = cert_digest dk y \<Longrightarrow> outline x = outline y"
    and "x \<in> G \<Longrightarrow> cert_round x \<noteq> 1 \<Longrightarrow> unat (quorum_threshold c) \<le> sum (stake_nat c) (cited_authors dk c G x)"
  using assms unfolding certified_def by blast+

text \<open>
  The DAG of the headers: a header is a parent of another one when a certificate of it is cited and it is of the
  previous round.
\<close>

definition parent_of :: "dalek \<Rightarrow> certificate set \<Rightarrow> header \<Rightarrow> header \<Rightarrow> bool" where
  "parent_of dk G h h' \<longleftrightarrow>
     (\<exists>y \<in> G. outline y = h' \<and> cert_digest dk y \<in> set (h_parents h)) \<and> Suc (unat (h_round h')) = unat (h_round h)"

definition leader_header :: "committee \<Rightarrow> certificate set \<Rightarrow> nat \<Rightarrow> header option" where
  "leader_header c G r =
     (if \<exists>x \<in> G. slot x = (leader_key c (word_of_nat r), word_of_nat r) \<and> unat (cert_round x) = r
      then Some (outline (SOME x. x \<in> G \<and> slot x = (leader_key c (word_of_nat r), word_of_nat r)))
      else None)"

definition supported_header :: "dalek \<Rightarrow> committee \<Rightarrow> certificate set \<Rightarrow> header \<Rightarrow> bool" where
  "supported_header dk c G h \<longleftrightarrow>
     (\<exists>x \<in> G. outline x = h \<and> cert_origin x = leader_key c (cert_round x) \<and>
        unat (validity_threshold c) \<le> sum (stake_nat c) (citing_authors dk c G (cert_round x + 1) x))"

lemma leader_header_Some:
  assumes "certified dk c G" and "x \<in> G" and "cert_origin x = leader_key c (cert_round x)"
  shows "leader_header c G (unat (cert_round x)) = Some (outline x)"
proof -
  let ?P = "\<lambda>y. y \<in> G \<and> slot y = (leader_key c (cert_round x), cert_round x)"
  have x: "?P x" using assms(2,3) by (simp add: slot_def)
  then have "?P (SOME y. ?P y)" by (rule someI)
  then have "outline (SOME y. ?P y) = outline x"
    using x by (intro certifiedD(4) [OF assms(1)]) auto
  then show ?thesis using x by (auto simp: leader_header_def)
qed

lemma leader_header_get:
  assumes "leader_header c G r = Some h"
  obtains x where "x \<in> G" "outline x = h" "cert_origin x = leader_key c (word_of_nat r)" "cert_round x = word_of_nat r"
    "unat (cert_round x) = r"
proof -
  let ?P = "\<lambda>y. y \<in> G \<and> slot y = (leader_key c (word_of_nat r), word_of_nat r)"
  have ex: "\<exists>x. ?P x" and "\<exists>x. ?P x \<and> unat (cert_round x) = r" and h: "h = outline (SOME y. ?P y)"
    using assms by (auto simp: leader_header_def split: if_splits)
  then have "?P (SOME y. ?P y)" and "unat (word_of_nat r :: round) = r"
    using someI_ex [OF ex] by (auto simp: slot_def)
  then show thesis using that [of "SOME y. ?P y"] h by (auto simp: slot_def)
qed

text \<open>Every later header has a path to a supported one.\<close>

lemma cited_parent:
  assumes "n \<in> cited_authors dk c G x" and "cert_round x \<noteq> 0"
  obtains y where "y \<in> G" "slot y = (n, cert_round x - 1)" "cites x (cert_digest dk y)"
    "parent_of dk G (outline x) (outline y)" "Suc (unat (cert_round y)) = unat (cert_round x)"
proof -
  obtain y where y: "y \<in> G" "slot y = (n, cert_round x - 1)" "cites x (cert_digest dk y)"
    using assms(1) by (auto simp: cited_authors_def)
  have "unat (cert_round x - 1) = unat (cert_round x) - 1" "unat (cert_round x) \<noteq> 0"
    using assms(2) by (simp_all add: unat_minus_one unat_eq_zero)
  then have "Suc (unat (cert_round y)) = unat (cert_round x)" using y(2) by (simp add: slot_def)
  moreover from this have "parent_of dk G (outline x) (outline y)"
    using y(1,3) by (auto simp: parent_of_def cites_def cert_round_def)
  ultimately show thesis using that y by blast
qed

lemma reaches_supported:
  assumes G: "certified dk c G" and w: "w \<in> G" and v: "v \<in> G"
    and support: "unat (validity_threshold c) \<le> sum (stake_nat c) (citing_authors dk c G (cert_round v + 1) v)"
    and "unat (cert_round v) + 2 \<le> unat (cert_round w)"
  shows "(parent_of dk G)\<^sup>*\<^sup>* (outline w) (outline v)"
  using w assms(5)
proof (induction "unat (cert_round w)" arbitrary: w rule: less_induct)
  case less
  note ok = certifiedD(1) [OF G]
  have "cert_round w \<noteq> 1" using less.prems(2) by auto
  note quorum = certifiedD(6) [OF G less.prems(1) this] and nz = certifiedD(2) [OF G less.prems(1)]
  show ?case
  proof (cases "unat (cert_round w) = unat (cert_round v) + 2")
    case True
    have "cited_authors dk c G w \<inter> citing_authors dk c G (cert_round v + 1) v \<noteq> {}"
      by (rule committee.quorum_meets_validity [OF ok _ _ quorum support])
        (auto simp: cited_authors_def citing_authors_def)
    then obtain n z where n: "n \<in> cited_authors dk c G w" and z: "z \<in> G" "slot z = (n, cert_round v + 1)"
      "cites z (cert_digest dk v)"
      by (auto simp: citing_authors_def)
    obtain y where y: "y \<in> G" "slot y = (n, cert_round w - 1)" "parent_of dk G (outline w) (outline y)"
      "Suc (unat (cert_round y)) = unat (cert_round w)"
      by (rule cited_parent [OF n nz])
    have v1: "unat (cert_round v + 1) = unat (cert_round v) + 1"
      using certifiedD(3) [OF G v] by (simp add: unat_add_no_wrap)
    then have "slot y = slot z" using y(2,4) z(2) True by (simp add: slot_def word_unat_eq_iff)
    then have "outline y = outline z" using certifiedD(4) [OF G y(1) z(1)] by blast
    moreover have "Suc (unat (cert_round v)) = unat (cert_round z)" using z(2) v1 by (simp add: slot_def)
    ultimately have "parent_of dk G (outline y) (outline v)"
      using z(3) v by (auto simp: parent_of_def cites_def cert_round_def)
    with y(3) show ?thesis by (meson converse_rtranclp_into_rtranclp rtranclp.rtrancl_refl)
  next
    case False
    have "cited_authors dk c G w \<noteq> {}" using quorum unat_quorum_threshold [OF ok] by auto
    then obtain n where "n \<in> cited_authors dk c G w" by blast
    then obtain y where y: "y \<in> G" "parent_of dk G (outline w) (outline y)" "Suc (unat (cert_round y)) = unat (cert_round w)"
      using cited_parent nz by metis
    have "(parent_of dk G)\<^sup>*\<^sup>* (outline y) (outline v)"
      using less.hyps [of y] y False less.prems(2) by auto
    with y(2) show ?thesis by (rule converse_rtranclp_into_rtranclp)
  qed
qed

interpretation dag_leaders: leader_chain "certified dk c" "\<lambda>G h. h \<in> outline ` G" "\<lambda>h. unat (h_round h)"
  "leader_header c" "\<lambda>G. (parent_of dk G)\<^sup>*\<^sup>*" "supported_header dk c" for dk c
proof unfold_locales
  fix G r v
  assume "leader_header c G r = Some v"
  then show "v \<in> outline ` G \<and> unat (h_round v) = r"
    by (elim leader_header_get) (auto simp: cert_round_def)
next
  fix G v
  assume "certified dk c G" "supported_header dk c G v"
  then show "v \<in> outline ` G \<and> leader_header c G (unat (h_round v)) = Some v"
    using leader_header_Some by (fastforce simp: supported_header_def cert_round_def)
next
  fix G w v
  assume G: "certified dk c G" and "w \<in> outline ` G" "supported_header dk c G v" "unat (h_round v) + 2 \<le> unat (h_round w)"
  then show "(parent_of dk G)\<^sup>*\<^sup>* w v"
    by (auto simp: supported_header_def cert_round_def intro: reaches_supported [OF G])
qed

section \<open>What cleanup keeps\<close>

definition kept :: "dalek \<Rightarrow> consensus_state \<Rightarrow> consensus_state \<Rightarrow> bool" where
  "kept dk st st' \<longleftrightarrow>
     (state_wf dk st \<longrightarrow>
        state_wf dk st' \<and> last_committed_round st \<le> last_committed_round st' \<and>
        dag_certs (dag st') \<subseteq> dag_certs (dag st) \<and>
        (\<forall>r n. last_committed_round st' \<le> r \<and> unat r < 2 ^ 63 \<longrightarrow> dag_get (dag st') r n = dag_get (dag st) r n))"

lemma kept_refl: "kept dk st st"
  by (simp add: kept_def)

lemma kept_trans: "kept dk st1 st2 \<Longrightarrow> kept dk st2 st3 \<Longrightarrow> kept dk st1 st3"
  by (auto simp: kept_def dest: order_trans)

lemma kept_update:
  assumes "unat depth < 2 ^ 63"
  shows "kept dk st (update depth x st)"
  unfolding kept_def
proof (intro impI conjI allI)
  assume wf: "state_wf dk st"
  note wf' = update_wf [OF wf, of depth x]
  show "state_wf dk (update depth x st)" by (rule wf')
  show "last_committed_round st \<le> last_committed_round (update depth x st)"
    unfolding last_committed_round_update [OF wf] by simp
  show "dag_certs (dag (update depth x st)) \<subseteq> dag_certs (dag st)"
    using dag_certs_update(1) [OF wf] by blast
  fix r n
  assume r: "last_committed_round (update depth x st) \<le> r \<and> unat r < 2 ^ 63"
  then have "unat (r + depth) = unat r + unat depth" using assms by (simp add: unat_add_no_wrap)
  then have "r \<le> r + depth" by (simp add: word_le_nat_alt)
  then have "last_committed_round (update depth x st) \<le> r + depth" using r by (meson order_trans)
  moreover have "\<not> r < q" if "map_of (last_committed (update depth x st)) n = Some q" for q
    using last_committed_le_round [OF wf' that] r by (meson leD order_trans)
  ultimately show "dag_get (dag (update depth x st)) r n = dag_get (dag st) r n"
    unfolding dag_get_update [OF wf] by auto
qed

lemma each_related:
  assumes "each f xs s = Ok (s', out)" and "\<And>s. R s s" and "\<And>s t u. R s t \<Longrightarrow> R t u \<Longrightarrow> R s u"
    and "\<And>x s s' out. f x s = Ok (s', out) \<Longrightarrow> R s s'"
  shows "R s s'"
  using assms(1)
proof (induction xs arbitrary: s out)
  case Nil
  then show ?case using assms(2) by simp
next
  case (Cons x xs)
  obtain s1 out1 out2 where "f x s = Ok (s1, out1)" "each f xs s1 = Ok (s', out2)"
    by (rule each_Cons_Ok [OF Cons.prems])
  then show ?case using assms(3,4) Cons.IH by blast
qed

lemma kept_leaders:
  assumes "each (commit_leader co) ls st = Ok (st', out)" and "unat (co_gc_depth co) < 2 ^ 63"
  shows "kept dk st st'"
proof (rule each_related [OF assms(1) kept_refl kept_trans])
  fix l s s' o'
  assume "commit_leader co l s = Ok (s', o')"
  then have run: "each (commit_one co) (order_dag co l s) s = Ok (s', o')" by (simp add: commit_leader_def)
  show "kept dk s s'"
    by (rule each_related [OF run kept_refl kept_trans])
      (use assms(2) in \<open>auto dest!: commit_one_Ok(1) intro: kept_update\<close>)
qed

section \<open>The DAG of a replica\<close>

text \<open>
  A replica that received \<open>xs\<close> still has their headers from its last committed round on (a certificate that came later for
  the same slot replaces one), and with a certificate it has received the headers that the certificate cites.
\<close>

definition replica :: "dalek \<Rightarrow> certificate set \<Rightarrow> certificate list \<Rightarrow> consensus_state \<Rightarrow> bool" where
  "replica dk G xs st \<longleftrightarrow>
     set xs \<subseteq> G \<and> dag_wf dk (dag st) \<and>
     (\<forall>x \<in> dag_certs (dag st). cert_round x \<noteq> 0 \<longrightarrow> x \<in> set xs) \<and>
     (\<forall>x \<in> set xs. last_committed_round st \<le> cert_round x \<longrightarrow>
        (\<exists>y. dag_get (dag st) (cert_round x) (cert_origin x) = Some (cert_digest dk x, y) \<and> outline y = outline x)) \<and>
     (\<forall>x \<in> set xs. \<forall>y \<in> G. cites x (cert_digest dk y) \<longrightarrow> outline y \<in> outline ` set xs)"

lemma replicaD:
  assumes "replica dk G xs st"
  shows "x \<in> set xs \<Longrightarrow> x \<in> G" and "dag_wf dk (dag st)"
    and "x \<in> dag_certs (dag st) \<Longrightarrow> cert_round x \<noteq> 0 \<Longrightarrow> x \<in> set xs"
    and "x \<in> set xs \<Longrightarrow> last_committed_round st \<le> cert_round x \<Longrightarrow>
      \<exists>y. dag_get (dag st) (cert_round x) (cert_origin x) = Some (cert_digest dk x, y) \<and> outline y = outline x"
    and "x \<in> set xs \<Longrightarrow> y \<in> G \<Longrightarrow> cites x (cert_digest dk y) \<Longrightarrow> outline y \<in> outline ` set xs"
  using assms unfolding replica_def by blast+

lemma parent_of_round: "parent_of dk G h h' \<Longrightarrow> unat (h_round h) = Suc (unat (h_round h'))"
  by (simp add: parent_of_def)

lemma reach_round: "(parent_of dk G)\<^sup>*\<^sup>* h h' \<Longrightarrow> unat (h_round h') < unat (h_round h) \<or> h' = h"
  by (induction rule: rtranclp_induct) (auto dest: parent_of_round)

text \<open>One step of the walk goes from headers to their parents.\<close>

lemma walk_back_parents:
  assumes R: "replica dk G xs st" and ps: "\<forall>x \<in> set ps. x \<in> set xs \<and> unat (cert_round x) = Suc k"
    and k: "unat (last_committed_round st) \<le> k" "k \<noteq> 0" and w: "unat (word_of_nat k :: round) = k"
    and run: "walk_back (dag st) (word_of_nat k # rs) ps = Ok res"
  obtains ps' where "walk_back (dag st) rs ps' = Ok res"
    "\<forall>y \<in> set ps'. y \<in> set xs \<and> unat (cert_round y) = k"
    "outline ` set ps' = {h. \<exists>x \<in> set ps. parent_of dk G (outline x) h}"
proof -
  obtain row where row: "map_of (dag st) (word_of_nat k) = Some row"
    using run by (auto split: option.splits)
  let ?kept = "map snd (filter (\<lambda>(h, _). \<exists>x \<in> set ps. h \<in> set (h_parents (c_header x))) (map snd row))"
  have kept: "y \<in> set ?kept \<longleftrightarrow> (\<exists>n h. dag_get (dag st) (word_of_nat k) n = Some (h, y) \<and> (\<exists>x \<in> set ps. cites x h))" for y
    using dag_row_get [OF replicaD(2) [OF R], where r = "word_of_nat k"] row
    by (force simp: dag_row_def cites_def image_iff)
  have good: "y \<in> set xs \<and> unat (cert_round y) = k \<and> (\<exists>x \<in> set ps. parent_of dk G (outline x) (outline y))"
    if y: "y \<in> set ?kept" for y
  proof -
    obtain n h x where get: "dag_get (dag st) (word_of_nat k) n = Some (h, y)" and x: "x \<in> set ps" "cites x h"
      using y unfolding kept by blast
    note yw = dag_get_wf [OF replicaD(2) [OF R] get]
    have round: "unat (cert_round y) = k" using yw(1) w by simp
    have "y \<in> dag_certs (dag st)" using get by (auto simp: dag_certs_def)
    then have xs: "y \<in> set xs" using replicaD(3) [OF R, of y] round k(2) by fastforce
    then have "parent_of dk G (outline x) (outline y)"
      using x yw(3) replicaD(1) [OF R xs] round ps by (auto simp: parent_of_def cites_def cert_round_def)
    then show ?thesis using xs round x(1) by blast
  qed
  moreover have "h \<in> outline ` set ?kept" if x: "x \<in> set ps" and p: "parent_of dk G (outline x) h" for x h
  proof -
    obtain y where y: "y \<in> G" "outline y = h" "cites x (cert_digest dk y)"
      using p by (auto simp: parent_of_def cites_def)
    then obtain z where z: "z \<in> set xs" "outline z = h" using replicaD(5) [OF R _ y(1,3)] x ps by auto
    have "unat (cert_round z) = k"
      using parent_of_round [OF p] x ps z(2) by (auto simp: cert_round_def)
    then have round: "cert_round z = word_of_nat k" using w by (simp add: word_unat_eq_iff)
    then have "last_committed_round st \<le> cert_round z" using k(1) w by (simp add: word_le_nat_alt)
    moreover have "cert_digest dk z = cert_digest dk y"
      using y(2) z(2) by (intro outline_eq) simp
    ultimately obtain z' where "dag_get (dag st) (word_of_nat k) (cert_origin z) = Some (cert_digest dk y, z')" "outline z' = h"
      using replicaD(4) [OF R z(1)] round z(2) by auto
    moreover from this have "z' \<in> set ?kept" unfolding kept using x y(3) by blast
    ultimately show ?thesis by blast
  qed
  ultimately have "outline ` set ?kept = {h. \<exists>x \<in> set ps. parent_of dk G (outline x) h}" by blast
  moreover have "walk_back (dag st) rs ?kept = Ok res" using run row by simp
  ultimately show thesis using that [of ?kept] good by blast
qed

lemma walk_back_reach:
  assumes "replica dk G xs st" and "\<forall>x \<in> set ps. x \<in> set xs \<and> unat (cert_round x) = n"
    and "unat (last_committed_round st) \<le> m" "m \<noteq> 0" "m \<le> n" "n < 2 ^ 63"
    and "walk_back (dag st) (map word_of_nat (rev [m..<n])) ps = Ok res"
  shows "set res \<subseteq> set xs \<and>
    outline ` set res = {h. unat (h_round h) = m \<and> (\<exists>x \<in> set ps. (parent_of dk G)\<^sup>*\<^sup>* (outline x) h)}"
  using assms(2,5-7)
proof (induction n arbitrary: ps)
  case 0
  then show ?case using assms(4) by simp
next
  case (Suc n)
  show ?case
  proof (cases "m = Suc n")
    case True
    have "unat (h_round h) < Suc n \<or> h = outline x" if "x \<in> set ps" "(parent_of dk G)\<^sup>*\<^sup>* (outline x) h" for x h
      using reach_round [OF that(2)] Suc.prems(1) that(1) by (auto simp: cert_round_def)
    then show ?thesis using Suc.prems True by (fastforce simp: cert_round_def)
  next
    case False
    then have rounds: "map word_of_nat (rev [m..<Suc n]) = word_of_nat n # map word_of_nat (rev [m..<n])"
      using Suc.prems(2) by simp
    have run: "walk_back (dag st) (word_of_nat n # map word_of_nat (rev [m..<n])) ps = Ok res"
      using Suc.prems(4) unfolding rounds .
    have n: "unat (last_committed_round st) \<le> n" "n \<noteq> 0" "unat (word_of_nat n :: round) = n"
      using assms(3,4) False Suc.prems(2,3) by auto
    obtain ps' where ps': "walk_back (dag st) (map word_of_nat (rev [m..<n])) ps' = Ok res"
      "\<forall>y \<in> set ps'. y \<in> set xs \<and> unat (cert_round y) = n"
      "outline ` set ps' = {h. \<exists>x \<in> set ps. parent_of dk G (outline x) h}"
      by (rule walk_back_parents [OF assms(1) Suc.prems(1) n run])
    have IH: "set res \<subseteq> set xs \<and>
        outline ` set res = {h. unat (h_round h) = m \<and> (\<exists>x \<in> set ps'. (parent_of dk G)\<^sup>*\<^sup>* (outline x) h)}"
      using Suc.IH [OF ps'(2) _ _ ps'(1)] Suc.prems(2,3) False by simp
    have "(\<exists>x \<in> set ps'. (parent_of dk G)\<^sup>*\<^sup>* (outline x) h) \<longleftrightarrow> (\<exists>x \<in> set ps. (parent_of dk G)\<^sup>*\<^sup>* (outline x) h)"
      if h: "unat (h_round h) = m" for h
    proof
      assume "\<exists>x \<in> set ps'. (parent_of dk G)\<^sup>*\<^sup>* (outline x) h"
      then obtain y where "y \<in> set ps'" "(parent_of dk G)\<^sup>*\<^sup>* (outline y) h" by blast
      moreover from this ps'(3) obtain x where "x \<in> set ps" "parent_of dk G (outline x) (outline y)" by blast
      ultimately show "\<exists>x \<in> set ps. (parent_of dk G)\<^sup>*\<^sup>* (outline x) h"
        by (meson converse_rtranclp_into_rtranclp)
    next
      assume "\<exists>x \<in> set ps. (parent_of dk G)\<^sup>*\<^sup>* (outline x) h"
      then obtain x where x: "x \<in> set ps" "(parent_of dk G)\<^sup>*\<^sup>* (outline x) h" by blast
      have "outline x \<noteq> h" using Suc.prems(1) x(1) h False by (auto simp: cert_round_def)
      then obtain h' where h': "parent_of dk G (outline x) h'" "(parent_of dk G)\<^sup>*\<^sup>* h' h"
        using x(2) by (auto elim: converse_rtranclpE)
      then have "h' \<in> outline ` set ps'" using ps'(3) x(1) by blast
      then show "\<exists>x \<in> set ps'. (parent_of dk G)\<^sup>*\<^sup>* (outline x) h" using h'(2) by blast
    qed
    then show ?thesis using IH by blast
  qed
qed

lemma linked_reach:
  assumes R: "replica dk G xs st" and G: "certified dk c G" and w: "w \<in> set xs" and p: "p \<in> set xs"
    and rounds: "unat (cert_round p) < unat (cert_round w)" "unat (last_committed_round st) \<le> unat (cert_round p)"
    and run: "linked w p (dag st) = Ok b"
  shows "b \<longleftrightarrow> (parent_of dk G)\<^sup>*\<^sup>* (outline w) (outline p)"
proof -
  have "rev (u64_range (cert_round p) (cert_round w)) = map word_of_nat (rev [unat (cert_round p)..<unat (cert_round w)])"
    by (simp add: u64_range_def rev_map)
  then obtain res where res: "walk_back (dag st) (map word_of_nat (rev [unat (cert_round p)..<unat (cert_round w)])) [w] = Ok res"
    and b: "b \<longleftrightarrow> (\<exists>x \<in> set res. cert_eq x p)"
    using run by (auto simp: linked_def and_then_Ok_iff)
  have G': "w \<in> G" "p \<in> G" using replicaD(1) [OF R] w p by auto
  then have "unat (cert_round p) \<noteq> 0" "unat (cert_round w) < 2 ^ 63"
    using certifiedD(2,3) [OF G] by (auto simp: unat_eq_zero)
  then have walk: "set res \<subseteq> set xs" "outline ` set res =
      {h. unat (h_round h) = unat (cert_round p) \<and> (\<exists>x \<in> set [w]. (parent_of dk G)\<^sup>*\<^sup>* (outline x) h)}"
    using walk_back_reach [OF R _ rounds(2) _ _ _ res] rounds(1) w by auto
  have "cert_eq x p \<longleftrightarrow> outline x = outline p" if "x \<in> set res" for x
  proof
    assume "cert_eq x p"
    then have "slot x = slot p" by (simp add: cert_eq_def slot_def)
    moreover have "x \<in> G" using that walk(1) replicaD(1) [OF R] by blast
    ultimately show "outline x = outline p" using certifiedD(4) [OF G _ G'(2)] by blast
  next
    assume "outline x = outline p"
    from outline_eq(1-3) [OF this] show "cert_eq x p" by (simp only: cert_eq_def)
  qed
  then have "b \<longleftrightarrow> (\<exists>x \<in> set res. outline x = outline p)" unfolding b by (intro bex_cong) auto
  then have "b \<longleftrightarrow> outline p \<in> outline ` set res" by (auto simp: image_iff eq_commute)
  then show ?thesis unfolding walk(2) by (simp add: cert_round_def)
qed

section \<open>The leaders of a commit\<close>

lemma leader_key_get:
  assumes "leader co r d = Ok found" and "co_committee co = c"
  shows "found = dag_get d r (leader_key c r)"
  using assms by (auto simp: leader_def leader_key_def Let_def split: if_splits)

text \<open>The leader of a round that a replica finds, or does not find, below a certificate.\<close>

lemma leader_of_round:
  assumes R: "replica dk G xs st" and G: "certified dk c G" and "co_committee co = c"
    and run: "leader co (word_of_nat k) (dag st) = Ok found"
    and k: "unat (last_committed_round st) \<le> k" "k \<noteq> 0" and w: "unat (word_of_nat k :: round) = k"
  shows "found = Some (h, p) \<Longrightarrow> p \<in> set xs \<and> unat (cert_round p) = k \<and> leader_header c G k = Some (outline p)"
    and "found = None \<Longrightarrow> leader_header c G k = Some q \<Longrightarrow> q \<notin> outline ` set xs"
proof -
  note found = leader_key_get [OF run assms(3)]
  show "p \<in> set xs \<and> unat (cert_round p) = k \<and> leader_header c G k = Some (outline p)" if "found = Some (h, p)"
  proof -
    have get: "dag_get (dag st) (word_of_nat k) (leader_key c (word_of_nat k)) = Some (h, p)" using found that by simp
    note pw = dag_get_wf [OF replicaD(2) [OF R] get]
    have "p \<in> dag_certs (dag st)" using get by (auto simp: dag_certs_def)
    moreover have "cert_round p \<noteq> 0" using pw(1) k(2) w by auto
    ultimately have "p \<in> set xs" by (rule replicaD(3) [OF R])
    moreover from this have "leader_header c G (unat (cert_round p)) = Some (outline p)"
      using pw replicaD(1) [OF R] by (intro leader_header_Some [OF G]) auto
    ultimately show ?thesis using pw(1) w by simp
  qed
  show "q \<notin> outline ` set xs" if none: "found = None" and q: "leader_header c G k = Some q"
  proof
    assume "q \<in> outline ` set xs"
    then obtain z where z: "z \<in> set xs" "outline z = q" by blast
    obtain x where x: "outline x = q" "cert_origin x = leader_key c (word_of_nat k)" "cert_round x = word_of_nat k"
      by (rule leader_header_get [OF q])
    have "cert_origin z = leader_key c (word_of_nat k)" "cert_round z = word_of_nat k"
      using x outline_eq(1,2) [of z x] z(2) by simp_all
    moreover have "last_committed_round st \<le> word_of_nat k" using k(1) w by (simp add: word_le_nat_alt)
    ultimately show False using replicaD(4) [OF R z(1)] found none by auto
  qed
qed

text \<open>A replica has the headers on every path down from what it received.\<close>

lemma received_closed:
  assumes R: "replica dk G xs st" and "(parent_of dk G)\<^sup>*\<^sup>* (outline w) h" and "w \<in> set xs"
  shows "h \<in> outline ` set xs"
  using assms(2)
proof (induction rule: rtranclp_induct)
  case base
  then show ?case using assms(3) by simp
next
  case (step h1 h2)
  then obtain x y where "x \<in> set xs" "h1 = outline x" "y \<in> G" "outline y = h2" "cites x (cert_digest dk y)"
    by (auto simp: parent_of_def cites_def)
  then show ?case using replicaD(5) [OF R] by blast
qed

lemma past_leaders_chain:
  assumes R: "replica dk G xs st" and G: "certified dk c G" and co: "co_committee co = c"
    and "past_leaders co (dag st) (map word_of_nat ks) w acc = Ok ls" and "w \<in> set xs"
    and "sorted_wrt (>) ks" and "\<forall>k \<in> set ks. unat (last_committed_round st) \<le> k \<and> k \<noteq> 0 \<and> k < unat (cert_round w)"
  shows "map outline ls = map outline acc @ chain (leader_header c G) (parent_of dk G)\<^sup>*\<^sup>* ks (outline w)"
  using assms(4-7)
proof (induction ks arbitrary: w acc)
  case Nil
  then show ?case by simp
next
  case (Cons k ks)
  have lt: "k < 2 ^ 63" using certifiedD(3) [OF G replicaD(1) [OF R Cons.prems(2)]] Cons.prems(4) by auto
  then have word: "unat (word_of_nat k :: round) = k" by simp
  have k: "unat (last_committed_round st) \<le> k" "k \<noteq> 0" "k < unat (cert_round w)" using Cons.prems(4) by auto
  have ks: "sorted_wrt (>) ks"
    "\<forall>i \<in> set ks. unat (last_committed_round st) \<le> i \<and> i \<noteq> 0 \<and> i < unat (cert_round w)" "\<forall>i \<in> set ks. i < k"
    using Cons.prems(3,4) by auto
  obtain found where found: "leader co (word_of_nat k) (dag st) = Ok found"
    using Cons.prems(1) by (auto simp: and_then_Ok_iff)
  note looked = leader_of_round [OF R G co found k(1,2) word]
  show ?case
  proof (cases found)
    case None
    then have "past_leaders co (dag st) (map word_of_nat ks) w acc = Ok ls" using Cons.prems(1) found by simp
    from Cons.IH [OF this Cons.prems(2) ks(1,2)] show ?thesis
      using looked(2) [OF None] received_closed [OF R _ Cons.prems(2)] by (auto split: option.splits)
  next
    case (Some hp)
    obtain h p where hp: "hp = (h, p)" by (cases hp)
    have p: "p \<in> set xs" "unat (cert_round p) = k" "leader_header c G k = Some (outline p)"
      using looked(1) Some hp by auto
    obtain path where path: "linked w p (dag st) = Ok path"
      using Cons.prems(1) found Some hp by (auto simp: and_then_Ok_iff)
    have reach: "path \<longleftrightarrow> (parent_of dk G)\<^sup>*\<^sup>* (outline w) (outline p)"
      by (rule linked_reach [OF R G Cons.prems(2) p(1) _ _ path]) (use p(2) k in auto)
    show ?thesis
    proof (cases path)
      case True
      then have "past_leaders co (dag st) (map word_of_nat ks) p (acc @ [p]) = Ok ls"
        using Cons.prems(1) found Some hp path by simp
      from Cons.IH [OF this p(1) ks(1)] show ?thesis
        using True reach p ks(2,3) by simp
    next
      case False
      then have "past_leaders co (dag st) (map word_of_nat ks) w acc = Ok ls"
        using Cons.prems(1) found Some hp path by simp
      from Cons.IH [OF this Cons.prems(2) ks(1,2)] show ?thesis using False reach p(3) by simp
    qed
  qed
qed

lemma order_leaders_chain:
  assumes R: "replica dk G xs st" and G: "certified dk c G" and co: "co_committee co = c"
    and run: "order_leaders co w st = Ok ls" and w: "w \<in> set xs" "2 \<le> unat (cert_round w)"
    and low: "unat (last_committed_round st) < 2 ^ 63"
  shows "map outline ls = outline w # chain (leader_header c G) (parent_of dk G)\<^sup>*\<^sup>*
    (every_second (rev [unat (last_committed_round st) + 2..<unat (cert_round w) - 1])) (outline w)"
proof -
  let ?ks = "rev [unat (last_committed_round st) + 2..<unat (cert_round w) - 1]"
  have "unat (last_committed_round st + 2) = unat (last_committed_round st) + 2"
    using low by (simp add: unat_add_no_wrap)
  moreover have "Suc (unat (cert_round w - 2)) = unat (cert_round w) - 1"
    using w(2) by (subst unat_sub) (simp_all add: word_le_nat_alt)
  ultimately have "u64_range_incl (last_committed_round st + 2) (cert_round w - 2) = map word_of_nat (rev ?ks)"
    unfolding u64_range_incl_def by simp
  then have "past_leaders co (dag st) (map word_of_nat (every_second ?ks)) w [w] = Ok ls"
    using run by (simp add: order_leaders_def rev_map every_second_map)
  moreover have "sorted_wrt (>) (every_second ?ks)"
    by (intro sorted_every_second) (simp add: sorted_wrt_rev del: upt_Suc)
  moreover have "\<forall>k \<in> set (every_second ?ks). unat (last_committed_round st) \<le> k \<and> k \<noteq> 0 \<and> k < unat (cert_round w)"
    using set_every_second [of ?ks] by (auto dest!: subsetD)
  ultimately show ?thesis using past_leaders_chain [OF R G co _ w(1)] by fastforce
qed

text \<open>The leaders that a step commits, oldest first: the guards of \<open>try_commit\<close> and the list it goes through.\<close>

definition step_leaders :: "consensus \<Rightarrow> certificate \<Rightarrow> consensus_state \<Rightarrow> certificate list" where
  "step_leaders co x st =
     (let d = dag_insert (co_crypto co) x (dag st); r = cert_round x - 1 in
      if r mod 2 \<noteq> 0 \<or> r < 4 \<or> r - 2 \<le> last_committed_round st \<or> leader_selected co (r - 2) \<noteq> Ok True then []
      else case leader co (r - 2) d of
        Inr (Some (h, ldr)) \<Rightarrow>
          (case map_of d (r - 1) of
             None \<Rightarrow> []
           | Some row \<Rightarrow>
               if support_stake (co_committee co) row h < validity_threshold (co_committee co) then []
               else case order_leaders co ldr (st\<lparr>dag := d\<rparr>) of Inl _ \<Rightarrow> [] | Inr ls \<Rightarrow> rev ls)
      | _ \<Rightarrow> [])"

fun run_leaders :: "consensus \<Rightarrow> certificate list \<Rightarrow> consensus_state \<Rightarrow> certificate list" where
  "run_leaders co [] st = []"
| "run_leaders co (x # xs) st =
     (case consensus_step co x st of
        Inl _ \<Rightarrow> []
      | Inr (st', _) \<Rightarrow> step_leaders co x st @ run_leaders co xs st')"

definition committed_leaders :: "consensus \<Rightarrow> certificate list \<Rightarrow> certificate list" where
  "committed_leaders co xs = run_leaders co xs (state_new (co_crypto co) (co_genesis co))"

lemma step_leaders_cases:
  assumes "consensus_step co x st = Ok (st', out)"
  obtains (none) "step_leaders co x st = []" "st' = st\<lparr>dag := dag_insert (co_crypto co) x (dag st)\<rparr>" "out = []"
  | (commit) h ldr row ls where "(cert_round x - 1) mod 2 = 0" "4 \<le> cert_round x - 1"
      "last_committed_round st < cert_round x - 3"
      "commits co (cert_round x - 1) (st\<lparr>dag := dag_insert (co_crypto co) x (dag st)\<rparr>) h ldr row ls"
      "step_leaders co x st = rev ls"
      "each (commit_leader co) (rev ls) (st\<lparr>dag := dag_insert (co_crypto co) x (dag st)\<rparr>) = Ok (st', out)"
proof -
  let ?st = "st\<lparr>dag := dag_insert (co_crypto co) x (dag st)\<rparr>" and ?r = "cert_round x - 1"
  have tc: "try_commit co (cert_round x) ?st = Ok (st', out)" using assms by (simp add: consensus_step_def)
  show thesis
  proof (cases "?r mod 2 \<noteq> 0 \<or> ?r < 4 \<or> ?r - 2 \<le> last_committed_round st")
    case True
    then show thesis using tc none by (auto simp: try_commit_def step_leaders_def Let_def split: if_splits)
  next
    case False
    then have r: "?r mod 2 = 0" "4 \<le> ?r" "last_committed_round st < cert_round x - 3" by (auto simp: not_le not_less)
    have "commit_round co ?r ?st = Ok (st', out)" using tc False by (simp add: try_commit_def Let_def)
    then consider (a) h ldr row ls where "commits co ?r ?st h ldr row ls" "each (commit_leader co) (rev ls) ?st = Ok (st', out)"
      | (b) "st' = ?st" "out = []" "leader_selected co (?r - 2) = Ok False \<or> leader co (?r - 2) (dag ?st) = Ok None \<or>
          (\<exists>h ldr row. leader co (?r - 2) (dag ?st) = Ok (Some (h, ldr)) \<and> map_of (dag ?st) (?r - 1) = Some row \<and>
             support_stake (co_committee co) row h < validity_threshold (co_committee co))"
      unfolding commit_round_Ok by blast
    then show thesis
    proof cases
      case a
      then have "step_leaders co x st = rev ls"
        using False by (auto simp: step_leaders_def commits_def Let_def)
      from commit [OF r a(1) this a(2)] show thesis .
    next
      case b
      then have "step_leaders co x st = []" by (auto simp: step_leaders_def Let_def)
      then show thesis using none b by blast
    qed
  qed
qed

text \<open>What a step outputs and the state it leaves is what committing these leaders, in order, gives.\<close>

lemma step_commits_leaders:
  "consensus_step co x st = Ok (st', out) \<Longrightarrow>
   each (commit_leader co) (step_leaders co x st) (st\<lparr>dag := dag_insert (co_crypto co) x (dag st)\<rparr>) = Ok (st', out)"
  by (erule step_leaders_cases) simp_all

end
