(* ===== verification/LeaderAgreement.thy ===== *)
theory LeaderAgreement
  imports ReplicaDag
begin

text \<open>
  Agreement of two replicas on the leaders they commit. Both replicas see part of the same certified DAG,
  each in its own causal order, and each cleans up its own copy; the leaders they commit, in order, are
  prefixes of one sequence.
\<close>

section \<open>A replica commits along one chain\<close>

definition on_chain :: "dalek \<Rightarrow> committee \<Rightarrow> certificate set \<Rightarrow> consensus_state \<Rightarrow> header list \<Rightarrow> bool" where
  "on_chain dk c G st hs \<longleftrightarrow>
     (if last_committed_round st = 0 then hs = []
      else \<exists>v. supported_header dk c G v \<and> h_round v = last_committed_round st \<and> even (unat (h_round v)) \<and>
        hs = rev (leader_chain.leaders (\<lambda>h. unat (h_round h)) (leader_header c) (\<lambda>G. (parent_of dk G)\<^sup>*\<^sup>*) G v))"

lemma replica_insert:
  assumes "replica dk G xs st" and G: "certified dk c G" and "x \<in> G"
    and "\<forall>y \<in> G. cites x (cert_digest dk y) \<longrightarrow> outline y \<in> outline ` set (xs @ [x])"
  shows "replica dk G (xs @ [x]) (st\<lparr>dag := dag_insert dk x (dag st)\<rparr>)"
proof -
  note R = replicaD [OF assms(1)]
  have certs: "dag_certs (dag_insert dk x (dag st)) \<subseteq> insert x (dag_certs (dag st))"
    by (auto simp: dag_certs_def dag_get_insert split: if_splits)
  show ?thesis
    unfolding replica_def
  proof (intro conjI ballI impI)
    show "set (xs @ [x]) \<subseteq> G" using R(1) assms(3) by auto
    show "dag_wf dk (dag (st\<lparr>dag := dag_insert dk x (dag st)\<rparr>))" using R(2) by (simp add: wf_intros)
    show "y \<in> set (xs @ [x])" if "y \<in> dag_certs (dag (st\<lparr>dag := dag_insert dk x (dag st)\<rparr>))" "cert_round y \<noteq> 0" for y
      using that certs R(3) by auto
    show "\<exists>z. dag_get (dag (st\<lparr>dag := dag_insert dk x (dag st)\<rparr>)) (cert_round y) (cert_origin y) = Some (cert_digest dk y, z) \<and>
        outline z = outline y"
      if y: "y \<in> set (xs @ [x])" "last_committed_round (st\<lparr>dag := dag_insert dk x (dag st)\<rparr>) \<le> cert_round y" for y
    proof (cases "slot y = slot x")
      case True
      have "outline x = outline y" using y(1) R(1) assms(3) True by (intro certifiedD(4) [OF G]) auto
      then show ?thesis using outline_eq [of x y] by (simp add: dag_get_insert)
    next
      case False
      then have "y \<in> set xs" using y(1) by auto
      then show ?thesis using False R(4) y(2) by (auto simp: dag_get_insert slot_def)
    qed
    show "outline z \<in> outline ` set (xs @ [x])" if "y \<in> set (xs @ [x])" "z \<in> G" "cites y (cert_digest dk z)" for y z
      using that R(5) [of y z] assms(4) by (cases "y = x") auto
  qed
qed

lemma replica_kept:
  assumes "replica dk G xs st" and "kept dk st st'" and "state_wf dk st" and "\<forall>x \<in> set xs. unat (cert_round x) < 2 ^ 63"
  shows "replica dk G xs st'"
  unfolding replica_def
proof (intro conjI ballI impI)
  have st': "state_wf dk st'" "last_committed_round st \<le> last_committed_round st'"
    "dag_certs (dag st') \<subseteq> dag_certs (dag st)"
    "last_committed_round st' \<le> r \<Longrightarrow> unat r < 2 ^ 63 \<Longrightarrow> dag_get (dag st') r n = dag_get (dag st) r n" for r n
    using assms(2,3) by (simp_all add: kept_def)
  then show "dag_wf dk (dag st')" by (simp add: state_wf_def)
  show "x \<in> set xs" if "x \<in> dag_certs (dag st')" "cert_round x \<noteq> 0" for x
    using that st'(3) replicaD(3) [OF assms(1)] by blast
  show "\<exists>y. dag_get (dag st') (cert_round x) (cert_origin x) = Some (cert_digest dk x, y) \<and> outline y = outline x"
    if "x \<in> set xs" "last_committed_round st' \<le> cert_round x" for x
    using that st'(2,4) replicaD(4) [OF assms(1), of x] assms(4) by (auto dest: order_trans)
qed (use replicaD(1,5) [OF assms(1)] in blast)+

lemma supported_leader_header:
  assumes R: "replica dk G xs st" and ok: "committee_ok c" and co: "co_committee co = c"
    and k: "commits co r st h ldr row ls" and nz: "r - 2 \<noteq> 0" "r - 1 \<noteq> 0"
  shows "supported_header dk c G (outline ldr)" and "ldr \<in> set xs" and "cert_round ldr = r - 2"
proof -
  have run: "leader co (r - 2) (dag st) = Ok (Some (h, ldr))" and row: "map_of (dag st) (r - 1) = Some row"
    and support: "validity_threshold c \<le> support_stake c row h"
    using k by (simp_all add: commits_def co)
  note ldr = leader_in_dag [OF run replicaD(2) [OF R]]
  show xs: "ldr \<in> set xs" using replicaD(3) [OF R ldr(2)] ldr(1) nz(1) by simp
  show "cert_round ldr = r - 2" by (rule ldr(1))
  have "dag_get (dag st) (r - 2) (leader_key c (r - 2)) = Some (h, ldr)" using leader_key_get [OF run co] by simp
  from dag_get_wf(1,2) [OF replicaD(2) [OF R] this] have origin: "cert_origin ldr = leader_key c (cert_round ldr)" by simp
  have "supporters c (dag st) (r - 1) h \<subseteq> citing_authors dk c G (cert_round ldr + 1) ldr"
  proof
    fix n
    assume "n \<in> supporters c (dag st) (r - 1) h"
    then obtain h' y where y: "n \<in> set (names c)" "dag_get (dag st) (r - 1) n = Some (h', y)" "cites y h"
      by (auto simp: supporters_def)
    note yw = dag_get_wf [OF replicaD(2) [OF R] y(2)]
    have "y \<in> dag_certs (dag st)" using y(2) by (auto simp: dag_certs_def)
    then have "y \<in> G" using replicaD(1,3) [OF R] yw(1) nz(2) by simp
    moreover have "slot y = (n, cert_round ldr + 1)" using yw(1,2) ldr(1) by (simp add: slot_def)
    ultimately show "n \<in> citing_authors dk c G (cert_round ldr + 1) ldr"
      using y(1,3) ldr(3) by (auto simp: citing_authors_def)
  qed
  then have "sum (stake_nat c) (supporters c (dag st) (r - 1) h) \<le> sum (stake_nat c) (citing_authors dk c G (cert_round ldr + 1) ldr)"
    by (intro sum_mono2) (auto simp: citing_authors_def)
  moreover have "unat (validity_threshold c) \<le> sum (stake_nat c) (supporters c (dag st) (r - 1) h)"
    using support support_stake_supporters [OF ok replicaD(2) [OF R] row] by (simp add: word_le_nat_alt)
  ultimately show "supported_header dk c G (outline ldr)"
    using replicaD(1) [OF R xs] origin by (auto simp: supported_header_def)
qed

lemma on_chain_commit:
  assumes G: "certified dk c G" and chain: "on_chain dk c G st hs"
    and new: "supported_header dk c G (outline ldr)" "even (unat (cert_round ldr))" "cert_round ldr \<noteq> 0"
      "last_committed_round st < cert_round ldr" "last_committed_round st' = cert_round ldr"
    and ls: "map outline ls = outline ldr # chain (leader_header c G) (parent_of dk G)\<^sup>*\<^sup>*
      (every_second (rev [unat (last_committed_round st) + 2..<unat (cert_round ldr) - 1])) (outline ldr)"
  shows "on_chain dk c G st' (hs @ map outline (rev ls))"
proof -
  let ?leaders = "leader_chain.leaders (\<lambda>h. unat (h_round h)) (leader_header c) (\<lambda>G. (parent_of dk G)\<^sup>*\<^sup>*) G"
  have round: "h_round (outline ldr) = cert_round ldr" by (simp add: cert_round_def)
  have "map outline ls @ rev hs = ?leaders (outline ldr)"
  proof (cases "last_committed_round st = 0")
    case True
    have "unat (cert_round ldr) > 0" using new(3) by (simp add: unat_gt_0)
    then have "below (unat (cert_round ldr)) = every_second (rev [0 + 2..<unat (cert_round ldr) - 1])"
      using every_second_below [of 0 "unat (cert_round ldr)"] new(2) by simp
    then show ?thesis using ls chain True by (simp add: on_chain_def dag_leaders.leaders_def round)
  next
    case False
    then obtain v where v: "supported_header dk c G v" "h_round v = last_committed_round st" "even (unat (h_round v))"
      "hs = rev (?leaders v)"
      using chain by (auto simp: on_chain_def)
    have "?leaders (outline ldr) = (outline ldr # chain (leader_header c G) (parent_of dk G)\<^sup>*\<^sup>*
        (every_second (rev [unat (h_round v) + 2..<unat (h_round (outline ldr)) - 1])) (outline ldr)) @ ?leaders v"
      using new(1,2,4) v(1-3) False dag_leaders.supported_leader [OF G new(1)]
      by (intro dag_leaders.leaders_extend [OF G]) (auto simp: round word_less_nat_alt unat_eq_zero)
    then show ?thesis using ls v(2,4) by (simp add: round)
  qed
  then have "hs @ map outline (rev ls) = rev (?leaders (outline ldr))"
    by (metis rev_append rev_map rev_rev_ident)
  then show ?thesis using new(1,2,3,5) round unfolding on_chain_def by auto
qed

lemma even_leader_round:
  fixes rnd :: round
  assumes "(rnd - 1) mod 2 = 0" and "4 \<le> rnd - 1"
  shows "even (unat (rnd - 3))"
proof -
  have "unat (rnd - 1) mod 2 = 0" using arg_cong [OF assms(1), of unat] by (simp add: unat_mod)
  then have "even (unat rnd - 1)" using commit_rounds(2) [OF assms] by presburger
  then show ?thesis using commit_rounds(1,4) [OF assms] by presburger
qed

text \<open>
  What a commit needs of the state, and that it moves the last committed round to the round of its newest leader. Unlike
  \<open>commit_inv\<close>, this does not ask that a slot is delivered once.
\<close>

definition bounded :: "dalek \<Rightarrow> consensus_state \<Rightarrow> bool" where
  "bounded dk st \<longleftrightarrow> state_wf dk st \<and> unat (last_committed_round st) < 2 ^ 63 \<and>
     (\<forall>x \<in> dag_certs (dag st). unat (cert_round x) < 2 ^ 63)"

lemma commit_inv_bounded: "commit_inv co D st out \<Longrightarrow> bounded (co_crypto co) st"
  by (simp add: bounded_def commit_inv_def)

lemma bounded_wf:
  assumes "bounded dk st"
  shows "state_wf dk st" "dag_wf dk (dag st)" "last_round_free (dag st)"
proof -
  show "state_wf dk st" "dag_wf dk (dag st)" using assms by (simp_all add: bounded_def state_wf_def)
  have "unat (- 1 :: round) = 2 ^ 64 - 1" by (simp add: unsigned_minus_1_eq_mask mask_eq_exp_minus_1)
  then show "last_round_free (dag st)" using assms by (fastforce simp: bounded_def last_round_free_def)
qed

lemma bounded_insert:
  assumes "bounded dk st" and "unat (cert_round x) < 2 ^ 63"
  shows "bounded dk (st\<lparr>dag := dag_insert dk x (dag st)\<rparr>)"
proof -
  have "y = x \<or> y \<in> dag_certs (dag st)" if "y \<in> dag_certs (dag_insert dk x (dag st))" for y
    using that by (auto simp: dag_certs_def dag_get_insert split: if_splits)
  then have "\<forall>y \<in> dag_certs (dag_insert dk x (dag st)). unat (cert_round y) < 2 ^ 63"
    using assms unfolding bounded_def by blast
  then show ?thesis using assms insert_state_wf by (simp add: bounded_def)
qed

lemma bounded_each:
  assumes "each (commit_one co) xs st = Ok (st', out)" and "bounded dk st"
    and "\<forall>x \<in> set xs. cert_round x \<le> b" "last_committed_round st \<le> b" "unat b < 2 ^ 63"
  shows "bounded dk st' \<and> last_committed_round st \<le> last_committed_round st' \<and> last_committed_round st' \<le> b \<and>
    (\<forall>x \<in> set xs. cert_round x \<le> last_committed_round st')"
  using assms
proof (induction xs arbitrary: st out)
  case Nil
  then show ?case by simp
next
  case (Cons x xs)
  obtain st1 out1 out2 where step: "commit_one co x st = Ok (st1, out1)" "each (commit_one co) xs st1 = Ok (st', out2)"
    by (rule each_Cons_Ok [OF Cons.prems(1)])
  have st1: "st1 = update (co_gc_depth co) x st" by (rule commit_one_Ok(1) [OF step(1)])
  note wf = bounded_wf(1) [OF Cons.prems(2)]
  note lcr = last_committed_round_update [OF wf, of "co_gc_depth co" x, folded st1]
  have le: "last_committed_round st1 \<le> b" using Cons.prems(3,4) by (simp add: lcr)
  then have "unat (last_committed_round st1) < 2 ^ 63" using Cons.prems(5) by (simp add: word_le_nat_alt)
  then have "bounded dk st1"
    using Cons.prems(2) update_wf [OF wf] dag_certs_update(1) [OF wf] unfolding bounded_def st1 by blast
  from Cons.IH [OF step(2) this _ le Cons.prems(5)] Cons.prems(3) show ?case by (auto simp: lcr)
qed

lemma bounded_leader:
  assumes "commit_leader co l st = Ok (st', out)" and "bounded dk st" and "unat (co_gc_depth co) < 2 ^ 63"
    and "last_committed_round st < cert_round l" "unat (cert_round l) < 2 ^ 63"
  shows "bounded dk st' \<and> last_committed_round st' = cert_round l"
proof -
  note wf = bounded_wf(2,3) [OF assms(2)]
  have "cert_round x \<le> cert_round l" if "x \<in> set (order_dag co l st)" for x
    using order_dag_subset [OF wf(1) that] reached_round [OF wf] by (auto intro: less_imp_le)
  from bounded_each [OF assms(1) [unfolded commit_leader_def] assms(2) _ less_imp_le [OF assms(4)] assms(5)] this
  have "bounded dk st'" "last_committed_round st' \<le> cert_round l"
    "\<forall>x \<in> set (order_dag co l st). cert_round x \<le> last_committed_round st'" by blast+
  moreover have "l \<in> set (order_dag co l st)" by (rule leader_in_order_dag [OF wf(1) assms(4)]) (use assms(3,5) in simp)
  ultimately show ?thesis by (auto intro: antisym)
qed

lemma bounded_leaders:
  assumes "each (commit_leader co) ls st = Ok (st', out)" and "bounded dk st" and "unat (co_gc_depth co) < 2 ^ 63"
    and "sorted_wrt (\<lambda>x y. cert_round x < cert_round y) ls"
    and "\<forall>l \<in> set ls. last_committed_round st < cert_round l \<and> unat (cert_round l) < 2 ^ 63"
  shows "bounded dk st' \<and> (ls \<noteq> [] \<longrightarrow> last_committed_round st' = cert_round (last ls))"
  using assms(1,2,4,5)
proof (induction ls arbitrary: st out)
  case Nil
  then show ?case by simp
next
  case (Cons l ls)
  obtain st1 out1 out2 where step: "commit_leader co l st = Ok (st1, out1)" "each (commit_leader co) ls st1 = Ok (st', out2)"
    by (rule each_Cons_Ok [OF Cons.prems(1)])
  have l: "bounded dk st1" "last_committed_round st1 = cert_round l"
    using bounded_leader [OF step(1) Cons.prems(2) assms(3)] Cons.prems(4) by simp_all
  have "st' = st1" if "ls = []" using step(2) that by simp
  then show ?case using Cons.IH [OF step(2) l(1)] Cons.prems(3,4) l by auto
qed

lemma replica_step:
  assumes G: "certified dk c G" and co: "co_crypto co = dk" "co_committee co = c" "unat (co_gc_depth co) < 2 ^ 63"
    and B: "bounded dk st" and R: "replica dk G xs st" and chain: "on_chain dk c G st hs"
    and x: "x \<in> G" "\<forall>y \<in> G. cites x (cert_digest dk y) \<longrightarrow> outline y \<in> outline ` set (xs @ [x])"
    and step: "consensus_step co x st = Ok (st', out)"
  shows "bounded dk st' \<and> replica dk G (xs @ [x]) st' \<and> on_chain dk c G st' (hs @ map outline (step_leaders co x st))"
proof -
  let ?st = "st\<lparr>dag := dag_insert dk x (dag st)\<rparr>"
  have R': "replica dk G (xs @ [x]) ?st" by (rule replica_insert [OF R G x])
  have B': "bounded dk ?st" by (rule bounded_insert [OF B certifiedD(3) [OF G x(1)]])
  have chain': "on_chain dk c G ?st hs" using chain by (simp add: on_chain_def)
  from step show ?thesis
  proof (cases rule: step_leaders_cases)
    case none
    then show ?thesis using R' B' chain' co(1) by simp
  next
    case (commit h ldr row ls)
    note commit = commit [unfolded co(1)]
    have k: "order_leaders co ldr ?st = Ok ls" using commit(4) by (simp add: commits_def)
    have low: "last_committed_round ?st < cert_round x - 3" and top: "unat (last_committed_round ?st) < 2 ^ 63"
      using commit(3) B by (simp_all add: bounded_def)
    note rounds = commit_rounds [OF commit(1,2)] and ev = even_leader_round [OF commit(1,2)]
    have nz: "cert_round x - 1 - 2 \<noteq> 0" "cert_round x - 1 - 1 \<noteq> 0" using rounds by auto
    note ldr = supported_leader_header [OF R' certifiedD(1) [OF G] co(2) commit(4) nz]
    have round: "cert_round ldr = cert_round x - 3" using ldr(3) by simp
    have "2 \<le> cert_round ldr" using rounds round by (simp add: word_le_nat_alt)
    then have ls: "sorted_wrt (\<lambda>x y. cert_round x < cert_round y) (rev ls)" "last (rev ls) = ldr" "ls \<noteq> []"
      "\<forall>l \<in> set ls. last_committed_round ?st < cert_round l \<and> (l = ldr \<or> l \<in> dag_certs (dag ?st))"
      using order_leaders_rounds [OF k bounded_wf(2) [OF B']] low top round by auto
    have "unat (cert_round ldr) < 2 ^ 63" using replicaD(1) [OF R' ldr(2)] certifiedD(3) [OF G] by blast
    then have small: "\<forall>l \<in> set (rev ls). last_committed_round ?st < cert_round l \<and> unat (cert_round l) < 2 ^ 63"
      using ls(4) B' unfolding bounded_def by auto
    have after: "bounded dk st'" "last_committed_round st' = cert_round ldr"
      using bounded_leaders [OF commit(6) B' co(3) ls(1) small] ls(2,3) by simp_all
    have "kept dk ?st st'" by (rule kept_leaders [OF commit(6) co(3)])
    then have "replica dk G (xs @ [x]) st'"
      using bounded_wf(1) [OF B'] certifiedD(3) [OF G] replicaD(1) [OF R'] by (intro replica_kept [OF R']) auto
    moreover have "map outline ls = outline ldr # chain (leader_header c G) (parent_of dk G)\<^sup>*\<^sup>*
        (every_second (rev [unat (last_committed_round ?st) + 2..<unat (cert_round ldr) - 1])) (outline ldr)"
      using rounds round top by (intro order_leaders_chain [OF R' G co(2) k ldr(2)]) auto
    then have "on_chain dk c G st' (hs @ map outline (rev ls))"
      using low after(2) ev round nz by (intro on_chain_commit [OF G chain' ldr(1)]) auto
    ultimately show ?thesis using commit(5) after(1) by simp
  qed
qed

lemma causal_parents:
  assumes "causally_delivered dk K (xs @ x # ys)" and "p \<in> set (h_parents (c_header x))"
  shows "p \<in> K \<or> (\<exists>y \<in> set xs. cert_digest dk y = p)"
  using assms
proof (induction xs arbitrary: K)
  case Nil
  then show ?case by auto
next
  case (Cons z xs)
  then show ?case using Cons.IH [of "insert (cert_digest dk z) K"] by auto
qed

lemma causal_closed:
  assumes G: "certified dk c G" and "causally_delivered dk (cert_digest dk ` set (genesis c)) (xs @ x # ys)"
    and "set xs \<subseteq> G"
  shows "\<forall>y \<in> G. cites x (cert_digest dk y) \<longrightarrow> outline y \<in> outline ` set (xs @ [x])"
proof (intro ballI impI)
  fix y
  assume y: "y \<in> G" "cites x (cert_digest dk y)"
  have "cert_digest dk y \<notin> cert_digest dk ` set (genesis c)"
  proof
    assume "cert_digest dk y \<in> cert_digest dk ` set (genesis c)"
    then obtain g where g: "g \<in> set (genesis c)" "cert_digest dk y = cert_digest dk g" by blast
    then have "outline y = outline g" using certifiedD(5) [OF G y(1)] by blast
    then show False using genesis_round [OF g(1)] certifiedD(2) [OF G y(1)] outline_eq(1) by metis
  qed
  then obtain z where z: "z \<in> set xs" "cert_digest dk z = cert_digest dk y"
    using causal_parents [OF assms(2)] y(2) by (auto simp: cites_def)
  then have "outline z = outline y" using certifiedD(5) [OF G] y(1) assms(3) by blast
  then show "outline y \<in> outline ` set (xs @ [x])" using z(1) by (metis imageI in_set_conv_decomp_first Un_iff set_append)
qed

lemma replica_run:
  assumes G: "certified dk c G" and co: "co_crypto co = dk" "co_committee co = c" "unat (co_gc_depth co) < 2 ^ 63"
    and "set (xs @ ys) \<subseteq> G" and "causally_delivered dk (cert_digest dk ` set (genesis c)) (xs @ ys)"
    and "bounded dk st" and "replica dk G xs st" and "on_chain dk c G st hs"
    and "each (consensus_step co) ys st = Ok (st', out)"
  shows "on_chain dk c G st' (hs @ map outline (run_leaders co ys st))"
  using assms(5-)
proof (induction ys arbitrary: xs st hs out)
  case Nil
  then show ?case by simp
next
  case (Cons x ys)
  obtain st1 out1 out2 where step: "consensus_step co x st = Ok (st1, out1)"
    "each (consensus_step co) ys st1 = Ok (st', out2)"
    by (rule each_Cons_Ok [OF Cons.prems(6)])
  have x: "x \<in> G" and xs: "set xs \<subseteq> G" using Cons.prems(1) by auto
  have closed: "\<forall>y \<in> G. cites x (cert_digest dk y) \<longrightarrow> outline y \<in> outline ` set (xs @ [x])"
    by (rule causal_closed [OF G Cons.prems(2) xs])
  have after: "bounded dk st1" "replica dk G (xs @ [x]) st1" "on_chain dk c G st1 (hs @ map outline (step_leaders co x st))"
    using replica_step [OF G co Cons.prems(3-5) x closed step(1)] by blast+
  have "on_chain dk c G st' ((hs @ map outline (step_leaders co x st)) @ map outline (run_leaders co ys st1))"
    using Cons.prems(1,2) by (intro Cons.IH [OF _ _ after step(2)]) simp_all
  then show ?case using step(1) by simp
qed

lemma replica_start: "replica dk G [] (state_new dk (genesis c))"
proof -
  let ?co = "consensus_new dk (\<lambda>_. None) c 0" and ?st = "state_new dk (genesis c)"
  note inv = commit_inv_start [of dk "\<lambda>_. None" c 0]
  have "cert_round x = 0" if "x \<in> dag_certs (dag ?st)" for x
    using bspec [OF genesis_slots_zero, of "slot x" dk "\<lambda>_. None" c 0] commit_invD(2) [OF inv that] by (simp add: slot_def)
  then show ?thesis
    using commit_inv_wf(2) [OF inv] by (simp add: replica_def consensus_new_simps)
qed

lemma committed_leaders_on_chain:
  assumes "certified dk c G" and "unat depth < 2 ^ 63" and "set xs \<subseteq> G"
    and "causally_delivered dk (cert_digest dk ` set (genesis c)) xs"
    and "consensus_run (consensus_new dk env c depth) xs = Ok (st, out)"
  shows "on_chain dk c G st (map outline (committed_leaders (consensus_new dk env c depth) xs))"
proof -
  have "last_committed_round (state_new dk (genesis c)) = 0" by (simp add: state_new_def Let_def)
  then have "on_chain dk c G (state_new dk (genesis c)) []" by (simp add: on_chain_def)
  moreover have "bounded dk (state_new dk (genesis c))"
    using commit_inv_bounded [OF commit_inv_start] by (simp add: consensus_new_simps)
  ultimately show ?thesis
    using replica_run [OF assms(1), of "consensus_new dk env c depth" "[]" xs "state_new dk (genesis c)" "[]" st out]
      replica_start assms
    by (simp add: consensus_new_simps consensus_run_def committed_leaders_def)
qed

lemma on_chain_agree:
  assumes "certified dk c G" and one: "on_chain dk c G st hs" and two: "on_chain dk c G st' hs'"
  shows "prefix hs hs' \<or> prefix hs' hs"
proof (cases "last_committed_round st = 0 \<or> last_committed_round st' = 0")
  case True
  then show ?thesis using one two by (auto simp: on_chain_def)
next
  case False
  then obtain v w where v: "supported_header dk c G v" "h_round v = last_committed_round st" "even (unat (h_round v))"
      "hs = rev (leader_chain.leaders (\<lambda>h. unat (h_round h)) (leader_header c) (\<lambda>G. (parent_of dk G)\<^sup>*\<^sup>*) G v)"
    and w: "supported_header dk c G w" "h_round w = last_committed_round st'" "even (unat (h_round w))"
      "hs' = rev (leader_chain.leaders (\<lambda>h. unat (h_round h)) (leader_header c) (\<lambda>G. (parent_of dk G)\<^sup>*\<^sup>*) G w)"
    using one two unfolding on_chain_def by auto
  have "unat (h_round v) \<noteq> 0" "unat (h_round w) \<noteq> 0" using False v(2) w(2) by (simp_all add: unat_eq_zero)
  then show ?thesis
    unfolding v(4) w(4) using dag_leaders.leaders_agree [OF assms(1)] v(1,3) w(1,3) by (meson nle_le)
qed

section \<open>Properties\<close>

text \<open>
  C3: Replicas agree on the leaders they commit: whatever each of two replicas has received of one certified
  DAG, in whatever causal order and however often, with its own garbage collection depth and its own environment, one
  of the two sequences of committed leaders (author, round, id and parents) is a prefix of the other.
\<close>

theorem committed_leaders_agree:
  assumes "certified dk c (set xs \<union> set ys)"
    and "causally_delivered dk (cert_digest dk ` set (genesis c)) xs"
    and "causally_delivered dk (cert_digest dk ` set (genesis c)) ys"
    and "unat depth < 2 ^ 63" and "unat depth' < 2 ^ 63"
    and "consensus_run (consensus_new dk env c depth) xs = Ok (st, out)"
    and "consensus_run (consensus_new dk env' c depth') ys = Ok (st', out')"
  shows "prefix (map outline (committed_leaders (consensus_new dk env c depth) xs))
      (map outline (committed_leaders (consensus_new dk env' c depth') ys)) \<or>
    prefix (map outline (committed_leaders (consensus_new dk env' c depth') ys))
      (map outline (committed_leaders (consensus_new dk env c depth) xs))"
proof (rule on_chain_agree [OF assms(1)])
  show "on_chain dk c (set xs \<union> set ys) st (map outline (committed_leaders (consensus_new dk env c depth) xs))"
    by (rule committed_leaders_on_chain [OF assms(1,4) _ assms(2,6)]) simp
  show "on_chain dk c (set xs \<union> set ys) st' (map outline (committed_leaders (consensus_new dk env' c depth') ys))"
    by (rule committed_leaders_on_chain [OF assms(1,5) _ assms(3,7)]) simp
qed

text \<open>The two example runs, whose committed sequences differ.\<close>

text \<open>The certificates of a run by numbers: authority, round and parents, three of the previous round and in the run.\<close>

definition numbered :: "nat \<times> nat \<times> (nat \<times> nat) list \<Rightarrow> certificate" where
  "numbered = (\<lambda>(k, r, ps). xc (word_of_nat k) (word_of_nat r) (map (\<lambda>(q, a). (word_of_nat q, word_of_nat a)) ps))"

definition well_cited :: "(nat \<times> nat) list \<Rightarrow> nat \<times> nat \<times> (nat \<times> nat) list \<Rightarrow> bool" where
  "well_cited slots = (\<lambda>(k, r, ps). r < 10 \<and> (r = 1 \<or>
     length ps = 3 \<and> distinct (map snd ps) \<and>
     list_all (\<lambda>(q, a). Suc q = r \<and> (a, q) \<in> set slots \<and> a \<in> {1, 2, 3, 4}) ps))"

lemma numbered_digest:
  assumes "a \<in> {1, 2, 3, 4}" and "q < 10"
  shows "cert_digest ex_dalek (numbered (a, q, ps)) = ex_id (word_of_nat q, word_of_nat a)"
    and "cert_digest ex_dalek (numbered (a, q, ps)) = Digest (word_of_nat (256 * q + a))"
proof -
  have "q \<in> {0, 1, 2, 3, 4, 5, 6, 7, 8, 9}" using assms(2) by auto
  then show "cert_digest ex_dalek (numbered (a, q, ps)) = ex_id (word_of_nat q, word_of_nat a)"
    and "cert_digest ex_dalek (numbered (a, q, ps)) = Digest (word_of_nat (256 * q + a))"
    using assms(1) by (auto simp: numbered_def ex_id_def)
qed

lemma numbered_digest_inj:
  assumes "distinct (map (\<lambda>(k, r, ps). 256 * r + k) cs)" and "\<forall>(k, r, ps) \<in> set cs. k \<in> {1, 2, 3, 4} \<and> r < 10"
  shows "inj_on (cert_digest ex_dalek) (numbered ` set cs)"
proof -
  have digest: "cert_digest ex_dalek (numbered (k, r, ps)) = Digest (word_of_nat (256 * r + k))"
    if "(k, r, ps) \<in> set cs" for k r ps
    using that assms(2) by (intro numbered_digest(2)) auto
  have word: "256 * r + k = 256 * r' + k'" if "(word_of_nat (256 * r + k) :: b256) = word_of_nat (256 * r' + k')"
    and "k \<le> 4" "r < 10" "k' \<le> 4" "r' < 10" for k r k' r' :: nat
  proof -
    have "unat (word_of_nat n :: b256) = n" if "n < 2564" for n using that by (simp add: unat_of_nat)
    from this [of "256 * r + k"] this [of "256 * r' + k'"] show ?thesis using that by (simp del: unat_of_nat)
  qed
  have inj: "inj_on (\<lambda>(k, r, ps). 256 * r + k) (set cs)" using assms(1) by (simp add: distinct_map)
  show ?thesis
  proof (rule inj_onI, elim imageE)
    fix x y t t'
    assume eq: "cert_digest ex_dalek x = cert_digest ex_dalek y" and x: "x = numbered t" "t \<in> set cs"
      and y: "y = numbered t'" "t' \<in> set cs"
    obtain k r ps k' r' ps' where t: "t = (k, r, ps)" "t' = (k', r', ps')" by (cases t, cases t')
    have "k \<le> 4" "r < 10" "k' \<le> 4" "r' < 10" using assms(2) x(2) y(2) t by auto
    then have "256 * r + k = 256 * r' + k'" using eq x y t digest by (intro word) auto
    then have "t = t'" using inj_onD [OF inj _ x(2) y(2)] t by simp
    then show "x = y" using x(1) y(1) by simp
  qed
qed

lemma numbered_name:
  assumes "a \<in> {1, 2, 3, 4}"
  shows "PublicKey (word_of_nat a) \<in> set (names ex_committee)" and "stake_nat ex_committee (PublicKey (word_of_nat a)) = 1"
  using assms by (auto simp: stake_nat_def)

lemma ex_cited:
  assumes "well_cited (map (\<lambda>(k, r, ps). (k, r)) certs) (k, r, ps)" and "r \<noteq> 1"
  shows "3 \<le> sum (stake_nat ex_committee) (cited_authors ex_dalek ex_committee (numbered ` set certs) (numbered (k, r, ps)))"
proof -
  let ?ks = "map (\<lambda>(q, a). PublicKey (word_of_nat a)) ps"
  have r: "r < 10" and ps: "length ps = 3" "distinct (map snd ps)"
    "\<forall>(q, a) \<in> set ps. Suc q = r \<and> (a, q) \<in> (\<lambda>(k, r, ps). (k, r)) ` set certs \<and> a \<in> {1, 2, 3, 4}"
    using assms unfolding well_cited_def list_all_iff by auto
  have sub: "set ?ks \<subseteq> cited_authors ex_dalek ex_committee (numbered ` set certs) (numbered (k, r, ps))"
  proof
    fix n
    assume "n \<in> set ?ks"
    then obtain q a where qa: "(q, a) \<in> set ps" "n = PublicKey (word_of_nat a)" by auto
    then obtain ps' where p: "(a, q, ps') \<in> set certs" and q: "Suc q = r" "a \<in> {1, 2, 3, 4}" using ps(3) by fastforce
    then have y: "numbered (a, q, ps') \<in> numbered ` set certs" by blast
    have "ex_id (word_of_nat q, word_of_nat a) \<in> set (h_parents (c_header (numbered (k, r, ps))))"
      using qa(1) by (force simp: numbered_def)
    then have "cites (numbered (k, r, ps)) (cert_digest ex_dalek (numbered (a, q, ps')))"
      using numbered_digest(1) [OF q(2), of q ps'] q(1) r by (simp add: cites_def)
    moreover have "slot (numbered (a, q, ps')) = (n, cert_round (numbered (k, r, ps)) - 1)"
      using qa(2) q(1) by (auto simp: slot_def numbered_def)
    ultimately show "n \<in> cited_authors ex_dalek ex_committee (numbered ` set certs) (numbered (k, r, ps))"
      using y numbered_name(1) [OF q(2)] qa(2) unfolding cited_authors_def by blast
  qed
  have "stake_nat ex_committee n = 1" if "n \<in> set ?ks" for n
    using that ps(3) numbered_name(2) by fastforce
  then have "sum (stake_nat ex_committee) (set ?ks) = card (set ?ks)" by simp
  also have "\<dots> = 3"
  proof -
    have "inj_on (\<lambda>a. PublicKey (word_of_nat a)) {1, 2, 3, 4}" by (simp add: inj_on_def)
    moreover have "set (map snd ps) \<subseteq> {1, 2, 3, 4}" using ps(3) by auto
    ultimately have "inj_on (\<lambda>a. PublicKey (word_of_nat a)) (set (map snd ps))" by (rule inj_on_subset)
    then have "distinct (map (\<lambda>a. PublicKey (word_of_nat a)) (map snd ps))"
      unfolding distinct_map [of _ "map snd ps"] using ps(2) by blast
    then have "distinct ?ks" by (simp add: comp_def case_prod_unfold)
    then show ?thesis using ps(1) distinct_card [of ?ks] by simp
  qed
  finally show ?thesis
    using sum_mono2 [OF _ sub, of "stake_nat ex_committee"] by (simp add: cited_authors_def del: ex_committee_names)
qed

definition late_certs :: "(nat \<times> nat \<times> (nat \<times> nat) list) list" where
  "late_certs =
     [
      (1, 1, [(0, 1), (0, 2), (0, 3)]), (2, 1, [(0, 1), (0, 2), (0, 3)]), (4, 1, [(0, 1), (0, 2), (0, 3)]),
      (1, 2, [(1, 1), (1, 2), (1, 4)]), (2, 2, [(1, 1), (1, 2), (1, 4)]), (3, 2, [(1, 1), (1, 2), (1, 4)]),
      (1, 3, [(2, 1), (2, 2), (2, 3)]), (2, 3, [(2, 1), (2, 2), (2, 3)]), (3, 3, [(2, 1), (2, 2), (2, 3)]),
      (2, 4, [(3, 1), (3, 2), (3, 3)]), (3, 4, [(3, 1), (3, 2), (3, 3)]), (4, 4, [(3, 1), (3, 2), (3, 3)]),
      (2, 5, [(4, 2), (4, 3), (4, 4)]), (3, 1, [(0, 1), (0, 2), (0, 3)]), (4, 2, [(1, 1), (1, 2), (1, 3)]),
      (4, 3, [(2, 1), (2, 2), (2, 4)]), (1, 4, [(3, 1), (3, 2), (3, 4)]), (1, 5, [(4, 1), (4, 2), (4, 3)]),
      (3, 5, [(4, 1), (4, 2), (4, 3)]), (4, 5, [(4, 1), (4, 2), (4, 3)]), (1, 6, [(5, 1), (5, 3), (5, 4)]),
      (2, 6, [(5, 1), (5, 3), (5, 4)]), (3, 6, [(5, 1), (5, 3), (5, 4)]), (1, 7, [(6, 1), (6, 2), (6, 3)])]"

lemma late_run_certs: "late_run = map numbered late_certs"
  by (simp add: late_certs_def numbered_def run_lists)

lemma late_well_cited: "list_all (well_cited (map (\<lambda>(k, r, ps). (k, r)) late_certs)) late_certs"
  by (simp add: late_certs_def well_cited_def)

lemma late_certified: "certified ex_dalek ex_committee (set late_run)"
proof -
  let ?gen = "map (\<lambda>k. xc k 0 []) [1, 2, 3, 4]"
  have gen: "genesis ex_committee = ?gen" using ex_consensus_simps(4) by (simp add: ex_consensus_def consensus_new_def)
  let ?all = "late_certs @ map (\<lambda>k. (k, 0, [])) [1, 2, 3, 4]"
  have "inj_on (cert_digest ex_dalek) (numbered ` set ?all)"
    by (rule numbered_digest_inj) (simp_all add: late_certs_def)
  moreover have "numbered ` set ?all = set (late_run @ ?gen)"
    unfolding late_run_certs by (simp add: numbered_def)
  ultimately have "inj_on (cert_digest ex_dalek) (set (late_run @ ?gen))" by (simp only:)
  then have "\<forall>x \<in> set late_run. \<forall>y \<in> set late_run \<union> set (genesis ex_committee).
      cert_digest ex_dalek x = cert_digest ex_dalek y \<longrightarrow> outline x = outline y"
    unfolding gen set_append [symmetric] by (intro ballI impI arg_cong [where f = outline]) (erule inj_onD, simp_all)
  moreover have "inj_on slot (set late_run)" using run_distinct(2) by (simp add: distinct_map)
  then have "\<forall>x \<in> set late_run. \<forall>y \<in> set late_run. slot x = slot y \<longrightarrow> outline x = outline y"
    by (metis inj_onD)
  moreover have "\<forall>x \<in> set late_run. cert_round x \<noteq> 0 \<and> unat (cert_round x) < 2 ^ 63" by (simp add: run_lists)
  moreover have "unat (quorum_threshold ex_committee) \<le> sum (stake_nat ex_committee) (cited_authors ex_dalek ex_committee (set late_run) x)"
    if x: "x \<in> set late_run" "cert_round x \<noteq> 1" for x
  proof -
    obtain k r ps where c: "(k, r, ps) \<in> set late_certs" "x = numbered (k, r, ps)" using x(1) unfolding late_run_certs by auto
    then have "well_cited (map (\<lambda>(k, r, ps). (k, r)) late_certs) (k, r, ps)"
      using late_well_cited unfolding list_all_iff by blast
    moreover have "r \<noteq> 1" using c(2) x(2) by (auto simp: numbered_def)
    ultimately have "3 \<le> sum (stake_nat ex_committee) (cited_authors ex_dalek ex_committee (numbered ` set late_certs) x)"
      unfolding c(2) by (rule ex_cited)
    moreover have "unat (quorum_threshold ex_committee) = 3" by simp
    ultimately show ?thesis unfolding late_run_certs by (simp only: set_map)
  qed
  ultimately show ?thesis unfolding certified_def using ex_committee_ok by blast
qed

theorem committed_leaders_agree_witness:
  "\<exists>st out st' out'. consensus_run ex_consensus early_run = Ok (st, out) \<and>
     consensus_run ex_consensus late_run = Ok (st', out') \<and> map (slot \<circ> fst) out \<noteq> map (slot \<circ> fst) out' \<and>
     (prefix (map outline (committed_leaders ex_consensus early_run)) (map outline (committed_leaders ex_consensus late_run)) \<or>
      prefix (map outline (committed_leaders ex_consensus late_run)) (map outline (committed_leaders ex_consensus early_run)))"
proof -
  obtain st out where early: "consensus_run ex_consensus early_run = Ok (st, out)" and e: "length (map (slot \<circ> fst) out) = 11"
    using early_slots by (auto simp: ordered_slots_def split: sum.splits)
  obtain st' out' where late: "consensus_run ex_consensus late_run = Ok (st', out')" and l: "length (map (slot \<circ> fst) out') = 12"
    using late_slots by (auto simp: ordered_slots_def split: sum.splits)
  have "mset early_run = mset late_run" by (simp add: early_run_def late_run_def)
  then have "set early_run \<union> set late_run = set late_run" by (metis set_mset_mset sup.idem)
  then have G: "certified ex_dalek ex_committee (set early_run \<union> set late_run)" using late_certified by simp
  have causal: "causally_delivered ex_dalek (cert_digest ex_dalek ` set (genesis ex_committee)) early_run"
    "causally_delivered ex_dalek (cert_digest ex_dalek ` set (genesis ex_committee)) late_run"
    using run_causal(1,2) by (simp_all only: ex_consensus_def consensus_new_simps)
  have depth: "unat (50 :: round) < 2 ^ 63" by simp
  have "map (slot \<circ> fst) out \<noteq> map (slot \<circ> fst) out'"
  proof
    assume "map (slot \<circ> fst) out = map (slot \<circ> fst) out'"
    then have "(11 :: nat) = 12" using e l by (simp only:)
    then show False by simp
  qed
  then show ?thesis
    using early late committed_leaders_agree [OF G causal depth depth
        early [unfolded ex_consensus_def] late [unfolded ex_consensus_def]]
    unfolding ex_consensus_def by blast
qed

end
