(* ===== verification/Aggregators.thy ===== *)
theory Aggregators
  imports Messages
begin

text \<open>
  \<open>primary/src/aggregators.rs\<close>: votes are added up into a certificate, certificates into the
  parents of a header. Both add stake author by author and reset the sum once it reaches the
  quorum threshold; the locale \<open>quorum_collector\<close> states that contract and proves that a quorum is
  reported once only.
\<close>

section \<open>The two aggregators\<close>

record votes_aggregator =
  va_weight :: stake
  va_votes :: "(public_key \<times> signature) list"
  va_used :: "public_key set"

definition votes_aggregator_new :: votes_aggregator where
  "votes_aggregator_new = \<lparr>va_weight = 0, va_votes = [], va_used = {}\<rparr>"

definition votes_append ::
  "committee \<Rightarrow> header \<Rightarrow> vote \<Rightarrow> votes_aggregator
   \<Rightarrow> votes_aggregator \<times> (dag_error, certificate option) result" where
  "votes_append c h v agg =
     (let author = v_author v in
      if author \<in> va_used agg then (agg, Err (AuthorityReuse author))
      else
        let agg = agg\<lparr>va_used := insert author (va_used agg),
                      va_votes := va_votes agg @ [(author, v_signature v)],
                      va_weight := va_weight agg + stake_of c author\<rparr>
        in if quorum_threshold c \<le> va_weight agg
           then (agg\<lparr>va_weight := 0\<rparr>, Ok (Some \<lparr>c_header = h, c_votes = va_votes agg\<rparr>))
           else (agg, Ok None))"

record certificates_aggregator =
  ca_weight :: stake
  ca_certificates :: "digest list"
  ca_used :: "public_key set"

definition certificates_aggregator_new :: certificates_aggregator where
  "certificates_aggregator_new = \<lparr>ca_weight = 0, ca_certificates = [], ca_used = {}\<rparr>"

definition certificates_append ::
  "dalek \<Rightarrow> committee \<Rightarrow> certificate \<Rightarrow> certificates_aggregator
   \<Rightarrow> certificates_aggregator \<times> (dag_error, digest list option) result" where
  "certificates_append dk c x agg =
     (let origin = cert_origin x in
      if origin \<in> ca_used agg then (agg, Ok None)
      else
        let agg = agg\<lparr>ca_used := insert origin (ca_used agg),
                      ca_certificates := ca_certificates agg @ [cert_digest dk x],
                      ca_weight := ca_weight agg + stake_of c origin\<rparr>
        in if quorum_threshold c \<le> ca_weight agg
           then (agg\<lparr>ca_weight := 0, ca_certificates := []\<rparr>, Ok (Some (ca_certificates agg)))
           else (agg, Ok None))"

section \<open>The contract of a collector\<close>

text \<open>
  A collector remembers the authors it has seen and a running weight. A message of a new author
  adds the author's stake; the step reports a quorum, and restarts the weight, exactly when the sum
  reaches the threshold.
\<close>

locale quorum_collector = weighted_quorum invar members weight quorum validity
  for invar :: "'c \<Rightarrow> bool" and members :: "'c \<Rightarrow> 'k set" and weight :: "'c \<Rightarrow> 'k \<Rightarrow> nat"
    and quorum :: "'c \<Rightarrow> nat" and validity :: "'c \<Rightarrow> nat" +
  fixes step :: "'c \<Rightarrow> 'm \<Rightarrow> 's \<Rightarrow> 's \<times> bool"
    and who :: "'m \<Rightarrow> 'k"
    and seen :: "'s \<Rightarrow> 'k set"
    and counted :: "'s \<Rightarrow> nat"
  assumes step_seen: "who m \<in> seen s \<Longrightarrow> step c m s = (s, False)"
    and step_fresh: "invar c \<Longrightarrow> who m \<notin> seen s \<Longrightarrow> finite (seen s) \<Longrightarrow>
      counted s \<le> sum (weight c) (seen s) \<Longrightarrow>
      seen (fst (step c m s)) = insert (who m) (seen s) \<and>
      (snd (step c m s) \<longleftrightarrow> quorum c \<le> counted s + weight c (who m)) \<and>
      counted (fst (step c m s)) = (if snd (step c m s) then 0 else counted s + weight c (who m))"
begin

text \<open>After a quorum was reported for the authors \<open>E\<close>, the weight counts the others only.\<close>

lemma step_after_quorum:
  assumes c: "invar c" and fin: "finite (seen s)" and E: "E \<subseteq> seen s" "quorum c \<le> sum (weight c) E"
    and cnt: "counted s = sum (weight c) (seen s - E)"
  shows "\<not> snd (step c m s) \<and> finite (seen (fst (step c m s))) \<and> E \<subseteq> seen (fst (step c m s)) \<and>
    counted (fst (step c m s)) = sum (weight c) (seen (fst (step c m s)) - E)"
proof (cases "who m \<in> seen s")
  case True
  with assms show ?thesis by (simp add: step_seen)
next
  case False
  have "counted s \<le> sum (weight c) (seen s)"
    unfolding cnt using fin by (intro sum_mono2) auto
  note fresh = step_fresh [OF c False fin this]
  have new: "insert (who m) (seen s) - E = insert (who m) (seen s - E)" using False E(1) by blast
  have sum_new: "sum (weight c) (insert (who m) (seen s) - E) = counted s + weight c (who m)"
    unfolding new cnt using False fin by simp
  have "sum (weight c) (insert (who m) (seen s) - E) < quorum c"
    by (rule quorum_once [OF c, of E]) (use fin E in \<open>auto intro: finite_subset\<close>)
  with fresh sum_new fin E show ?thesis by auto
qed

lemma run_after_quorum:
  assumes "invar c" "finite (seen s)" "E \<subseteq> seen s" "quorum c \<le> sum (weight c) E"
    "counted s = sum (weight c) (seen s - E)"
  shows "True \<notin> set (snd (run_steps (step c) ms s))"
proof
  assume "True \<in> set (snd (run_steps (step c) ms s))"
  then have "\<not> True"
    by (rule run_steps_outputs [where Q = "\<lambda>b. \<not> b" and
        P = "\<lambda>s. finite (seen s) \<and> E \<subseteq> seen s \<and> counted s = sum (weight c) (seen s - E)", rotated 2])
      (use assms step_after_quorum in auto)
  then show False by simp
qed

theorem run_once:
  assumes c: "invar c" and "finite (seen s)" and "counted s = sum (weight c) (seen s)"
  shows "length (filter (\<lambda>b. b) (snd (run_steps (step c) ms s))) \<le> 1"
  using assms(2,3)
proof (induction ms arbitrary: s)
  case Nil
  then show ?case by simp
next
  case (Cons m ms)
  let ?s = "fst (step c m s)"
  have out: "snd (run_steps (step c) (m # ms) s) = snd (step c m s) # snd (run_steps (step c) ms ?s)"
    by (simp del: run_steps.simps)
  show ?case
  proof (cases "who m \<in> seen s")
    case True
    with Cons out show ?thesis by (simp add: step_seen del: run_steps.simps)
  next
    case False
    have fresh: "seen ?s = insert (who m) (seen s)"
      "snd (step c m s) \<longleftrightarrow> quorum c \<le> counted s + weight c (who m)"
      "counted ?s = (if snd (step c m s) then 0 else counted s + weight c (who m))"
      using step_fresh [OF c False] Cons.prems by auto
    have all: "sum (weight c) (seen ?s) = counted s + weight c (who m)"
      using Cons.prems False by (simp add: fresh(1))
    show ?thesis
    proof (cases "snd (step c m s)")
      case True
      have "True \<notin> set (snd (run_steps (step c) ms ?s))"
        by (rule run_after_quorum [OF c, where E = "seen ?s"]) (use True fresh all Cons.prems in auto)
      then have "filter (\<lambda>b. b) (snd (run_steps (step c) ms ?s)) = []"
        by (auto simp: filter_empty_conv)
      with out show ?thesis by simp
    next
      case False
      with Cons.IH [of ?s] fresh all Cons.prems out show ?thesis by simp
    qed
  qed
qed

text \<open>Messages of distinct new authors that reach the threshold together make the collector report.\<close>

lemma run_reaches:
  assumes c: "invar c" and "finite (seen s)" and "counted s = sum (weight c) (seen s)"
    and "counted s < quorum c" and "distinct (map who ms)" and "who ` set ms \<inter> seen s = {}"
    and "quorum c \<le> sum (weight c) (seen s \<union> who ` set ms)"
  shows "True \<in> set (snd (run_steps (step c) ms s))"
  using assms(2-)
proof (induction ms arbitrary: s)
  case Nil
  then show ?case by simp
next
  case (Cons m ms)
  let ?s = "fst (step c m s)"
  have False: "who m \<notin> seen s" using Cons.prems by auto
  have fresh: "seen ?s = insert (who m) (seen s)"
    "snd (step c m s) \<longleftrightarrow> quorum c \<le> counted s + weight c (who m)"
    "counted ?s = (if snd (step c m s) then 0 else counted s + weight c (who m))"
    using step_fresh [OF c False] Cons.prems by auto
  show ?case
  proof (cases "snd (step c m s)")
    case True
    then show ?thesis by (simp del: run_steps.simps)
  next
    case no: False
    have "True \<in> set (snd (run_steps (step c) ms ?s))"
      using no fresh Cons.prems False by (intro Cons.IH) auto
    then show ?thesis by (simp del: run_steps.simps)
  qed
qed

end

section \<open>Both aggregators are collectors\<close>

definition quorum_found :: "(dag_error, 'a option) result \<Rightarrow> bool" where
  "quorum_found r \<longleftrightarrow> (\<exists>x. r = Ok (Some x))"

lemma quorum_found_simps [simp]:
  "quorum_found (Ok (Some x))" "\<not> quorum_found (Ok None)" "\<not> quorum_found (Inl e)"
  by (auto simp: quorum_found_def)

text \<open>Adding the stake of an unseen author to a weight bounded by the seen stake does not wrap.\<close>

lemma fresh_stake_no_wrap:
  assumes ok: "committee_ok c" and "finite S" "k \<notin> S"
    and "unat w \<le> sum (stake_nat c) S"
  shows "unat (w + stake_of c k) = unat w + stake_nat c k"
proof -
  have "sum (stake_nat c) (insert k S) = sum (stake_nat c) (insert k S \<inter> set (names c))"
    using assms(2) by (intro committee.weight_restrict) simp
  also have "\<dots> \<le> sum (stake_nat c) (set (names c))"
    by (rule sum_mono2) auto
  also have "\<dots> = total_stake c" by (rule sum_stake_members) (rule committee_ok_wf [OF ok])
  finally have "stake_nat c k + sum (stake_nat c) S \<le> total_stake c"
    using assms(2,3) by simp
  then have "unat w + unat (stake_of c k) < 2 ^ 32"
    using assms(4) ok by (simp add: committee_ok_def stake_nat_def)
  then show ?thesis by (simp add: unat_add_no_wrap stake_nat_def)
qed

definition votes_step :: "committee \<Rightarrow> header \<times> vote \<Rightarrow> votes_aggregator \<Rightarrow> votes_aggregator \<times> bool" where
  "votes_step c m agg =
     (fst (votes_append c (fst m) (snd m) agg), quorum_found (snd (votes_append c (fst m) (snd m) agg)))"

definition certificates_step ::
  "committee \<Rightarrow> dalek \<times> certificate \<Rightarrow> certificates_aggregator \<Rightarrow> certificates_aggregator \<times> bool" where
  "certificates_step c m agg =
     (fst (certificates_append (fst m) c (snd m) agg),
      quorum_found (snd (certificates_append (fst m) c (snd m) agg)))"

interpretation votes: quorum_collector committee_ok "\<lambda>c. set (names c)" stake_nat
  "\<lambda>c. unat (quorum_threshold c)" "\<lambda>c. unat (validity_threshold c)"
  votes_step "\<lambda>m. v_author (snd m)" va_used "\<lambda>agg. unat (va_weight agg)"
  by unfold_locales
    (auto simp: votes_step_def votes_append_def Let_def fresh_stake_no_wrap word_le_nat_alt)

interpretation certificates: quorum_collector committee_ok "\<lambda>c. set (names c)" stake_nat
  "\<lambda>c. unat (quorum_threshold c)" "\<lambda>c. unat (validity_threshold c)"
  certificates_step "\<lambda>m. cert_origin (snd m)" ca_used "\<lambda>agg. unat (ca_weight agg)"
  by unfold_locales
    (auto simp: certificates_step_def certificates_append_def Let_def fresh_stake_no_wrap word_le_nat_alt)

section \<open>What a certificate is made of\<close>

lemma run_votes_step:
  "run_steps (votes_step c) (map (Pair h) votes) agg =
     (fst (run_steps (votes_append c h) votes agg),
      map quorum_found (snd (run_steps (votes_append c h) votes agg)))"
  unfolding run_steps_map_input votes_step_def fst_conv snd_conv
  by (rule run_steps_map_output)

lemma run_certificates_step:
  "run_steps (certificates_step c) (map (Pair dk) xs) agg =
     (fst (run_steps (certificates_append dk c) xs agg),
      map quorum_found (snd (run_steps (certificates_append dk c) xs agg)))"
  unfolding run_steps_map_input certificates_step_def fst_conv snd_conv
  by (rule run_steps_map_output)

definition va_inv :: "committee \<Rightarrow> vote set \<Rightarrow> votes_aggregator \<Rightarrow> bool" where
  "va_inv c V agg \<longleftrightarrow>
     distinct (map fst (va_votes agg)) \<and> va_used agg = fst ` set (va_votes agg) \<and>
     unat (va_weight agg) \<le> sum (stake_nat c) (va_used agg) \<and>
     set (va_votes agg) \<subseteq> (\<lambda>v. (v_author v, v_signature v)) ` V"

definition certificate_from :: "committee \<Rightarrow> header \<Rightarrow> vote set \<Rightarrow> certificate \<Rightarrow> bool" where
  "certificate_from c h V x \<longleftrightarrow>
     c_header x = h \<and> distinct (map fst (c_votes x)) \<and>
     set (c_votes x) \<subseteq> (\<lambda>v. (v_author v, v_signature v)) ` V \<and>
     unat (quorum_threshold c) \<le> sum (stake_nat c) (signers x)"

lemma va_inv_new: "va_inv c V votes_aggregator_new"
  by (simp add: va_inv_def votes_aggregator_new_def)

lemma votes_append_inv:
  assumes ok: "committee_ok c" and inv: "va_inv c V agg" and v: "v \<in> V"
  shows "va_inv c V (fst (votes_append c h v agg)) \<and>
     (\<forall>x. snd (votes_append c h v agg) = Ok (Some x) \<longrightarrow> certificate_from c h V x)"
proof (cases "v_author v \<in> va_used agg")
  case True
  with inv show ?thesis by (simp add: votes_append_def)
next
  case False
  let ?agg = "agg\<lparr>va_used := insert (v_author v) (va_used agg),
      va_votes := va_votes agg @ [(v_author v, v_signature v)],
      va_weight := va_weight agg + stake_of c (v_author v)\<rparr>"
  have fin: "finite (va_used agg)" using inv by (simp add: va_inv_def)
  have "unat (va_weight ?agg) = unat (va_weight agg) + stake_nat c (v_author v)"
    by simp (rule fresh_stake_no_wrap [OF ok fin False], use inv in \<open>unfold va_inv_def, blast\<close>)
  then have inv': "va_inv c V ?agg"
    using inv v False fin by (auto simp: va_inv_def)
  have cert: "certificate_from c h V \<lparr>c_header = h, c_votes = va_votes ?agg\<rparr>"
    if q: "quorum_threshold c \<le> va_weight ?agg"
  proof -
    have "unat (quorum_threshold c) \<le> unat (va_weight ?agg)"
      using q by (simp only: word_le_nat_alt)
    also have "\<dots> \<le> sum (stake_nat c) (va_used ?agg)"
      using inv' unfolding va_inv_def by blast
    also have "va_used ?agg = signers \<lparr>c_header = h, c_votes = va_votes ?agg\<rparr>"
      using inv' unfolding va_inv_def signers_def by simp
    finally show ?thesis
      using inv' unfolding va_inv_def certificate_from_def by simp
  qed
  have "va_inv c V (?agg\<lparr>va_weight := 0\<rparr>)"
    using inv' by (simp add: va_inv_def)
  then show ?thesis
    using inv' False cert by (simp add: votes_append_def Let_def)
qed

lemma votes_run_certificate:
  assumes "committee_ok c"
    and "Ok (Some x) \<in> set (snd (run_steps (votes_append c h) votes votes_aggregator_new))"
  shows "certificate_from c h (set votes) x"
proof -
  have "\<forall>x'. Ok (Some x) = (Ok (Some x') :: (dag_error, certificate option) result) \<longrightarrow>
      certificate_from c h (set votes) x'"
    by (rule run_steps_outputs [where P = "va_inv c (set votes)" and ms = votes, OF va_inv_new _ assms(2)])
      (rule votes_append_inv [OF assms(1)])
  then show ?thesis by simp
qed

section \<open>Properties\<close>

text \<open>
  Whatever votes a primary appends for its header, with repeated authors or not, the aggregator
  assembles at most one certificate.
\<close>

theorem votes_quorum_once:
  assumes "committee_ok c"
  shows "length (filter quorum_found (snd (run_steps (votes_append c h) votes votes_aggregator_new))) \<le> 1"
  using votes.run_once [OF assms, of votes_aggregator_new "map (Pair h) votes"]
  by (simp add: run_votes_step votes_aggregator_new_def filter_map comp_def)

definition ex_vote :: "public_key \<Rightarrow> vote" where
  "ex_vote k = \<lparr>v_id = h_id ex_header, v_round = h_round ex_header, v_origin = h_author ex_header,
     v_author = k, v_signature = signature_default\<rparr>"

definition ex_votes :: "vote list" where
  "ex_votes = map ex_vote [PublicKey 1, PublicKey 2, PublicKey 2, PublicKey 4, PublicKey 3]"

theorem votes_quorum_once_witness:
  "length (filter quorum_found
     (snd (run_steps (votes_append ex_committee ex_header) ex_votes votes_aggregator_new))) \<le> 1"
  by (rule votes_quorum_once) simp

text \<open>
  C33: Votes of distinct authorities that hold a quorum of the stake together produce a certificate.
\<close>

theorem votes_reach_quorum:
  assumes "committee_ok c" and "distinct (map v_author votes)"
    and "unat (quorum_threshold c) \<le> sum (stake_nat c) (v_author ` set votes)"
  shows "\<exists>x. Ok (Some x) \<in> set (snd (run_steps (votes_append c h) votes votes_aggregator_new))"
proof -
  have "True \<in> set (snd (run_steps (votes_step c) (map (Pair h) votes) votes_aggregator_new))"
    by (rule votes.run_reaches)
      (use assms in \<open>auto simp: votes_aggregator_new_def comp_def image_image unat_quorum_threshold\<close>)
  then show ?thesis by (auto simp: run_votes_step quorum_found_def)
qed

theorem votes_reach_quorum_witness:
  "\<exists>x. Ok (Some x) \<in> set (snd (run_steps (votes_append ex_committee ex_header)
     (map ex_vote [PublicKey 1, PublicKey 3, PublicKey 4]) votes_aggregator_new))"
  by (rule votes_reach_quorum) (simp_all add: ex_vote_def stake_nat_def)

text \<open>
  C34: A certificate assembled from votes that each passed \<open>Vote::verify\<close> for a verified header
  passes \<open>Certificate::verify\<close> at every node, for any way the votes arrive.
\<close>

theorem assembled_certificate_verifies:
  assumes "committee_ok c" and "batch_complete dk" and "header_verify dk c h = Ok ()"
    and "\<forall>v \<in> set votes. vote_verify dk c v = Ok () \<and> v_id v = h_id h \<and> v_round v = h_round h \<and>
      v_origin v = h_author h"
    and "Ok (Some x) \<in> set (snd (run_steps (votes_append c h) votes votes_aggregator_new))"
  shows "c_header x = h \<and> certificate_verify dk c x = Ok ()"
proof -
  have x: "certificate_from c h (set votes) x" by (rule votes_run_certificate) fact+
  have vote: "0 < stake_of c (v_author v) \<and>
      signature_verify dk (v_signature v) (cert_digest dk x) (v_author v) = Ok ()" if "v \<in> set votes" for v
  proof -
    have "vote_digest dk v = cert_digest dk x"
      by (rule vote_digest_cert_digest)
        (use assms(4) that x in \<open>auto simp: certificate_from_def cert_round_def cert_origin_def\<close>)
    then show ?thesis using assms(4) that
      by (auto simp: vote_verify_def and_then_Ok_iff ensure_Ok_iff)
  qed
  have "\<forall>(k, s) \<in> set (c_votes x). 0 < stake_of c k \<and> signature_verify dk s (cert_digest dk x) k = Ok ()"
    using x vote by (fastforce simp: certificate_from_def)
  then have "signature_verify_batch dk (cert_digest dk x) (c_votes x) = Ok ()"
    "\<forall>name \<in> signers x. 0 < stake_of c name"
    by (auto simp: signers_def intro!: verify_batch_complete [OF assms(2)])
  with x assms(1,3) show ?thesis
    by (simp add: certificate_verify_Ok_iff certificate_from_def)
qed

theorem assembled_certificate_verifies_witness:
  "c_header (ex_certificate [PublicKey 1, PublicKey 2, PublicKey 4]) = ex_header \<and>
   certificate_verify ex_dalek ex_committee (ex_certificate [PublicKey 1, PublicKey 2, PublicKey 4]) = Ok ()"
proof (rule assembled_certificate_verifies)
  show "Ok (Some (ex_certificate [PublicKey 1, PublicKey 2, PublicKey 4])) \<in>
      set (snd (run_steps (votes_append ex_committee ex_header) ex_votes votes_aggregator_new))"
    by (simp add: ex_votes_def votes_append_def votes_aggregator_new_def ex_vote_def ex_certificate_def
        Let_def)
qed (auto simp: ex_header_verify batch_complete_def ex_votes_def ex_vote_def vote_verify_def
    and_then_Ok_iff ensure_Ok_iff signature_verify_def)

text \<open>The digests kept by the other aggregator are those of certificates with distinct origins.\<close>

definition ca_inv :: "dalek \<Rightarrow> committee \<Rightarrow> certificate set \<Rightarrow> certificates_aggregator \<Rightarrow> bool" where
  "ca_inv dk c X agg \<longleftrightarrow>
     (\<exists>xs. set xs \<subseteq> X \<and> distinct (map cert_origin xs) \<and> cert_origin ` set xs \<subseteq> ca_used agg \<and>
        ca_certificates agg = map (cert_digest dk) xs \<and> finite (ca_used agg) \<and>
        unat (ca_weight agg) \<le> sum (stake_nat c) (cert_origin ` set xs))"

definition parents_from :: "dalek \<Rightarrow> committee \<Rightarrow> certificate set \<Rightarrow> digest list \<Rightarrow> bool" where
  "parents_from dk c X ds \<longleftrightarrow>
     (\<exists>xs. set xs \<subseteq> X \<and> distinct (map cert_origin xs) \<and> ds = map (cert_digest dk) xs \<and>
        unat (quorum_threshold c) \<le> sum (stake_nat c) (cert_origin ` set xs))"

lemma ca_inv_new: "ca_inv dk c X certificates_aggregator_new"
  by (auto simp: ca_inv_def certificates_aggregator_new_def)

lemma certificates_append_inv:
  assumes ok: "committee_ok c" and inv: "ca_inv dk c X agg" and x: "x \<in> X"
  shows "ca_inv dk c X (fst (certificates_append dk c x agg)) \<and>
     (\<forall>ds. snd (certificates_append dk c x agg) = Ok (Some ds) \<longrightarrow> parents_from dk c X ds)"
proof (cases "cert_origin x \<in> ca_used agg")
  case True
  with inv show ?thesis by (simp add: certificates_append_def)
next
  case False
  obtain xs where xs: "set xs \<subseteq> X" "distinct (map cert_origin xs)" "cert_origin ` set xs \<subseteq> ca_used agg"
    "ca_certificates agg = map (cert_digest dk) xs" "finite (ca_used agg)"
    "unat (ca_weight agg) \<le> sum (stake_nat c) (cert_origin ` set xs)"
    using inv by (auto simp: ca_inv_def)
  have notin: "cert_origin x \<notin> cert_origin ` set xs" using False xs(3) by blast
  have wt: "unat (ca_weight agg + stake_of c (cert_origin x)) = unat (ca_weight agg) + stake_nat c (cert_origin x)"
    by (rule fresh_stake_no_wrap [OF ok _ notin xs(6)]) simp
  let ?xs = "xs @ [x]"
  have new: "set ?xs \<subseteq> X" "distinct (map cert_origin ?xs)"
    "cert_origin ` set ?xs \<subseteq> insert (cert_origin x) (ca_used agg)"
    "unat (ca_weight agg + stake_of c (cert_origin x)) \<le> sum (stake_nat c) (cert_origin ` set ?xs)"
    using xs x notin wt by auto
  show ?thesis
  proof (cases "quorum_threshold c \<le> ca_weight agg + stake_of c (cert_origin x)")
    case True
    then have "parents_from dk c X (map (cert_digest dk) ?xs)"
      unfolding parents_from_def word_le_nat_alt using new by (metis order_trans)
    with True False xs(4,5) show ?thesis
      by (auto simp: certificates_append_def Let_def ca_inv_def)
  next
    case no: False
    have "ca_inv dk c X (fst (certificates_append dk c x agg))"
      unfolding ca_inv_def using no False xs(4,5) new
      by (intro exI [of _ ?xs]) (auto simp: certificates_append_def Let_def)
    with no False show ?thesis by (simp add: certificates_append_def Let_def)
  qed
qed

text \<open>
  For a round, the core sends parents to the proposer at most once, and they are digests of
  certificates it appended, from distinct origins that hold a quorum of the stake.
\<close>

theorem parents_sent_once:
  assumes "committee_ok c"
  shows "length (filter quorum_found
           (snd (run_steps (certificates_append dk c) xs certificates_aggregator_new))) \<le> 1 \<and>
         (\<forall>ds. Ok (Some ds) \<in> set (snd (run_steps (certificates_append dk c) xs certificates_aggregator_new)) \<longrightarrow>
            parents_from dk c (set xs) ds)"
proof (intro conjI allI impI)
  show "length (filter quorum_found
      (snd (run_steps (certificates_append dk c) xs certificates_aggregator_new))) \<le> 1"
    using certificates.run_once [OF assms, of certificates_aggregator_new "map (Pair dk) xs"]
    by (simp add: run_certificates_step certificates_aggregator_new_def filter_map comp_def)
next
  fix ds
  assume "Ok (Some ds) \<in> set (snd (run_steps (certificates_append dk c) xs certificates_aggregator_new))"
  then have "\<forall>ds'. Ok (Some ds) = (Ok (Some ds') :: (dag_error, digest list option) result) \<longrightarrow>
      parents_from dk c (set xs) ds'"
    by (rule run_steps_outputs [where P = "ca_inv dk c (set xs)" and ms = xs, OF ca_inv_new, rotated])
      (rule certificates_append_inv [OF assms])
  then show "parents_from dk c (set xs) ds" by simp
qed

theorem parents_sent_once_witness:
  "parents_from ex_dalek ex_committee
     (set (map (\<lambda>k. ex_certificate []\<lparr>c_header := ex_header\<lparr>h_author := PublicKey k\<rparr>\<rparr>) [1, 2, 3]))
     [Digest 257, Digest 258, Digest 259]"
proof -
  let ?xs = "map (\<lambda>k. ex_certificate []\<lparr>c_header := ex_header\<lparr>h_author := PublicKey k\<rparr>\<rparr>) [1, 2, 3]"
  have "Ok (Some [Digest 257, Digest 258, Digest 259]) \<in>
      set (snd (run_steps (certificates_append ex_dalek ex_committee) ?xs certificates_aggregator_new))"
    by (simp add: certificates_append_def certificates_aggregator_new_def ex_certificate_def ex_header_def
        cert_origin_def cert_round_def cert_digest_def ex_hash32 vote_bytes_def digest_to_vec_def
        key_as_ref_def be_bytes_def le_bytes_def upt_rec nth_append Let_def header_default_def
        word_le_nat_alt)
  then show ?thesis using parents_sent_once [OF ex_committee_ok, of ex_dalek ?xs] by blast
qed

end
