(* ===== verification/Effects.thy ===== *)
theory Effects
  imports Prelude
begin

text \<open>
  Operations of the tasks: an operation changes the state of its task, sends messages to others (its
  outputs) and ends with a value, an error or a panic. Unlike a plain result, the state and the
  outputs reached before an error stay, as in the code. Two locales carry the proofs over operations:
  a transitive relation between the states before and after holds of a composition when it holds
  of its parts.
\<close>

section \<open>Operations\<close>

type_synonym ('s, 'o, 'e, 'a) op = "'s \<Rightarrow> ('e, 'a) result \<times> 's \<times> 'o list"

definition op_return :: "'a \<Rightarrow> ('s, 'o, 'e, 'a) op" where
  "op_return x s = (Ok x, s, [])"

definition op_lift :: "('e, 'a) result \<Rightarrow> ('s, 'o, 'e, 'a) op" where
  "op_lift r s = (r, s, [])"

definition op_get :: "('s \<Rightarrow> 'a) \<Rightarrow> ('s, 'o, 'e, 'a) op" where
  "op_get f s = (Ok (f s), s, [])"

definition op_modify :: "('s \<Rightarrow> 's) \<Rightarrow> ('s, 'o, 'e, unit) op" where
  "op_modify f s = (Ok (), f s, [])"

definition op_emit :: "'o \<Rightarrow> ('s, 'o, 'e, unit) op" where
  "op_emit out s = (Ok (), s, [out])"

definition op_bind :: "('s, 'o, 'e, 'a) op \<Rightarrow> ('a \<Rightarrow> ('s, 'o, 'e, 'b) op) \<Rightarrow> ('s, 'o, 'e, 'b) op" where
  "op_bind m k s =
     (case m s of (r, s1, out1) \<Rightarrow>
        (case r of
           Inl f \<Rightarrow> (Inl f, s1, out1)
         | Inr x \<Rightarrow> (case k x s1 of (r2, s2, out2) \<Rightarrow> (r2, s2, out1 @ out2))))"

definition op_then :: "('s, 'o, 'e, 'a) op \<Rightarrow> ('s, 'o, 'e, 'b) op \<Rightarrow> ('s, 'o, 'e, 'b) op" where
  "op_then m n = op_bind m (\<lambda>_. n)"

text \<open>\<open>expect\<close>: an error becomes a panic.\<close>

definition op_expect :: "('s, 'o, 'e, 'a) op \<Rightarrow> ('s, 'o, 'e, 'a) op" where
  "op_expect m s =
     (case m s of (r, s1, out) \<Rightarrow> (case r of Inl _ \<Rightarrow> (Panicked, s1, out) | Inr x \<Rightarrow> (Ok x, s1, out)))"

text \<open>A \<open>for\<close> loop over a list.\<close>

fun op_for :: "'x list \<Rightarrow> ('x \<Rightarrow> ('s, 'o, 'e, unit) op) \<Rightarrow> ('s, 'o, 'e, unit) op" where
  "op_for [] f = op_return ()"
| "op_for (x # xs) f = op_then (f x) (op_for xs f)"

lemmas op_defs = op_return_def op_lift_def op_get_def op_modify_def op_emit_def op_bind_def
  op_then_def op_expect_def

lemma op_simps [simp]:
  "op_return x s = (Ok x, s, [])" "op_lift r s = (r, s, [])" "op_get f s = (Ok (f s), s, [])"
  "op_modify g s = (Ok (), g s, [])" "op_emit out s = (Ok (), s, [out])"
  by (simp_all add: op_defs)

lemma op_bind_run:
  "m s = (Ok x, s1, out1) \<Longrightarrow> k x s1 = (r, s2, out2) \<Longrightarrow> op_bind m k s = (r, s2, out1 @ out2)"
  "m s = (Inl f, s1, out1) \<Longrightarrow> op_bind m k s = (Inl f, s1, out1)"
  by (simp_all add: op_bind_def)

lemma op_then_run:
  "m s = (Ok x, s1, out1) \<Longrightarrow> n s1 = (r, s2, out2) \<Longrightarrow> op_then m n s = (r, s2, out1 @ out2)"
  "m s = (Inl f, s1, out1) \<Longrightarrow> op_then m n s = (Inl f, s1, out1)"
  by (simp_all add: op_then_def op_bind_def)

text \<open>Evaluation of concrete runs: one operation at a time, the rest left as it is until then.\<close>

lemma op_frozen:
  "op_bind m k = op_bind m k" "op_then m n = op_then m n" "op_expect m = op_expect m" "op_for xs f = op_for xs f"
  by (rule refl)+

lemmas op_congs = op_frozen prod.case_cong_weak sum.case_cong_weak option.case_cong_weak if_weak_cong
  let_weak_cong

text \<open>An event takes the head of the channel of its task; nothing happens when the channel is empty.\<close>

definition receive ::
  "('s \<Rightarrow> 'm list) \<Rightarrow> ('m list \<Rightarrow> 's \<Rightarrow> 's) \<Rightarrow> ('m \<Rightarrow> ('s, 'o, 'e, unit) op) \<Rightarrow> ('s, 'o, 'e, unit) op" where
  "receive channel set_channel handle s =
     (case channel s of [] \<Rightarrow> (Ok (), s, []) | m # rest \<Rightarrow> handle m (set_channel rest s))"

lemma receive_result:
  assumes "receive channel set_channel handle s = (r, s', out)"
  obtains "s' = s" "out = []" | m rest where "channel s = m # rest" "handle m (set_channel rest s) = (r, s', out)"
  using assms by (cases "channel s") (auto simp: receive_def)

section \<open>Relations that every operation keeps\<close>

text \<open>
  \<open>moves m\<close>: the relation holds between the state before, the state after and the outputs of
  \<open>m\<close>, whatever its result.
\<close>

locale transition =
  fixes rel :: "'s \<Rightarrow> 's \<Rightarrow> 'o list \<Rightarrow> bool"
  assumes rel_refl: "rel s s []"
    and rel_trans: "rel s t out1 \<Longrightarrow> rel t u out2 \<Longrightarrow> rel s u (out1 @ out2)"
begin

definition moves :: "('s, 'o, 'e, 'a) op \<Rightarrow> bool" where
  "moves m \<longleftrightarrow> (\<forall>s. rel s (fst (snd (m s))) (snd (snd (m s))))"

lemma movesI: "(\<And>s r s' out. m s = (r, s', out) \<Longrightarrow> rel s s' out) \<Longrightarrow> moves m"
  by (auto simp: moves_def) (metis prod.collapse)

lemma movesD: "moves m \<Longrightarrow> m s = (r, s', out) \<Longrightarrow> rel s s' out"
  unfolding moves_def by (metis fst_conv snd_conv)

lemma moves_return: "moves (op_return x)"
  and moves_lift: "moves (op_lift r)"
  and moves_get: "moves (op_get f)"
  by (simp_all add: moves_def rel_refl)

lemma moves_modify: "(\<And>s. rel s (f s) []) \<Longrightarrow> moves (op_modify f)"
  and moves_emit: "(\<And>s. rel s s [out]) \<Longrightarrow> moves (op_emit out)"
  by (simp_all add: moves_def)

lemma moves_bind: "moves m \<Longrightarrow> (\<And>x. moves (k x)) \<Longrightarrow> moves (op_bind m k)"
proof (rule movesI)
  fix s r s' out
  assume m: "moves m" and k: "\<And>x. moves (k x)" and run: "op_bind m k s = (r, s', out)"
  obtain r1 s1 out1 where 1: "m s = (r1, s1, out1)" by (cases "m s")
  show "rel s s' out"
  proof (cases r1)
    case (Inl f)
    then show ?thesis using run 1 movesD [OF m 1] by (simp add: op_bind_def)
  next
    case (Inr x)
    obtain r2 s2 out2 where 2: "k x s1 = (r2, s2, out2)" by (cases "k x s1")
    have "rel s s2 (out1 @ out2)" by (rule rel_trans [OF movesD [OF m 1] movesD [OF k 2]])
    then show ?thesis using run 1 2 Inr by (simp add: op_bind_def)
  qed
qed

lemma moves_then: "moves m \<Longrightarrow> moves n \<Longrightarrow> moves (op_then m n)"
  unfolding op_then_def by (rule moves_bind)

lemma moves_expect: "moves m \<Longrightarrow> moves (op_expect m)"
proof (rule movesI)
  fix s r s' out
  assume m: "moves m" and run: "op_expect m s = (r, s', out)"
  obtain r1 s1 out1 where 1: "m s = (r1, s1, out1)" by (cases "m s")
  have "s' = s1 \<and> out = out1" using run 1 by (cases r1) (auto simp: op_expect_def)
  then show "rel s s' out" using movesD [OF m 1] by simp
qed

lemma moves_for: "(\<And>x. moves (f x)) \<Longrightarrow> moves (op_for xs f)"
  by (induction xs) (auto intro: moves_return moves_then)

lemma moves_if: "(b \<Longrightarrow> moves m) \<Longrightarrow> (\<not> b \<Longrightarrow> moves n) \<Longrightarrow> moves (if b then m else n)"
  by simp

lemma moves_option:
  "(o' = None \<Longrightarrow> moves m) \<Longrightarrow> (\<And>x. o' = Some x \<Longrightarrow> moves (k x)) \<Longrightarrow>
   moves (case o' of None \<Rightarrow> m | Some x \<Rightarrow> k x)"
  by (cases o') simp_all

lemmas moves_intros = moves_return moves_lift moves_get moves_bind moves_then moves_expect moves_for
  moves_if moves_option

end

section \<open>Invariants of operations that succeed\<close>

text \<open>
  \<open>keeps m\<close>: when \<open>m\<close> starts in a state with the invariant and neither fails nor panics, the invariant
  holds again. A panic ends its task, so nothing is asked of the state it leaves.
\<close>

locale op_invariant =
  fixes inv :: "'s \<Rightarrow> bool"
begin

definition keeps :: "('s, 'o, 'e, 'a) op \<Rightarrow> bool" where
  "keeps m \<longleftrightarrow> (\<forall>s x s' out. inv s \<longrightarrow> m s = (Ok x, s', out) \<longrightarrow> inv s')"

lemma keepsI: "(\<And>s x s' out. inv s \<Longrightarrow> m s = (Ok x, s', out) \<Longrightarrow> inv s') \<Longrightarrow> keeps m"
  unfolding keeps_def by blast

lemma keepsD: "keeps m \<Longrightarrow> inv s \<Longrightarrow> m s = (Ok x, s', out) \<Longrightarrow> inv s'"
  unfolding keeps_def by blast

lemma keeps_return: "keeps (op_return x)"
  and keeps_lift: "keeps (op_lift r)"
  and keeps_get: "keeps (op_get f)"
  and keeps_emit: "keeps (op_emit out)"
  by (simp_all add: keeps_def)

lemma keeps_modify: "(\<And>s. inv s \<Longrightarrow> inv (f s)) \<Longrightarrow> keeps (op_modify f)"
  by (simp add: keeps_def)

lemma keeps_bind: "keeps m \<Longrightarrow> (\<And>x. keeps (k x)) \<Longrightarrow> keeps (op_bind m k)"
proof (rule keepsI)
  fix s x s' out
  assume m: "keeps m" and k: "\<And>x. keeps (k x)" and s: "inv s" and run: "op_bind m k s = (Ok x, s', out)"
  obtain r1 s1 out1 where 1: "m s = (r1, s1, out1)" by (cases "m s")
  with run obtain y out2 where "r1 = Ok y" "k y s1 = (Ok x, s', out2)"
    by (cases r1) (auto simp: op_bind_def split: prod.splits)
  then show "inv s'" using keepsD [OF m s] keepsD [OF k] 1 by blast
qed

lemma keeps_then: "keeps m \<Longrightarrow> keeps n \<Longrightarrow> keeps (op_then m n)"
  unfolding op_then_def by (rule keeps_bind)

lemma keeps_for: "(\<And>x. x \<in> set xs \<Longrightarrow> keeps (f x)) \<Longrightarrow> keeps (op_for xs f)"
proof (induction xs)
  case Nil
  show ?case unfolding op_for.simps by (rule keeps_return)
next
  case (Cons x xs)
  then show ?case unfolding op_for.simps by (intro keeps_then) auto
qed

lemma keeps_if: "(b \<Longrightarrow> keeps m) \<Longrightarrow> (\<not> b \<Longrightarrow> keeps n) \<Longrightarrow> keeps (if b then m else n)"
  by simp

lemma keeps_option:
  "(o' = None \<Longrightarrow> keeps m) \<Longrightarrow> (\<And>x. o' = Some x \<Longrightarrow> keeps (k x)) \<Longrightarrow>
   keeps (case o' of None \<Rightarrow> m | Some x \<Rightarrow> k x)"
  by (cases o') simp_all

lemma keeps_sum:
  "(\<And>x. r = Inl x \<Longrightarrow> keeps (m x)) \<Longrightarrow> (\<And>x. r = Inr x \<Longrightarrow> keeps (k x)) \<Longrightarrow>
   keeps (case r of Inl x \<Rightarrow> m x | Inr x \<Rightarrow> k x)"
  by (cases r) simp_all

lemma keeps_prod: "(\<And>x y. p = (x, y) \<Longrightarrow> keeps (k x y)) \<Longrightarrow> keeps (case p of (x, y) \<Rightarrow> k x y)"
  by (cases p) simp_all

text \<open>Reading the state before going on.\<close>

lemma keeps_get_bind:
  "(\<And>s x s' out. inv s \<Longrightarrow> k (f s) s = (Ok x, s', out) \<Longrightarrow> inv s') \<Longrightarrow> keeps (op_bind (op_get f) k)"
  by (auto simp: keeps_def op_bind_def split: prod.splits)

lemmas keeps_intros = keeps_return keeps_lift keeps_get keeps_emit keeps_bind keeps_then keeps_for keeps_if
  keeps_option keeps_sum keeps_prod

end

end
