(* ===== verification/Store.thy ===== *)
theory Store
  imports Messages
begin

text \<open>
  \<open>store/src/lib.rs\<close>: the task that owns the database and the queue of reads that wait for a key.
  The database is RocksDB, a parameter: the functions \<open>db_get\<close> and \<open>db_put\<close> on an opaque state.
\<close>

section \<open>The database\<close>

record 'db rocksdb =
  db_get :: "'db \<Rightarrow> bytes \<Rightarrow> (rocksdb_error, bytes option) result"
  db_put :: "'db \<Rightarrow> bytes \<Rightarrow> bytes \<Rightarrow> 'db"

text \<open>Documented behaviour: without an I/O failure a read returns the last value put.\<close>

definition rocksdb_ok :: "'db rocksdb \<Rightarrow> bool" where
  "rocksdb_ok r \<longleftrightarrow>
     (\<forall>d k. \<exists>v. db_get r d k = Ok v) \<and>
     (\<forall>d k v k'. db_get r (db_put r d k v) k' = (if k' = k then Ok (Some v) else db_get r d k'))"

section \<open>The store task\<close>

text \<open>A waiter stands for the sending half of a oneshot channel.\<close>

datatype 'w store_command =
  Write bytes bytes
| Read bytes 'w
| NotifyRead bytes 'w

datatype 'w store_reply =
  ReadReply 'w "(rocksdb_error, bytes option) result"
| NotifyReply 'w "(rocksdb_error, bytes) result"

record ('db, 'w) store =
  db :: 'db
  obligations :: "bytes \<Rightarrow> 'w list option"

definition store_new :: "'db \<Rightarrow> ('db, 'w) store" where
  "store_new d = \<lparr>db = d, obligations = Map.empty\<rparr>"

fun store_step ::
  "'db rocksdb \<Rightarrow> 'w store_command \<Rightarrow> ('db, 'w) store \<Rightarrow> ('db, 'w) store \<times> 'w store_reply list" where
  "store_step r (Write key value) st =
     (let st1 = st\<lparr>db := db_put r (db st) key value\<rparr> in
      case obligations st key of
        None \<Rightarrow> (st1, [])
      | Some senders \<Rightarrow>
          (st1\<lparr>obligations := (obligations st)(key := None)\<rparr>, map (\<lambda>s. NotifyReply s (Ok value)) senders))"
| "store_step r (Read key sender) st = (st, [ReadReply sender (db_get r (db st) key)])"
| "store_step r (NotifyRead key sender) st =
     (case db_get r (db st) key of
        Inr None \<Rightarrow>
          (st\<lparr>obligations := (obligations st)(key \<mapsto>
             (case obligations st key of None \<Rightarrow> [] | Some senders \<Rightarrow> senders) @ [sender])\<rparr>, [])
      | Inr (Some v) \<Rightarrow> (st, [NotifyReply sender (Ok v)])
      | Inl f \<Rightarrow> (st, [NotifyReply sender (Inl f)]))"

section \<open>The contract of a store\<close>

text \<open>
  What the clients of a store rely on: a read sees the last write of the key, and no other. The
  first argument is the database the store runs on.
\<close>

locale key_value =
  fixes ok :: "'r \<Rightarrow> bool"
    and read_key :: "'r \<Rightarrow> 's \<Rightarrow> 'k \<Rightarrow> 'v option"
    and write_key :: "'r \<Rightarrow> 's \<Rightarrow> 'k \<Rightarrow> 'v \<Rightarrow> 's"
  assumes read_write: "ok r \<Longrightarrow> read_key r (write_key r s k v) k' = (if k' = k then Some v else read_key r s k')"
begin

definition write_list :: "'r \<Rightarrow> ('k \<times> 'v) list \<Rightarrow> 's \<Rightarrow> 's" where
  "write_list r kvs s = fold (\<lambda>(k, v) s. write_key r s k v) kvs s"

lemma read_write_list:
  "ok r \<Longrightarrow> read_key r (write_list r kvs s) k =
     (case map_of (rev kvs) k of None \<Rightarrow> read_key r s k | Some v \<Rightarrow> Some v)"
proof (induction kvs rule: rev_induct)
  case Nil
  then show ?case by (simp add: write_list_def)
next
  case (snoc kv kvs)
  then show ?case by (cases kv) (simp add: write_list_def read_write)
qed

text \<open>A key that is present stays present.\<close>

lemma present_stays:
  "ok r \<Longrightarrow> read_key r s k \<noteq> None \<Longrightarrow> read_key r (write_list r kvs s) k \<noteq> None"
  by (simp add: read_write_list split: option.split)

lemma absent_unless_written:
  "ok r \<Longrightarrow> read_key r s k = None \<Longrightarrow> k \<notin> fst ` set kvs \<Longrightarrow> read_key r (write_list r kvs s) k = None"
  by (simp add: read_write_list map_of_eq_None_iff image_set [symmetric] split: option.split)

end

definition stored :: "'db rocksdb \<Rightarrow> 'db \<Rightarrow> bytes \<Rightarrow> bytes option" where
  "stored r d k = (case db_get r d k of Inl _ \<Rightarrow> None | Inr v \<Rightarrow> v)"

interpretation database: key_value rocksdb_ok stored db_put
  by unfold_locales (auto simp: rocksdb_ok_def stored_def)

lemma get_stored: "rocksdb_ok r \<Longrightarrow> db_get r d k = Ok (stored r d k)"
proof -
  assume "rocksdb_ok r"
  then obtain v where "db_get r d k = Ok v" unfolding rocksdb_ok_def by blast
  then show ?thesis by (simp add: stored_def)
qed

text \<open>The store task honours the same contract for its clients.\<close>

definition store_read :: "'db rocksdb \<Rightarrow> ('db, 'w) store \<Rightarrow> bytes \<Rightarrow> bytes option" where
  "store_read r st k = stored r (db st) k"

definition store_write :: "'db rocksdb \<Rightarrow> ('db, 'w) store \<Rightarrow> bytes \<Rightarrow> bytes \<Rightarrow> ('db, 'w) store" where
  "store_write r st k v = fst (store_step r (Write k v) st)"

interpretation store_task: key_value rocksdb_ok store_read store_write
  by unfold_locales
    (simp add: store_read_def store_write_def Let_def database.read_write split: option.split)

section \<open>Waiting reads\<close>

text \<open>How often a waiter is registered, and how often it was answered.\<close>

definition registered :: "'w \<Rightarrow> 'w store_command list \<Rightarrow> nat" where
  "registered w cmds = length (filter (\<lambda>c. \<exists>k. c = NotifyRead k w) cmds)"

definition answered :: "'w \<Rightarrow> 'w store_reply list \<Rightarrow> nat" where
  "answered w replies = length (filter (\<lambda>c. \<exists>v. c = NotifyReply w v) replies)"

definition waits :: "('db, 'w) store \<Rightarrow> bytes \<Rightarrow> 'w \<Rightarrow> nat" where
  "waits st k w = (case obligations st k of None \<Rightarrow> 0 | Some ws \<Rightarrow> count_list ws w)"

lemma answered_append: "answered w (xs @ ys) = answered w xs + answered w ys"
  by (simp add: answered_def)

lemma answered_map: "answered w (map (\<lambda>s. NotifyReply s v) ws) = count_list ws w"
  by (induction ws) (auto simp: answered_def)

text \<open>The invariant of the task: a key somebody waits for is not in the database.\<close>

definition store_inv :: "'db rocksdb \<Rightarrow> ('db, 'w) store \<Rightarrow> bool" where
  "store_inv r st \<longleftrightarrow> (\<forall>k. obligations st k \<noteq> None \<longrightarrow> store_read r st k = None)"

lemma store_inv_new: "store_inv r (store_new d)"
  by (simp add: store_inv_def store_new_def)

lemma store_inv_step:
  assumes "rocksdb_ok r" and "store_inv r st"
  shows "store_inv r (fst (store_step r cmd st))"
proof (cases cmd)
  case (Write key x)
  then show ?thesis
    using assms
    by (auto simp: store_inv_def store_read_def Let_def database.read_write split: option.splits)
next
  case (Read key w)
  then show ?thesis using assms(2) by simp
next
  case (NotifyRead key w)
  then show ?thesis
    using assms by (auto simp: store_inv_def store_read_def get_stored split: option.splits)
qed

text \<open>One command: what a waiter for one key gains and loses.\<close>

lemma store_step_waits:
  assumes "rocksdb_ok r" and "\<And>k'. cmd = NotifyRead k' w \<Longrightarrow> k' = k"
    and "\<And>k'. k' \<noteq> k \<Longrightarrow> waits st k' w = 0"
  shows "waits st k w + registered w [cmd] =
      answered w (snd (store_step r cmd st)) + waits (fst (store_step r cmd st)) k w"
    and "k' \<noteq> k \<Longrightarrow> waits (fst (store_step r cmd st)) k' w = 0"
proof -
  have "waits st k w + registered w [cmd] =
        answered w (snd (store_step r cmd st)) + waits (fst (store_step r cmd st)) k w \<and>
      (\<forall>k'. k' \<noteq> k \<longrightarrow> waits (fst (store_step r cmd st)) k' w = 0)"
  proof (cases cmd)
    case (Write key x)
    show ?thesis
    proof (cases "obligations st key")
      case None
      then show ?thesis using Write assms(3) by (simp add: waits_def registered_def answered_def)
    next
      case (Some ws)
      have "count_list ws w = 0" if "key \<noteq> k" using assms(3) [OF that] Some by (simp add: waits_def)
      then show ?thesis
        using Write Some assms(3) by (auto simp: waits_def registered_def answered_map)
    qed
  next
    case (Read key w')
    then show ?thesis using assms(3) by (simp add: registered_def answered_def)
  next
    case (NotifyRead key w')
    have *: "w' = w \<Longrightarrow> key = k" using assms(2) NotifyRead by blast
    have other: "count_list ws w = 0" if "obligations st key = Some ws" "k \<noteq> key" for ws
      using assms(3) [of key] that by (simp add: waits_def)
    note v = get_stored [OF assms(1), of "db st" key]
    show ?thesis
    proof (cases "stored r (db st) key")
      case None
      then show ?thesis
        using NotifyRead v assms(3) * other
        by (auto simp: waits_def registered_def answered_def split: option.splits)
    next
      case (Some x)
      then show ?thesis
        using NotifyRead v assms(3) * by (auto simp: registered_def answered_def)
    qed
  qed
  then show "waits st k w + registered w [cmd] =
      answered w (snd (store_step r cmd st)) + waits (fst (store_step r cmd st)) k w"
    and "k' \<noteq> k \<Longrightarrow> waits (fst (store_step r cmd st)) k' w = 0" by blast+
qed

lemma store_run_waits:
  assumes "rocksdb_ok r" and "\<And>k'. NotifyRead k' w \<in> set cmds \<Longrightarrow> k' = k"
    and "\<And>k'. k' \<noteq> k \<Longrightarrow> waits st k' w = 0" and "store_inv r st"
  shows "waits st k w + registered w cmds =
      answered w (concat (snd (run_steps (store_step r) cmds st))) +
      waits (fst (run_steps (store_step r) cmds st)) k w \<and>
    store_inv r (fst (run_steps (store_step r) cmds st))"
  using assms(2-4)
proof (induction cmds arbitrary: st)
  case Nil
  then show ?case by (simp add: registered_def answered_def)
next
  case (Cons cmd cmds)
  let ?st = "fst (store_step r cmd st)"
  have step: "waits st k w + registered w [cmd] =
      answered w (snd (store_step r cmd st)) + waits ?st k w"
    "\<And>k'. k' \<noteq> k \<Longrightarrow> waits ?st k' w = 0"
    using store_step_waits [OF assms(1), of cmd w k st] Cons.prems(1,2) by auto
  have "waits ?st k w + registered w cmds =
      answered w (concat (snd (run_steps (store_step r) cmds ?st))) +
      waits (fst (run_steps (store_step r) cmds ?st)) k w \<and>
    store_inv r (fst (run_steps (store_step r) cmds ?st))"
    using Cons.prems step(2) store_inv_step [OF assms(1) Cons.prems(3)] by (intro Cons.IH) auto
  moreover have "registered w (cmd # cmds) = registered w [cmd] + registered w cmds"
    by (simp add: registered_def)
  ultimately show ?case
    using step(1) by (simp add: answered_append del: run_steps.simps)
qed

section \<open>A concrete database\<close>

definition ex_rocksdb :: "(bytes \<times> bytes) list rocksdb" where
  "ex_rocksdb = \<lparr>db_get = (\<lambda>d k. Ok (map_of d k)), db_put = (\<lambda>d k v. (k, v) # d)\<rparr>"

lemma ex_rocksdb_ok [simp]: "rocksdb_ok ex_rocksdb"
  by (simp add: rocksdb_ok_def ex_rocksdb_def)

section \<open>Properties\<close>

text \<open>
  C30: A waiting read is never lost and never answered twice: after any sequence of commands, the reads
  registered by a waiter for a key are those answered plus those still waiting, and nobody still waits
  for a key that is in the database.
\<close>

theorem notify_read_answered:
  fixes w :: 'w
  assumes "rocksdb_ok r" and "\<And>k'. NotifyRead k' w \<in> set cmds \<Longrightarrow> k' = k"
    and "run_steps (store_step r) cmds (store_new d) = (st, replies)"
  shows "registered w cmds = answered w (concat replies) + waits st k w \<and>
    (store_read r st k \<noteq> None \<longrightarrow> waits st k w = 0)"
proof -
  have "waits (store_new d) k w = 0" for k and w :: 'w
    by (simp add: waits_def store_new_def)
  then have "waits (store_new d) k w + registered w cmds =
      answered w (concat (snd (run_steps (store_step r) cmds (store_new d)))) +
      waits (fst (run_steps (store_step r) cmds (store_new d))) k w \<and>
    store_inv r (fst (run_steps (store_step r) cmds (store_new d)))"
    by (intro store_run_waits assms(1,2) store_inv_new)
  then have "registered w cmds = answered w (concat replies) + waits st k w \<and> store_inv r st"
    using assms(3) \<open>\<And>w k. waits (store_new d) k w = 0\<close> by simp
  then show ?thesis by (auto simp: store_inv_def waits_def split: option.splits)
qed

theorem notify_read_answered_witness:
  "\<exists>st replies. run_steps (store_step ex_rocksdb) [NotifyRead [1] (7 :: nat), Read [1] 8, Write [1] [5]]
      (store_new []) = (st, replies) \<and>
    answered 7 (concat replies) + waits st [1] 7 = 1 \<and> waits st [1] 7 = 0"
proof -
  let ?cmds = "[NotifyRead [1] (7 :: nat), Read [1] 8, Write [1] [5]]"
  obtain st replies where run: "run_steps (store_step ex_rocksdb) ?cmds (store_new []) = (st, replies)"
    by fastforce
  have "store_read ex_rocksdb st [1] \<noteq> None"
    using run by (auto simp: store_new_def ex_rocksdb_def store_read_def stored_def)
  moreover have "registered 7 ?cmds = 1" by (simp add: registered_def)
  ultimately show ?thesis
    using notify_read_answered [OF ex_rocksdb_ok _ run, of 7 "[1]"] run by auto
qed

end
