(* ===== verification/PrimaryNode.thy ===== *)
theory PrimaryNode
  imports Aggregators Effects Store
begin

text \<open>
  What the tasks of a primary share (\<open>primary/src/primary.rs\<close>): the message types, the
  serialisation that the \<open>bincode\<close> crate provides, the constant data of a node, and the two network
  handlers. Serialising these types into memory cannot fail, so the serialising functions are total
  and the \<open>expect\<close> on their result is not a branch.
\<close>

section \<open>Messages\<close>

datatype primary_message =
  HeaderMsg header
| VoteMsg vote
| CertificateMsg certificate
| CertificatesRequest "digest list" public_key

datatype primary_worker_message =
  Synchronize "digest list" public_key
| Cleanup round
| BatchSilent round bool

datatype worker_primary_message =
  OurBatch digest worker_id
| OthersBatch digest worker_id

datatype waiter_message =
  SyncBatches "(digest \<times> worker_id) list" header
| SyncParents "digest list" header

section \<open>Serialisation\<close>

text \<open>The functions of \<open>bincode\<close> the primary uses; deserialising may fail.\<close>

record bincode =
  ser_header :: "header \<Rightarrow> bytes"
  ser_certificate :: "certificate \<Rightarrow> bytes"
  de_certificate :: "bytes \<Rightarrow> certificate option"
  ser_primary_message :: "primary_message \<Rightarrow> bytes"
  de_primary_message :: "bytes \<Rightarrow> primary_message option"
  ser_worker_message :: "primary_worker_message \<Rightarrow> bytes"
  de_worker_message :: "bytes \<Rightarrow> worker_primary_message option"

section \<open>A node\<close>

text \<open>The constant data of a primary and the third-party functions it runs on.\<close>

record 'db node =
  nd_crypto :: dalek
  nd_codec :: bincode
  nd_rocksdb :: "'db rocksdb"
  nd_name :: public_key
  nd_secret :: secret_key
  nd_committee :: committee
  nd_gc_depth :: round

text \<open>\<open>StoreError\<close> is converted into \<open>DagError\<close> by the \<open>?\<close> operator.\<close>

definition read_store :: "'db node \<Rightarrow> 'db \<Rightarrow> bytes \<Rightarrow> (dag_error, bytes option) result" where
  "read_store nd d key = map_err StoreError (db_get (nd_rocksdb nd) d key)"

text \<open>The key under which the primary notes that one of its workers has a batch.\<close>

definition payload_key :: "digest \<Rightarrow> worker_id \<Rightarrow> bytes" where
  "payload_key d wid = digest_to_vec d @ le_bytes 4 wid"

definition others_addresses :: "'db node \<Rightarrow> socket_addr list" where
  "others_addresses nd =
     map (\<lambda>(_, x). primary_to_primary x) (others_primaries (nd_committee nd) (nd_name nd))"

text \<open>\<open>set_ip("0.0.0.0")\<close>: the address a receiver listens on.\<close>

definition listen_on :: "socket_addr \<Rightarrow> socket_addr" where
  "listen_on a = a\<lparr>ip := V4 0\<rparr>"

section \<open>Network handlers\<close>

text \<open>
  \<open>PrimaryReceiverHandler\<close> and \<open>WorkerReceiverHandler\<close>: the channel a message goes to, or the
  error. The primary handler replies with an acknowledgement before it looks at the message.
\<close>

datatype primary_delivery =
  Ack bytes
| ToHelper "digest list" public_key
| ToCore primary_message
| ToProposerDigest digest worker_id
| ToPayloadReceiver digest worker_id

definition ack_bytes :: bytes where
  "ack_bytes = map of_char ''Ack''"

definition dispatch_primary ::
  "bincode \<Rightarrow> bytes \<Rightarrow> primary_delivery list \<times> (dag_error, unit) result" where
  "dispatch_primary b serialized =
     (case de_primary_message b serialized of
        None \<Rightarrow> ([Ack ack_bytes], Err (SerializationError BincodeError))
      | Some (CertificatesRequest missing requestor) \<Rightarrow> ([Ack ack_bytes, ToHelper missing requestor], Ok ())
      | Some request \<Rightarrow> ([Ack ack_bytes, ToCore request], Ok ()))"

definition dispatch_worker ::
  "bincode \<Rightarrow> bytes \<Rightarrow> primary_delivery list \<times> (dag_error, unit) result" where
  "dispatch_worker b serialized =
     (case de_worker_message b serialized of
        None \<Rightarrow> ([], Err (SerializationError BincodeError))
      | Some (OurBatch d wid) \<Rightarrow> ([ToProposerDigest d wid], Ok ())
      | Some (OthersBatch d wid) \<Rightarrow> ([ToPayloadReceiver d wid], Ok ()))"

text \<open>The core task panics on a certificate request; the handler never gives it one.\<close>

lemma dispatch_primary_core:
  "ToCore m \<in> set (fst (dispatch_primary b bs)) \<Longrightarrow> m \<noteq> CertificatesRequest ds k"
  by (auto simp: dispatch_primary_def split: option.splits primary_message.splits)

lemma payload_key_inject [simp]: "payload_key d w = payload_key d' w' \<longleftrightarrow> d = d' \<and> w = w'"
  by (auto simp: payload_key_def dest: le_bytes_inject [rotated])

lemma payload_key_length [simp]: "length (payload_key d w) = 36"
  by (simp add: payload_key_def)

text \<open>Keys of certificates and headers are 32 bytes long, so a payload key is neither.\<close>

lemma payload_key_not_digest: "payload_key d w \<noteq> digest_to_vec e"
proof
  assume "payload_key d w = digest_to_vec e"
  then have "length (payload_key d w) = length (digest_to_vec e)" by (rule arg_cong)
  then show False by simp
qed

section \<open>A concrete node\<close>

text \<open>A header of round 1 on top of three genesis certificates.\<close>

definition ex_block :: "b256 \<Rightarrow> header" where
  "ex_block k = header_default\<lparr>h_author := PublicKey k, h_round := 1, h_id := Digest 259,
      h_parents := [Digest 1, Digest 2, Digest 3]\<rparr>"

definition ex_certified_block :: certificate where
  "ex_certified_block =
     \<lparr>c_header = ex_block 2, c_votes = map (\<lambda>k. (k, signature_default)) [PublicKey 1, PublicKey 2, PublicKey 3]\<rparr>"

definition ex_bincode :: bincode where
  "ex_bincode =
     \<lparr>ser_header = (\<lambda>_. [0]), ser_certificate = (\<lambda>_. [1]), de_certificate = (\<lambda>_. None),
      ser_primary_message = (\<lambda>_. [2]), 
      de_primary_message = (\<lambda>bs. if bs = [9] then Some (HeaderMsg (ex_block 2))
        else if bs = [10] then Some (CertificateMsg ex_certified_block) else None),
      ser_worker_message = (\<lambda>_. [3]), de_worker_message = (\<lambda>_. None)\<rparr>"

definition ex_node :: "(bytes \<times> bytes) list node" where
  "ex_node =
     \<lparr>nd_crypto = ex_dalek, nd_codec = ex_bincode, nd_rocksdb = ex_rocksdb, nd_name = PublicKey 1,
      nd_secret = SecretKey 1, nd_committee = ex_committee, nd_gc_depth = 1\<rparr>"

lemma ex_node_simps [simp]:
  "nd_crypto ex_node = ex_dalek" "nd_codec ex_node = ex_bincode" "nd_rocksdb ex_node = ex_rocksdb"
  "nd_name ex_node = PublicKey 1" "nd_secret ex_node = SecretKey 1" "nd_committee ex_node = ex_committee"
  "nd_gc_depth ex_node = 1"
  by (simp_all add: ex_node_def)

end
