(* ===== verification/Synchronizer.thy ===== *)
theory Synchronizer
  imports PrimaryNode
begin

text \<open>
  \<open>primary/src/synchronizer.rs\<close>: whether the store has the payload and the parents of a header and
  the ancestors of a certificate. Each function returns its result and the messages it sends to the
  waiters; it reads the store and does not change it.
\<close>

section \<open>Operations\<close>

definition sync_genesis :: "'db node \<Rightarrow> (digest \<times> certificate) list" where
  "sync_genesis nd = map (\<lambda>x. (cert_digest (nd_crypto nd) x, x)) (genesis (nd_committee nd))"

text \<open>The loop over the payload: the pairs that are not in the store, in the order of the map.\<close>

fun missing_batches ::
  "'db node \<Rightarrow> 'db \<Rightarrow> (digest \<times> worker_id) list \<Rightarrow> (dag_error, (digest \<times> worker_id) list) result"
where
  "missing_batches nd d [] = Ok []"
| "missing_batches nd d ((h, wid) # payload) =
     and_then (read_store nd d (payload_key h wid)) (\<lambda>found.
     and_then (missing_batches nd d payload) (\<lambda>missing.
       Ok (if found = None then (h, wid) # missing else missing)))"

definition missing_payload ::
  "'db node \<Rightarrow> 'db \<Rightarrow> header \<Rightarrow> (dag_error, bool) result \<times> waiter_message list" where
  "missing_payload nd d h =
     (if h_author h = nd_name nd then (Ok False, [])
      else
        case missing_batches nd d (h_payload h) of
          Inl f \<Rightarrow> (Inl f, [])
        | Inr missing \<Rightarrow>
            if missing = [] then (Ok False, [])
            else (Ok True, [SyncBatches missing h]))"

text \<open>The loop over the parents: missing digests and parents found so far.\<close>

fun collect_parents ::
  "'db node \<Rightarrow> 'db \<Rightarrow> digest list \<Rightarrow> (dag_error, digest list \<times> certificate list) result" where
  "collect_parents nd d [] = Ok ([], [])"
| "collect_parents nd d (h # digests) =
     (case map_of (sync_genesis nd) h of
        Some g \<Rightarrow>
          and_then (collect_parents nd d digests) (\<lambda>(missing, parents). Ok (missing, g # parents))
      | None \<Rightarrow>
          and_then (read_store nd d (digest_to_vec h)) (\<lambda>found.
          case found of
            Some bs \<Rightarrow>
              (case de_certificate (nd_codec nd) bs of
                 None \<Rightarrow> Err (SerializationError BincodeError)
               | Some x \<Rightarrow>
                   and_then (collect_parents nd d digests) (\<lambda>(missing, parents). Ok (missing, x # parents)))
          | None \<Rightarrow>
              and_then (collect_parents nd d digests) (\<lambda>(missing, parents). Ok (h # missing, parents))))"

definition get_parents ::
  "'db node \<Rightarrow> 'db \<Rightarrow> header \<Rightarrow> (dag_error, certificate list) result \<times> waiter_message list" where
  "get_parents nd d h =
     (case collect_parents nd d (h_parents h) of
        Inl f \<Rightarrow> (Inl f, [])
      | Inr (missing, parents) \<Rightarrow>
          if missing = [] then (Ok parents, []) else (Ok [], [SyncParents missing h]))"

text \<open>
  The loop over the ancestors of a certificate; at the first missing one the certificate is sent to
  the certificate waiter (the second component says so).
\<close>

fun ancestors_present ::
  "'db node \<Rightarrow> 'db \<Rightarrow> digest list \<Rightarrow> (dag_error, bool) result" where
  "ancestors_present nd d [] = Ok True"
| "ancestors_present nd d (h # digests) =
     (if h \<in> fst ` set (sync_genesis nd) then ancestors_present nd d digests
      else and_then (read_store nd d (digest_to_vec h)) (\<lambda>found.
        if found = None then Ok False else ancestors_present nd d digests))"

definition deliver_certificate ::
  "'db node \<Rightarrow> 'db \<Rightarrow> certificate \<Rightarrow> (dag_error, bool) result \<times> certificate list" where
  "deliver_certificate nd d x =
     (let r = ancestors_present nd d (h_parents (c_header x))
      in (r, if r = Ok False then [x] else []))"

section \<open>What the answers mean\<close>

definition has_key :: "'db node \<Rightarrow> 'db \<Rightarrow> bytes \<Rightarrow> bool" where
  "has_key nd d k \<longleftrightarrow> stored (nd_rocksdb nd) d k \<noteq> None"

definition is_genesis_digest :: "'db node \<Rightarrow> digest \<Rightarrow> bool" where
  "is_genesis_digest nd h \<longleftrightarrow> h \<in> fst ` set (sync_genesis nd)"

lemma read_store_ok:
  "rocksdb_ok (nd_rocksdb nd) \<Longrightarrow> read_store nd d k = Ok (stored (nd_rocksdb nd) d k)"
  by (simp add: read_store_def get_stored)

lemma missing_batches_ok:
  assumes "rocksdb_ok (nd_rocksdb nd)"
  shows "missing_batches nd d payload =
     Ok (filter (\<lambda>(h, wid). \<not> has_key nd d (payload_key h wid)) payload)"
  by (induction payload) (auto simp: read_store_ok [OF assms] has_key_def)

lemma ancestors_present_ok:
  assumes "rocksdb_ok (nd_rocksdb nd)"
  shows "ancestors_present nd d hs =
     Ok (\<forall>h \<in> set hs. is_genesis_digest nd h \<or> has_key nd d (digest_to_vec h))"
  by (induction hs) (auto simp: read_store_ok [OF assms] has_key_def is_genesis_digest_def)

text \<open>The genesis of the example committee.\<close>

lemma ex_sync_genesis:
  "sync_genesis ex_node = map (\<lambda>k. (Digest k, certificate_default\<lparr>c_header := header_default\<lparr>h_author := PublicKey k\<rparr>\<rparr>)) [1, 2, 3, 4]"
  by (simp add: sync_genesis_def genesis_def cert_digest_def ex_hash32 vote_bytes_def nth_append
      digest_to_vec_def cert_round_def cert_origin_def header_default_def certificate_default_def
      le_bytes_def be_bytes_def key_as_ref_def upt_rec)

end
