(* ===== verification/Core.thy ===== *)
theory Core
  imports Synchronizer
begin

text \<open>
  \<open>primary/src/core.rs\<close>: the task that processes headers, votes and certificates. The three
  processing functions call each other; here they carry fuel, and \<open>CoreSafety\<close> shows that the fuel
  chosen is never used up. Sending a message reliably returns a cancel handler, which is a number here;
  dropping it stops the transmission.
\<close>

section \<open>State and outputs\<close>

record 'db core =
  k_db :: 'db
  k_gc_round :: round
  k_last_voted :: "round \<Rightarrow> public_key set option"
  k_processing :: "round \<Rightarrow> digest set option"
  k_current_header :: header
  k_votes_aggregator :: votes_aggregator
  k_certificates_aggregators :: "round \<Rightarrow> certificates_aggregator option"
  k_cancel_handlers :: "round \<Rightarrow> nat list option"
  k_next_handler :: nat

datatype core_action =
  Transmit nat socket_addr bytes
| SyncHeader waiter_message
| SyncCertificate certificate
| StoreWrite bytes bytes
| VoteCreated vote
| ToProposer "digest list" round
| ToConsensus certificate

type_synonym ('db, 'a) core_op = "('db core, core_action, dag_error, 'a) op"

definition core_new :: "'db \<Rightarrow> 'db core" where
  "core_new d =
     \<lparr>k_db = d, k_gc_round = 0, k_last_voted = Map.empty, k_processing = Map.empty,
      k_current_header = header_default, k_votes_aggregator = votes_aggregator_new,
      k_certificates_aggregators = Map.empty, k_cancel_handlers = Map.empty, k_next_handler = 0\<rparr>"

text \<open>\<open>entry(k).or_insert_with(..)\<close> of a hash map, as a lookup with a default.\<close>

definition or_default :: "'v \<Rightarrow> 'v option \<Rightarrow> 'v" where
  "or_default v found = (case found of None \<Rightarrow> v | Some w \<Rightarrow> w)"

section \<open>Effects\<close>

text \<open>\<open>ReliableSender::broadcast\<close> and \<open>send\<close>: one handler for every address.\<close>

definition net_broadcast :: "socket_addr list \<Rightarrow> bytes \<Rightarrow> ('db, nat list) core_op" where
  "net_broadcast addresses bs s =
     (let n = k_next_handler s; handlers = [n..<n + length addresses]
      in (Ok handlers, s\<lparr>k_next_handler := n + length addresses\<rparr>,
          map (\<lambda>(h, a). Transmit h a bs) (zip handlers addresses)))"

definition keep_handlers :: "round \<Rightarrow> nat list \<Rightarrow> ('db, unit) core_op" where
  "keep_handlers r handlers = op_modify (\<lambda>s.
     s\<lparr>k_cancel_handlers := (k_cancel_handlers s)(r \<mapsto> or_default [] (k_cancel_handlers s r) @ handlers)\<rparr>)"

definition write_store :: "'db node \<Rightarrow> bytes \<Rightarrow> bytes \<Rightarrow> ('db, unit) core_op" where
  "write_store nd key bs =
     op_then (op_modify (\<lambda>s. s\<lparr>k_db := db_put (nd_rocksdb nd) (k_db s) key bs\<rparr>))
       (op_emit (StoreWrite key bs))"

definition sync_get_parents :: "'db node \<Rightarrow> header \<Rightarrow> ('db, certificate list) core_op" where
  "sync_get_parents nd h s =
     (case get_parents nd (k_db s) h of (r, msgs) \<Rightarrow> (r, s, map SyncHeader msgs))"

definition sync_missing_payload :: "'db node \<Rightarrow> header \<Rightarrow> ('db, bool) core_op" where
  "sync_missing_payload nd h s =
     (case missing_payload nd (k_db s) h of (r, msgs) \<Rightarrow> (r, s, map SyncHeader msgs))"

definition sync_deliver :: "'db node \<Rightarrow> certificate \<Rightarrow> ('db, bool) core_op" where
  "sync_deliver nd x s =
     (case deliver_certificate nd (k_db s) x of (r, certs) \<Rightarrow> (r, s, map SyncCertificate certs))"

section \<open>Headers\<close>

definition mark_processing :: "header \<Rightarrow> ('db, unit) core_op" where
  "mark_processing h = op_modify (\<lambda>s.
     s\<lparr>k_processing := (k_processing s)(h_round h \<mapsto>
         insert (h_id h) (or_default {} (k_processing s (h_round h))))\<rparr>)"

text \<open>The loop over the parents: all of the previous round, and their stake added up.\<close>

fun check_parents ::
  "committee \<Rightarrow> header \<Rightarrow> certificate list \<Rightarrow> stake \<Rightarrow> (dag_error, stake) result" where
  "check_parents c h [] stk = Ok stk"
| "check_parents c h (x # xs) stk =
     and_then (ensure (cert_round x + 1 = h_round h) (MalformedHeader (h_id h)))
       (\<lambda>_. check_parents c h xs (stk + stake_of c (cert_origin x)))"

text \<open>\<open>last_voted.entry(round).insert(author)\<close>: whether the author is new in this round.\<close>

definition mark_voted :: "header \<Rightarrow> ('db, bool) core_op" where
  "mark_voted h s =
     (let authors = or_default {} (k_last_voted s (h_round h))
      in (Ok (h_author h \<notin> authors),
          s\<lparr>k_last_voted := (k_last_voted s)(h_round h \<mapsto> insert (h_author h) authors)\<rparr>, []))"

definition send_vote :: "'db node \<Rightarrow> header \<Rightarrow> vote \<Rightarrow> ('db, unit) core_op" where
  "send_vote nd h v =
     (case primary_of (nd_committee nd) (h_author h) of
        Inl _ \<Rightarrow> op_lift Panicked
      | Inr addrs \<Rightarrow>
          op_bind (net_broadcast [primary_to_primary addrs] (ser_primary_message (nd_codec nd) (VoteMsg v)))
            (\<lambda>handlers. keep_handlers (h_round h) handlers))"

section \<open>Votes and certificates\<close>

definition append_vote :: "'db node \<Rightarrow> vote \<Rightarrow> ('db, certificate option) core_op" where
  "append_vote nd v s =
     (case votes_append (nd_committee nd) (k_current_header s) v (k_votes_aggregator s) of
        (agg, r) \<Rightarrow> (r, s\<lparr>k_votes_aggregator := agg\<rparr>, []))"

definition append_certificate :: "'db node \<Rightarrow> certificate \<Rightarrow> ('db, digest list option) core_op" where
  "append_certificate nd x s =
     (case certificates_append (nd_crypto nd) (nd_committee nd) x
             (or_default certificates_aggregator_new (k_certificates_aggregators s (cert_round x))) of
        (agg, r) \<Rightarrow>
          (r, s\<lparr>k_certificates_aggregators := (k_certificates_aggregators s)(cert_round x \<mapsto> agg)\<rparr>, []))"

definition is_processing :: "certificate \<Rightarrow> 'db core \<Rightarrow> bool" where
  "is_processing x s \<longleftrightarrow> h_id (c_header x) \<in> or_default {} (k_processing s (h_round (c_header x)))"

section \<open>Processing\<close>

text \<open>The first argument is what happens when the fuel is used up.\<close>

fun header_with_fuel :: "('db, unit) core_op \<Rightarrow> nat \<Rightarrow> 'db node \<Rightarrow> header \<Rightarrow> ('db, unit) core_op"
and vote_with_fuel :: "('db, unit) core_op \<Rightarrow> nat \<Rightarrow> 'db node \<Rightarrow> vote \<Rightarrow> ('db, unit) core_op"
and certificate_with_fuel :: "('db, unit) core_op \<Rightarrow> nat \<Rightarrow> 'db node \<Rightarrow> certificate \<Rightarrow> ('db, unit) core_op" where
  "header_with_fuel z 0 nd h = z"
| "vote_with_fuel z 0 nd v = z"
| "certificate_with_fuel z 0 nd x = z"
| "header_with_fuel z (Suc n) nd h =
     op_then (mark_processing h)
     (op_bind (sync_get_parents nd h) (\<lambda>parents.
      if parents = [] then op_return ()
      else
        op_bind (op_lift (check_parents (nd_committee nd) h parents 0)) (\<lambda>stk.
        op_then (op_lift (ensure (quorum_threshold (nd_committee nd) \<le> stk) (HeaderRequiresQuorum (h_id h))))
        (op_bind (sync_missing_payload nd h) (\<lambda>missing.
         if missing then op_return ()
         else
           op_then (write_store nd (digest_to_vec (h_id h)) (ser_header (nd_codec nd) h))
           (op_bind (mark_voted h) (\<lambda>first.
            if first then
              op_bind (op_lift (map_err InvalidSignature (vote_new (nd_crypto nd) (nd_secret nd) h (nd_name nd))))
                (\<lambda>v. op_then (op_emit (VoteCreated v))
                  (if v_origin v = nd_name nd then op_expect (vote_with_fuel z n nd v)
                   else send_vote nd h v))
            else op_return ())))))))"
| "vote_with_fuel z (Suc n) nd v =
     op_bind (append_vote nd v) (\<lambda>assembled.
     case assembled of
       None \<Rightarrow> op_return ()
     | Some x \<Rightarrow>
         op_then
           (op_bind (net_broadcast (others_addresses nd) (ser_primary_message (nd_codec nd) (CertificateMsg x)))
             (\<lambda>handlers. keep_handlers (cert_round x) handlers))
           (op_expect (certificate_with_fuel z n nd x)))"
| "certificate_with_fuel z (Suc n) nd x =
     op_then
       (op_bind (op_get (is_processing x)) (\<lambda>known.
        if known then op_return () else header_with_fuel z n nd (c_header x)))
     (op_bind (sync_deliver nd x) (\<lambda>delivered.
      if \<not> delivered then op_return ()
      else
        op_then (write_store nd (digest_to_vec (cert_digest (nd_crypto nd) x)) (ser_certificate (nd_codec nd) x))
        (op_bind (append_certificate nd x) (\<lambda>parents.
         op_then
           (case parents of None \<Rightarrow> op_return () | Some ps \<Rightarrow> op_emit (ToProposer ps (cert_round x)))
           (op_emit (ToConsensus x))))))"

text \<open>
  The nesting is at most certificate of another vote, header, own vote, certificate, header, own vote:
  the last finds our vote in the aggregator and stops.
\<close>

definition core_fuel :: nat where
  "core_fuel = 7"

definition process_header :: "'db node \<Rightarrow> header \<Rightarrow> ('db, unit) core_op" where
  "process_header nd h = header_with_fuel (op_lift Panicked) core_fuel nd h"

definition process_vote :: "'db node \<Rightarrow> vote \<Rightarrow> ('db, unit) core_op" where
  "process_vote nd v = vote_with_fuel (op_lift Panicked) core_fuel nd v"

definition process_certificate :: "'db node \<Rightarrow> certificate \<Rightarrow> ('db, unit) core_op" where
  "process_certificate nd x = certificate_with_fuel (op_lift Panicked) core_fuel nd x"

definition process_own_header :: "'db node \<Rightarrow> header \<Rightarrow> ('db, unit) core_op" where
  "process_own_header nd h =
     op_then (op_modify (\<lambda>s. s\<lparr>k_current_header := h, k_votes_aggregator := votes_aggregator_new\<rparr>))
     (op_then
        (op_bind (net_broadcast (others_addresses nd) (ser_primary_message (nd_codec nd) (HeaderMsg h)))
          (\<lambda>handlers. keep_handlers (h_round h) handlers))
        (process_header nd h))"

section \<open>Sanitising\<close>

definition sanitize_header :: "'db node \<Rightarrow> header \<Rightarrow> 'db core \<Rightarrow> (dag_error, unit) result" where
  "sanitize_header nd h s =
     and_then (ensure (k_gc_round s \<le> h_round h) (TooOld (h_id h) (h_round h)))
       (\<lambda>_. header_verify (nd_crypto nd) (nd_committee nd) h)"

definition sanitize_vote :: "'db node \<Rightarrow> vote \<Rightarrow> 'db core \<Rightarrow> (dag_error, unit) result" where
  "sanitize_vote nd v s =
     and_then (ensure (h_round (k_current_header s) \<le> v_round v)
         (TooOld (vote_digest (nd_crypto nd) v) (v_round v))) (\<lambda>_.
     and_then (ensure (v_id v = h_id (k_current_header s) \<and> v_origin v = h_author (k_current_header s) \<and>
           v_round v = h_round (k_current_header s)) (UnexpectedVote (v_id v)))
       (\<lambda>_. vote_verify (nd_crypto nd) (nd_committee nd) v))"

definition sanitize_certificate :: "'db node \<Rightarrow> certificate \<Rightarrow> 'db core \<Rightarrow> (dag_error, unit) result" where
  "sanitize_certificate nd x s =
     and_then (ensure (k_gc_round s \<le> cert_round x) (TooOld (cert_digest (nd_crypto nd) x) (cert_round x)))
       (\<lambda>_. certificate_verify (nd_crypto nd) (nd_committee nd) x)"

section \<open>The run loop\<close>

datatype core_event =
  FromPrimary primary_message
| HeaderLoopback header
| CertificateLoopback certificate
| FromProposer header

text \<open>A check on the current state before an operation.\<close>

definition op_check :: "('s \<Rightarrow> ('e, unit) result) \<Rightarrow> ('s, 'o, 'e, unit) op" where
  "op_check f s = (f s, s, [])"

fun core_handle :: "'db node \<Rightarrow> core_event \<Rightarrow> ('db, unit) core_op" where
  "core_handle nd (FromPrimary (HeaderMsg h)) = op_then (op_check (sanitize_header nd h)) (process_header nd h)"
| "core_handle nd (FromPrimary (VoteMsg v)) = op_then (op_check (sanitize_vote nd v)) (process_vote nd v)"
| "core_handle nd (FromPrimary (CertificateMsg x)) =
     op_then (op_check (sanitize_certificate nd x)) (process_certificate nd x)"
| "core_handle nd (FromPrimary (CertificatesRequest _ _)) = op_lift Panicked"
| "core_handle nd (HeaderLoopback h) = process_header nd h"
| "core_handle nd (CertificateLoopback x) = process_certificate nd x"
| "core_handle nd (FromProposer h) = process_own_header nd h"

definition retain_from :: "round \<Rightarrow> (round \<Rightarrow> 'v option) \<Rightarrow> round \<Rightarrow> 'v option" where
  "retain_from gc m = (\<lambda>k. if gc \<le> k then m k else None)"

definition core_cleanup :: "'db node \<Rightarrow> round \<Rightarrow> 'db core \<Rightarrow> 'db core" where
  "core_cleanup nd loaded s =
     (if nd_gc_depth nd < loaded then
        let gc = loaded - nd_gc_depth nd in
        s\<lparr>k_last_voted := retain_from gc (k_last_voted s),
          k_processing := retain_from gc (k_processing s),
          k_certificates_aggregators := retain_from gc (k_certificates_aggregators s),
          k_cancel_handlers := retain_from gc (k_cancel_handlers s),
          k_gc_round := gc\<rparr>
      else s)"

text \<open>
  One iteration: the event, then the cleanup with the consensus round that was loaded. A storage failure
  kills the node; any other error is logged and the loop goes on.
\<close>

definition core_step :: "'db node \<Rightarrow> core_event \<Rightarrow> round \<Rightarrow> ('db, unit) core_op" where
  "core_step nd ev loaded s =
     (case core_handle nd ev s of (r, s1, out) \<Rightarrow>
        (case r of
           Inl Panic \<Rightarrow> (Panicked, s1, out)
         | Inl (Error (StoreError _)) \<Rightarrow> (Panicked, s1, out)
         | Inl (Error _) \<Rightarrow> (Ok (), core_cleanup nd loaded s1, out)
         | Inr _ \<Rightarrow> (Ok (), core_cleanup nd loaded s1, out)))"

definition core_run :: "'db node \<Rightarrow> (core_event \<times> round) list \<Rightarrow> ('db, unit) core_op" where
  "core_run nd events = op_for events (\<lambda>(ev, loaded). core_step nd ev loaded)"

end
