(* ===== verification/CoreVotes.thy ===== *)
theory CoreVotes
  imports CoreSafety
begin

text \<open>
  More properties of the core task: what it has checked when it votes, that a certificate whose
  ancestors it has is always passed on, and the panic on late votes for a collected round.
\<close>

section \<open>What a vote vouches for\<close>

definition writes :: "core_action list \<Rightarrow> (bytes \<times> bytes) list" where
  "writes out = concat (map (\<lambda>a. case a of StoreWrite k v \<Rightarrow> [(k, v)] | _ \<Rightarrow> []) out)"

definition after_writes :: "'db node \<Rightarrow> core_action list \<Rightarrow> 'db \<Rightarrow> 'db" where
  "after_writes nd out d = database.write_list (nd_rocksdb nd) (writes out) d"

text \<open>
  What a digest among the parents stands for in the store \<open>d\<close>: a genesis certificate with this digest, or the certificate that
  the bytes stored under the digest decode to.
\<close>

definition parent_stored :: "'db node \<Rightarrow> 'db \<Rightarrow> digest \<Rightarrow> certificate \<Rightarrow> bool" where
  "parent_stored nd d p x \<longleftrightarrow>
     x \<in> set (genesis (nd_committee nd)) \<and> cert_digest (nd_crypto nd) x = p \<or>
     (\<exists>bs. stored (nd_rocksdb nd) d (digest_to_vec p) = Some bs \<and> de_certificate (nd_codec nd) bs = Some x)"

text \<open>
  The vote \<open>v\<close> is for \<open>h\<close>, and in the store \<open>d\<close> the parents of \<open>h\<close> are certificates of the
  previous round with a quorum of stake, and there is the entry that tells that a worker of ours has it, for each batch. The
  batches of our own headers are not looked up.
\<close>

definition vouches :: "'db node \<Rightarrow> 'db \<Rightarrow> header \<Rightarrow> vote \<Rightarrow> bool" where
  "vouches nd d h v \<longleftrightarrow>
     v_id v = h_id h \<and> v_round v = h_round h \<and> v_origin v = h_author h \<and> v_author v = nd_name nd \<and>
     (\<exists>parents. list_all2 (parent_stored nd d) (h_parents h) parents \<and> parents \<noteq> [] \<and>
        (\<forall>x \<in> set parents. cert_round x + 1 = h_round h) \<and>
        quorum_threshold (nd_committee nd) \<le> sum_list (map (\<lambda>x. stake_of (nd_committee nd) (cert_origin x)) parents)) \<and>
     (h_author h = nd_name nd \<or>
      (\<forall>(x, wid) \<in> set (h_payload h). \<exists>bs. stored (nd_rocksdb nd) d (payload_key x wid) = Some bs))"

text \<open>What the synchronizer has found when it finds nothing missing.\<close>

lemma read_store_found: "read_store nd d k = Ok found \<Longrightarrow> stored (nd_rocksdb nd) d k = found"
  by (simp add: read_store_def stored_def split: sum.splits)

lemma collected_stored: "collect_parents nd d ds = Ok ([], ps) \<Longrightarrow> list_all2 (parent_stored nd d) ds ps"
proof (induction ds arbitrary: ps)
  case (Cons p ds)
  show ?case
  proof (cases "map_of (sync_genesis nd) p")
    case (Some g)
    then have "parent_stored nd d p g" by (auto simp: parent_stored_def sync_genesis_def dest!: map_of_SomeD)
    then show ?thesis using Cons Some by (auto simp: and_then_Ok_iff)
  next
    case None
    then obtain bs x ps' where "read_store nd d (digest_to_vec p) = Ok (Some bs)" "de_certificate (nd_codec nd) bs = Some x"
      "ps = x # ps'" "collect_parents nd d ds = Ok ([], ps')"
      using Cons.prems
      by (cases "read_store nd d (digest_to_vec p)") (fastforce simp: and_then_Ok_iff split: option.splits)+
    then show ?thesis using Cons.IH by (auto simp: parent_stored_def dest: read_store_found)
  qed
qed simp

lemma no_batch_missing:
  "missing_batches nd d payload = Ok [] \<Longrightarrow> \<forall>(x, wid) \<in> set payload. \<exists>bs. stored (nd_rocksdb nd) d (payload_key x wid) = Some bs"
  by (induction payload) (fastforce simp: and_then_Ok_iff dest!: read_store_found split: if_splits)+

lemma synchronized:
  assumes "get_parents nd d h = (Ok parents, [])" and "missing_payload nd d h = (Ok False, [])"
  shows "list_all2 (parent_stored nd d) (h_parents h) parents"
    and "h_author h = nd_name nd \<or> (\<forall>(x, wid) \<in> set (h_payload h). \<exists>bs. stored (nd_rocksdb nd) d (payload_key x wid) = Some bs)"
  using assms collected_stored [of nd d "h_parents h" parents] no_batch_missing [of nd d "h_payload h"]
  by (auto simp: get_parents_def missing_payload_def split: sum.splits if_splits)

definition vouched :: "'db node \<Rightarrow> 'db core \<Rightarrow> 'db core \<Rightarrow> core_action list \<Rightarrow> bool" where
  "vouched nd s s' out \<longleftrightarrow>
     k_db s' = after_writes nd out (k_db s) \<and>
     (\<forall>pre v post. out = pre @ VoteCreated v # post \<longrightarrow>
        (\<exists>h pre'. pre = pre' @ [StoreWrite (digest_to_vec (h_id h)) (ser_header (nd_codec nd) h)] \<and>
           vouches nd (after_writes nd pre' (k_db s)) h v))"

lemma after_writes_simps [simp]:
  "after_writes nd [] d = d"
  "after_writes nd (a # out) d =
     after_writes nd out (case a of StoreWrite k v \<Rightarrow> db_put (nd_rocksdb nd) d k v | _ \<Rightarrow> d)"
  "after_writes nd (out1 @ out2) d = after_writes nd out2 (after_writes nd out1 d)"
  by (auto simp: after_writes_def writes_def database.write_list_def split: core_action.split)

lemma after_writes_none:
  "after_writes nd (map SyncHeader ms) d = d" "after_writes nd (map SyncCertificate xs) d = d"
  "after_writes nd (map (\<lambda>(h, a). Transmit h a bs) hs) d = d"
  by (induction ms, simp_all, induction xs, simp_all, induction hs) auto

lemma vouched_trans:
  assumes "vouched nd s t out1" and "vouched nd t u out2"
  shows "vouched nd s u (out1 @ out2)"
  unfolding vouched_def
proof (intro conjI allI impI)
  have t: "k_db t = after_writes nd out1 (k_db s)" and u: "k_db u = after_writes nd out2 (k_db t)"
    using assms by (simp_all add: vouched_def)
  then show "k_db u = after_writes nd (out1 @ out2) (k_db s)" by simp
  fix pre v post
  assume "out1 @ out2 = pre @ VoteCreated v # post"
  then consider us where "out1 = pre @ VoteCreated v # us"
    | us where "pre = out1 @ us" "out2 = us @ VoteCreated v # post"
    by (auto simp: append_eq_append_conv2 append_eq_Cons_conv)
  then show "\<exists>h pre'. pre = pre' @ [StoreWrite (digest_to_vec (h_id h)) (ser_header (nd_codec nd) h)] \<and>
      vouches nd (after_writes nd pre' (k_db s)) h v"
  proof cases
    case (1 us)
    then show ?thesis using assms(1) by (simp add: vouched_def)
  next
    case (2 us)
    then obtain h pre' where "us = pre' @ [StoreWrite (digest_to_vec (h_id h)) (ser_header (nd_codec nd) h)]"
      and "vouches nd (after_writes nd pre' (k_db t)) h v"
      using assms(2) unfolding vouched_def by blast
    then show ?thesis unfolding 2(1) t by (intro exI [of _ h] exI [of _ "out1 @ pre'"]) simp
  qed
qed

interpretation vouched: transition "vouched nd" for nd :: "'db node"
  by unfold_locales (simp add: vouched_def, rule vouched_trans)

lemma vouched_quiet:
  assumes "k_db s' = after_writes nd out (k_db s)" and "\<And>v. VoteCreated v \<notin> set out"
  shows "vouched nd s s' out"
proof -
  have "out \<noteq> pre @ VoteCreated v # post" for pre v post using assms(2) [of v] by auto
  then show ?thesis using assms(1) by (auto simp: vouched_def)
qed

lemma check_parents_Ok:
  "check_parents c h xs stk = Ok t \<longleftrightarrow>
   (\<forall>x \<in> set xs. cert_round x + 1 = h_round h) \<and> t = stk + sum_list (map (\<lambda>x. stake_of c (cert_origin x)) xs)"
  by (induction xs arbitrary: stk) (auto simp: and_then_Ok_iff ensure_Ok_iff ac_simps)

text \<open>A header either stops before it is stored, with requests to the waiters at most, or passes every check.\<close>

lemma header_block_cases:
  assumes run: "header_block nd h next s = (r, s', out)"
  obtains (stopped) ms where "out = map SyncHeader ms" "s' = fst (snd (mark_processing h s))"
      "\<And>m. m \<in> set ms \<Longrightarrow> \<exists>missing. m = SyncParents missing h \<or> (\<exists>batches. m = SyncBatches batches h)"
  | (passed) parents stk where
      "get_parents nd (k_db s) h = (Ok parents, [])" "parents \<noteq> []"
      "check_parents (nd_committee nd) h parents 0 = Ok stk" "quorum_threshold (nd_committee nd) \<le> stk"
      "missing_payload nd (k_db s) h = (Ok False, [])"
      "op_then (write_store nd (digest_to_vec (h_id h)) (ser_header (nd_codec nd) h)) (cast_block nd h next)
         (fst (snd (mark_processing h s))) = (r, s', out)"
proof -
  define t where "t = fst (snd (mark_processing h s))"
  have t: "mark_processing h s = (Ok (), t, [])" "k_db t = k_db s"
    by (simp_all add: t_def mark_processing_def)
  obtain pr ms where gp: "get_parents nd (k_db s) h = (pr, ms)" by (cases "get_parents nd (k_db s) h")
  obtain mr ms' where mp: "missing_payload nd (k_db s) h = (mr, ms')" by (cases "missing_payload nd (k_db s) h")
  have ms: "ms = []" if "pr = Ok ps" "ps \<noteq> []" for ps
    using gp that by (auto simp: get_parents_def split: sum.splits if_splits)
  have about: "\<exists>missing. m = SyncParents missing h \<or> (\<exists>batches. m = SyncBatches batches h)" if "m \<in> set ms \<union> set ms'" for m
    using gp mp that by (auto simp: get_parents_def missing_payload_def split: sum.splits if_splits prod.splits)
  have ms': "ms' = []" if "mr = Ok False"
    using mp that by (auto simp: missing_payload_def split: sum.splits if_splits)
  consider (a) "\<nexists>ps. pr = Ok ps \<and> ps \<noteq> []"
    | (b) ps where "pr = Ok ps" "ps \<noteq> []"
        "\<nexists>stk. check_parents (nd_committee nd) h ps 0 = Ok stk \<and> quorum_threshold (nd_committee nd) \<le> stk"
    | (c) ps stk where "pr = Ok ps" "ps \<noteq> []" "check_parents (nd_committee nd) h ps 0 = Ok stk"
        "quorum_threshold (nd_committee nd) \<le> stk" "mr \<noteq> Ok False"
    | (d) ps stk where "pr = Ok ps" "ps \<noteq> []" "check_parents (nd_committee nd) h ps 0 = Ok stk"
        "quorum_threshold (nd_committee nd) \<le> stk" "mr = Ok False" by blast
  then show thesis
  proof cases
    case a
    then show thesis
      using run t gp stopped [of ms] about
      by (cases pr) (auto simp: header_block_def op_then_def op_bind_def sync_get_parents_def)
  next
    case b
    then show thesis
      using run t gp ms stopped [of "[]"]
      by (cases "check_parents (nd_committee nd) h ps 0")
        (auto simp: header_block_def op_then_def op_bind_def sync_get_parents_def ensure_def)
  next
    case c
    then show thesis
      using run t gp mp ms stopped [of ms'] about
      by (cases mr) (auto simp: header_block_def op_then_def op_bind_def sync_get_parents_def
          sync_missing_payload_def ensure_def)
  next
    case d
    then show thesis
      using run t gp mp ms ms' passed [of ps stk]
      by (auto simp: header_block_def op_then_def op_bind_def sync_get_parents_def
          sync_missing_payload_def ensure_def split: prod.splits sum.splits)
  qed
qed

lemma cast_block_cases:
  assumes run: "cast_block nd h next s = (r, s', out)"
  obtains (silent) "k_db s' = k_db s" "out = []" "k_current_header s' = k_current_header s"
      "k_votes_aggregator s' = k_votes_aggregator s"
  | (vote) v t out2 where "vote_new (nd_crypto nd) (nd_secret nd) h (nd_name nd) = Ok v" "k_db t = k_db s"
      "next v t = (r, s', out2)" "out = VoteCreated v # out2" "k_current_header t = k_current_header s"
      "k_votes_aggregator t = k_votes_aggregator s"
proof -
  let ?sig = "map_err InvalidSignature (vote_new (nd_crypto nd) (nd_secret nd) h (nd_name nd))"
  obtain b t where mark: "mark_voted h s = (Ok b, t, [])" "k_db t = k_db s" "k_current_header t = k_current_header s"
    "k_votes_aggregator t = k_votes_aggregator s"
    by (simp add: mark_voted_def Let_def)
  show thesis
  proof (cases "b \<and> (\<exists>v. ?sig = Ok v)")
    case False
    then show thesis
      using run mark silent by (cases ?sig; cases b) (auto simp: cast_block_def op_bind_def)
  next
    case True
    then obtain v where v: "?sig = Ok v" by blast
    moreover obtain r2 u out2 where "next v t = (r2, u, out2)" by (cases "next v t")
    ultimately show thesis
      using True run mark vote [of v t out2]
      by (cases "vote_new (nd_crypto nd) (nd_secret nd) h (nd_name nd)")
        (auto simp: cast_block_def op_bind_def op_then_def)
  qed
qed

lemma vouched_header:
  assumes "\<And>v. vouched.moves nd (next v)"
  shows "vouched.moves nd (header_block nd h next)"
proof (rule vouched.movesI)
  fix s r s' out
  assume "header_block nd h next s = (r, s', out)"
  then show "vouched nd s s' out"
  proof (cases rule: header_block_cases)
    case (stopped ms)
    then show ?thesis by (auto intro!: vouched_quiet simp: after_writes_none mark_processing_def)
  next
    case (passed parents stk)
    let ?w = "StoreWrite (digest_to_vec (h_id h)) (ser_header (nd_codec nd) h)"
    define t where "t = s\<lparr>k_db := db_put (nd_rocksdb nd) (k_db s) (digest_to_vec (h_id h)) (ser_header (nd_codec nd) h)\<rparr>"
    have db: "k_db t = after_writes nd [?w] (k_db s)" by (simp add: t_def)
    have ok: "vouches nd (k_db s) h v" if "vote_new (nd_crypto nd) (nd_secret nd) h (nd_name nd) = Ok v" for v
      unfolding vouches_def
    proof (intro conjI)
      show "v_id v = h_id h" "v_round v = h_round h" "v_origin v = h_author h" "v_author v = nd_name nd"
        using that by (auto simp: vote_new_def Let_def and_then_Ok_iff)
      show "\<exists>parents. list_all2 (parent_stored nd (k_db s)) (h_parents h) parents \<and> parents \<noteq> [] \<and>
          (\<forall>x \<in> set parents. cert_round x + 1 = h_round h) \<and>
          quorum_threshold (nd_committee nd) \<le> sum_list (map (\<lambda>x. stake_of (nd_committee nd) (cert_origin x)) parents)"
        using synchronized(1) [OF passed(1,5)] passed(2-4) by (auto simp: check_parents_Ok)
    qed (rule synchronized(2) [OF passed(1,5)])
    have "\<exists>u out2. k_db u = k_db t \<and> cast_block nd h next u = (r, s', out2) \<and> out = ?w # out2"
      using passed(6)
      by (intro exI [of _ "fst (snd (mark_processing h s))\<lparr>k_db := k_db t\<rparr>"])
        (auto simp: op_then_def op_bind_def write_store_def mark_processing_def t_def split: prod.splits)
    then obtain u out2 where cast: "k_db u = k_db t" "cast_block nd h next u = (r, s', out2)" "out = ?w # out2"
      by blast
    from cast(2) show ?thesis
    proof (cases rule: cast_block_cases)
      case silent
      then show ?thesis using cast(1,3) db by (auto intro!: vouched_quiet)
    next
      case (vote v w out3)
      have "vouched nd s w [?w, VoteCreated v]"
        using ok [OF vote(1)] vote(2) cast(1) db by (auto simp: vouched_def Cons_eq_append_conv)
      then have "vouched nd s s' ([?w, VoteCreated v] @ out3)"
        by (rule vouched_trans) (rule vouched.movesD [OF assms vote(3)])
      then show ?thesis using cast(3) vote(4) by simp
    qed
  qed
qed

interpretation vouched_core: core_blocks "vouched nd" nd for nd :: "'db node"
proof unfold_locales
  show "vouched.moves nd (header_block nd h next)" if "\<And>v. vouched.moves nd (next v)"
    for h and "next" :: "vote \<Rightarrow> ('db, unit) core_op"
    using that by (rule vouched_header)
  have "vouched.moves nd (sync_deliver nd x)" "vouched.moves nd (append_certificate nd x)"
    "vouched.moves nd (write_store nd k bs)"
    "vouched.moves nd (op_emit (ToProposer ps r) :: ('db, unit) core_op)"
    "vouched.moves nd (op_emit (ToConsensus x) :: ('db, unit) core_op)" for x k bs ps r
    by (auto simp: vouched.moves_def core_effects op_then_def op_bind_def after_writes_none
        intro!: vouched_quiet split: prod.splits)
  then show "vouched.moves nd (deliver_block nd x)" for x
    unfolding deliver_block_def by (intro vouched.moves_intros)
qed (auto simp: vouched.moves_def core_effects after_writes_none Let_def intro!: vouched_quiet split: prod.splits)

lemma core_step_vouched: "vouched.moves nd (core_step nd ev loaded)"
  by (rule core_step_moves)
    (auto intro!: vouched.transition_axioms vouched_core.moves_handle vouched.moves_modify vouched_quiet
      simp: core_cleanup_def Let_def)

lemma header_block_passes:
  assumes "get_parents nd (k_db s) h = (Ok parents, [])" "parents \<noteq> []"
    "check_parents (nd_committee nd) h parents 0 = Ok stk" "quorum_threshold (nd_committee nd) \<le> stk"
    "missing_payload nd (k_db s) h = (Ok False, [])"
  shows "header_block nd h next s =
    op_then (write_store nd (digest_to_vec (h_id h)) (ser_header (nd_codec nd) h)) (cast_block nd h next)
      (fst (snd (mark_processing h s)))"
  using assms
  by (simp add: header_block_def op_then_def op_bind_def sync_get_parents_def sync_missing_payload_def
      mark_processing_def ensure_def split: prod.splits sum.splits)

lemma cast_block_run:
  assumes "vote_new (nd_crypto nd) (nd_secret nd) h (nd_name nd) = Ok v"
  shows "cast_block nd h next s =
    (if h_author h \<in> or_default {} (k_last_voted s (h_round h)) then (Ok (), fst (snd (mark_voted h s)), [])
     else case next v (fst (snd (mark_voted h s))) of (r, s', out) \<Rightarrow> (r, s', VoteCreated v # out))"
  using assms by (simp add: cast_block_def op_bind_def op_then_def mark_voted_def Let_def)

section \<open>A concrete run\<close>

text \<open>The parents of the header \<open>ex_block\<close>, and votes for it.\<close>

definition ex_parents :: "certificate list" where
  "ex_parents = map (\<lambda>k. certificate_default\<lparr>c_header := header_default\<lparr>h_author := PublicKey k\<rparr>\<rparr>) [1, 2, 3]"

lemma ex_block_simps [simp]: "h_round (ex_block k) = 1" "h_id (ex_block k) = Digest 259" "h_author (ex_block k) = PublicKey k"
   "h_payload (ex_block k) = []"
  by (simp_all add: ex_block_def header_default_def)

lemma ex_block_passes:
  "get_parents ex_node d (ex_block k) = (Ok ex_parents, [])" "ex_parents \<noteq> []"
  "check_parents ex_committee (ex_block k) ex_parents 0 = Ok 3" 
  "missing_payload ex_node d (ex_block k) = (Ok False, [])"
  by (simp_all add: get_parents_def ex_block_def ex_sync_genesis ex_parents_def missing_payload_def ensure_def cert_round_def 
    cert_origin_def header_default_def certificate_default_def)

definition ex_ballot :: "b256 \<Rightarrow> b256 \<Rightarrow> vote" where
  "ex_ballot k voter = \<lparr>v_id = Digest 259, v_round = 1, v_origin = PublicKey k, v_author = PublicKey voter,
     v_signature = \<lparr>part1 = 0, part2 = 1\<rparr>\<rparr>"

lemma ex_ballot_simps [simp]:
  "v_id (ex_ballot k j) = Digest 259" "v_round (ex_ballot k j) = 1" "v_origin (ex_ballot k j) = PublicKey k"
  "v_author (ex_ballot k j) = PublicKey j" "v_signature (ex_ballot k j) = \<lparr>part1 = 0, part2 = 1\<rparr>"
  by (simp_all add: ex_ballot_def)

lemma ex_vote_new: "vote_new ex_dalek (SecretKey 1) (ex_block k) (PublicKey 1) = Ok (ex_ballot k 1)"
  by (simp add: vote_new_def request_signature_def Let_def ex_ballot_def signature_new_def first32_def last32_def)

lemma ex_process_header:
  "header_with_fuel z (Suc n) ex_node (ex_block k) s =
   (let s1 = fst (snd (mark_processing (ex_block k) s));
        s2 = s1\<lparr>k_db := db_put ex_rocksdb (k_db s1) (digest_to_vec (Digest 259)) [0]\<rparr>;
        s3 = fst (snd (mark_voted (ex_block k) s2))
    in if PublicKey k \<in> or_default {} (k_last_voted s 1)
       then (Ok (), s3, [StoreWrite (digest_to_vec (Digest 259)) [0]])
       else case (if k = 1 then op_expect (vote_with_fuel z n ex_node (ex_ballot k 1)) else send_vote ex_node (ex_block k) (ex_ballot k 1)) s3
         of (r, s', out) \<Rightarrow> (r, s', StoreWrite (digest_to_vec (Digest 259)) [0] # VoteCreated (ex_ballot k 1) # out))"
  unfolding header_with_fuel_blocks
  by (subst header_block_passes)
   (auto simp: ex_block_passes op_then_def op_bind_def write_store_def cast_block_run ex_vote_new mark_processing_def 
     mark_voted_def Let_def ex_bincode_def ex_ballot_def split: prod.splits)

lemma ex_primary_of: "primary_of ex_committee (PublicKey 2) = Ok \<lparr>primary_to_primary = ex_addr 2000, worker_to_primary = ex_addr 2001\<rparr>"
  by (simp add: primary_of_def ex_committee_def ex_authority_def)

lemma core_fuel_Suc: "core_fuel = Suc (Suc (Suc (Suc (Suc (Suc (Suc 0))))))"
  by (simp add: core_fuel_def)

lemmas core_eval = core_run_def core_step_def process_header_def process_own_header_def process_vote_def process_certificate_def
  core_fuel_Suc ex_process_header
  op_then_def op_bind_def op_expect_def core_effects mark_voted_def send_vote_def ex_primary_of
  or_default_def core_new_def Let_def op_check_def retain_from_def core_cleanup_def

lemma ex_sane: "vote_verify ex_dalek ex_committee (ex_ballot k 2) = Ok ()" "vote_verify ex_dalek ex_committee (ex_ballot k 3) = Ok ()"
  by (simp_all add: vote_verify_def ensure_def signature_verify_def ex_ballot_def)

lemma ex_small: "\<not> (3 :: u32) \<le> 1" "\<not> (4 :: u64) \<le> 1" "(1 :: u64) < 5"
  by (simp_all add: word_le_nat_alt word_less_nat_alt)

section \<open>Properties\<close>

theorem one_vote_per_round_and_author_witness:
  "\<exists>r s' out. core_run ex_node [(HeaderLoopback (ex_block 2), 0), (HeaderLoopback (ex_block 2), 0)] (core_new []) = (r, s', out) \<and>
     votes_cast out = [(1, PublicKey 2)] \<and> distinct (filter (\<lambda>(r, _). 0 \<le> r) (votes_cast out))"
proof -
  let ?events = "[(HeaderLoopback (ex_block 2), 0), (HeaderLoopback (ex_block 2), 0)]"
  have "\<exists>r s' out. core_run ex_node ?events (core_new []) = (r, s', out) \<and> votes_cast out = [(1, PublicKey 2)]"
    by (simp add: core_eval del: header_with_fuel.simps cong: op_congs)
  then obtain r s' out where run: "core_run ex_node ?events (core_new []) = (r, s', out)"
    and votes: "votes_cast out = [(1, PublicKey 2)]" by blast
  show ?thesis
    using one_vote_per_round_and_author [OF run, of 0] run votes by auto
qed

text \<open>
  C7: Every vote vouches for its header: when the core task creates a vote, it has just stored the
  header, and the store before that has, under each parent digest of the header that is not of a genesis certificate, bytes that
  decode to a certificate; these certificates are of the previous round and have a quorum of stake together; and, unless the header
  is our own, the store has the entry of each of its batches, which says that a worker of ours has the batch.
\<close>

theorem votes_vouched:
  assumes "core_run nd events s = (r, s', pre @ VoteCreated v # post)"
  shows "\<exists>h pre'. pre = pre' @ [StoreWrite (digest_to_vec (h_id h)) (ser_header (nd_codec nd) h)] \<and>
    vouches nd (after_writes nd pre' (k_db s)) h v"
proof -
  have "vouched nd s s' (pre @ VoteCreated v # post)"
    by (rule core_run_rel [OF vouched.transition_axioms core_step_vouched assms])
  then show ?thesis by (simp add: vouched_def)
qed

theorem votes_vouched_witness:
  "\<exists>r s' post. core_run ex_node [(HeaderLoopback (ex_block 2), 0)] (core_new []) =
      (r, s', [StoreWrite (digest_to_vec (Digest 259)) [0]] @ VoteCreated (ex_ballot 2 1) # post) \<and>
    (\<exists>h. h_id h = Digest 259 \<and> vouches ex_node [] h (ex_ballot 2 1))"
proof -
  have "\<exists>r s' post. core_run ex_node [(HeaderLoopback (ex_block 2), 0)] (core_new []) =
      (r, s', [StoreWrite (digest_to_vec (Digest 259)) [0]] @ VoteCreated (ex_ballot 2 1) # post)"
    by (simp add: core_eval del: header_with_fuel.simps cong: op_congs)
  then obtain r s' post where run: "core_run ex_node [(HeaderLoopback (ex_block 2), 0)] (core_new []) =
      (r, s', [StoreWrite (digest_to_vec (Digest 259)) [0]] @ VoteCreated (ex_ballot 2 1) # post)" by blast
  obtain h where "vouches ex_node (k_db (core_new [])) h (ex_ballot 2 1)"
    using votes_vouched [OF run] by auto
  then have "vouches ex_node [] h (ex_ballot 2 1)" "h_id h = Digest 259"
    by (auto simp: core_new_def vouches_def)
  with run show ?thesis by blast
qed

lemma process_certificate_run:
  assumes "rocksdb_ok (nd_rocksdb nd)" and "is_processing x s"
    and "\<forall>d \<in> set (h_parents (c_header x)). is_genesis_digest nd d \<or> has_key nd (k_db s) (digest_to_vec d)"
  shows "\<exists>s' out. process_certificate nd x s = (Ok (), s', out @ [ToConsensus x]) \<and>
    k_processing s' = k_processing s \<and>
    k_db s' = db_put (nd_rocksdb nd) (k_db s) (digest_to_vec (cert_digest (nd_crypto nd) x))
      (ser_certificate (nd_codec nd) x)"
proof -
  obtain r s' out where run: "deliver_block nd x s = (r, s', out)" by (cases "deliver_block nd x s")
  have "process_certificate nd x s = (r, s', out)"
    using assms(2) run
    by (simp add: process_certificate_def core_fuel_Suc certificate_with_fuel_blocks op_then_def op_bind_def
        del: certificate_with_fuel.simps)
  moreover have "ancestors_present nd (k_db s) (h_parents (c_header x)) = Ok True"
    using assms(3) by (simp add: ancestors_present_ok [OF assms(1)])
  from deliver_block_run [OF this run] obtain ps where "r = Ok ()" "k_processing s' = k_processing s"
    and "k_db s' = db_put (nd_rocksdb nd) (k_db s) (digest_to_vec (cert_digest (nd_crypto nd) x))
      (ser_certificate (nd_codec nd) x)"
    and "out = (StoreWrite (digest_to_vec (cert_digest (nd_crypto nd) x)) (ser_certificate (nd_codec nd) x) #
      (case ps of None \<Rightarrow> [] | Some ds \<Rightarrow> [ToProposer ds (cert_round x)])) @ [ToConsensus x]" by auto
  ultimately show ?thesis by auto
qed

text \<open>
  C31: No certificate is lost: one whose header is being processed and whose ancestors are all in the
  store (or genesis) is stored and handed to consensus, whatever was processed before.
\<close>

theorem certificate_with_ancestors_delivered:
  assumes "rocksdb_ok (nd_rocksdb nd)" and "is_processing x s"
    and "\<forall>d \<in> set (h_parents (c_header x)). is_genesis_digest nd d \<or> has_key nd (k_db s) (digest_to_vec d)"
  shows "\<exists>s' out. process_certificate nd x s = (Ok (), s', out @ [ToConsensus x]) \<and>
    stored (nd_rocksdb nd) (k_db s') (digest_to_vec (cert_digest (nd_crypto nd) x)) =
      Some (ser_certificate (nd_codec nd) x)"
  using process_certificate_run [OF assms] database.read_write [OF assms(1)] by fastforce

definition ex_certified :: certificate where
  "ex_certified = \<lparr>c_header = ex_block 2, c_votes = []\<rparr>"

theorem certificate_with_ancestors_delivered_witness:
  "\<exists>s' out. process_certificate ex_node ex_certified (core_new []\<lparr>k_processing := [1 \<mapsto> {Digest 259}]\<rparr>) =
      (Ok (), s', out @ [ToConsensus ex_certified])"
proof -
  have "is_processing ex_certified (core_new []\<lparr>k_processing := [1 \<mapsto> {Digest 259}]\<rparr>)"
    by (simp add: is_processing_def ex_certified_def or_default_def)
  moreover have "\<forall>d \<in> set (h_parents (c_header ex_certified)). is_genesis_digest ex_node d"
    by (simp add: ex_certified_def ex_block_def is_genesis_digest_def ex_sync_genesis)
  ultimately show ?thesis
    using certificate_with_ancestors_delivered [of ex_node ex_certified
        "core_new []\<lparr>k_processing := [1 \<mapsto> {Digest 259}]\<rparr>"] by auto
qed

text \<open>Two certificates, the second on top of the first, whose headers are being processed.\<close>

definition ex_second :: certificate where
  "ex_second = ex_certified\<lparr>c_header := (ex_block 2)\<lparr>h_round := 2, h_id := Digest 301, h_parents := [Digest 258]\<rparr>\<rparr>"

definition ex_waiting :: "(bytes \<times> bytes) list core" where
  "ex_waiting = core_new []\<lparr>k_processing := [1 \<mapsto> {Digest 259}, 2 \<mapsto> {Digest 301}]\<rparr>"

lemma ex_digests: "cert_digest ex_dalek ex_certified = Digest 258"
  by (simp add: cert_digest_def ex_hash32 vote_bytes_def nth_append digest_to_vec_def cert_round_def
      cert_origin_def ex_certified_def le_bytes_def be_bytes_def key_as_ref_def upt_rec)

theorem consensus_input_causal_witness:
  "\<exists>r s' pre. core_run ex_node [(CertificateLoopback ex_certified, 0), (CertificateLoopback ex_second, 0)] ex_waiting =
      (r, s', pre @ ToConsensus ex_second # []) \<and>
    (has_key ex_node (k_db ex_waiting) (digest_to_vec (Digest 258)) \<or>
     (\<exists>y. ToConsensus y \<in> set pre \<and> cert_digest ex_dalek y = Digest 258) \<or>
     (\<exists>h. h_id h = Digest 258 \<and> StoreWrite (digest_to_vec (Digest 258)) (ser_header ex_bincode h) \<in> set pre))"
proof -
  have "is_processing ex_certified ex_waiting"
    by (simp add: is_processing_def ex_certified_def ex_waiting_def or_default_def)
  moreover have "\<forall>d \<in> set (h_parents (c_header ex_certified)). is_genesis_digest ex_node d"
    by (simp add: ex_certified_def ex_block_def is_genesis_digest_def ex_sync_genesis)
  ultimately obtain t out1 where 1: "process_certificate ex_node ex_certified ex_waiting =
      (Ok (), t, out1 @ [ToConsensus ex_certified])" "k_processing t = k_processing ex_waiting"
    "k_db t = db_put ex_rocksdb (k_db ex_waiting) (digest_to_vec (Digest 258)) (ser_certificate ex_bincode ex_certified)"
    using process_certificate_run [of ex_node ex_certified ex_waiting] by (auto simp: ex_digests)
  have "is_processing ex_second t"
    by (simp add: is_processing_def ex_second_def 1(2) ex_waiting_def or_default_def)
  moreover have "\<forall>d \<in> set (h_parents (c_header ex_second)). has_key ex_node (k_db t) (digest_to_vec d)"
    by (simp add: ex_second_def has_key_def 1(3) database.read_write)
  ultimately obtain u out2 where 2: "process_certificate ex_node ex_second t = (Ok (), u, out2 @ [ToConsensus ex_second])"
    using process_certificate_run [of ex_node ex_second t] by auto
  have run: "core_run ex_node [(CertificateLoopback ex_certified, 0), (CertificateLoopback ex_second, 0)] ex_waiting =
      (Ok (), u, (out1 @ ToConsensus ex_certified # out2) @ ToConsensus ex_second # [])"
    using 1(1) 2 by (simp add: core_run_def core_step_def core_cleanup_def op_then_def op_bind_def)
  have "\<not> is_genesis_digest ex_node (Digest 258)" "Digest 258 \<in> set (h_parents (c_header ex_second))"
    by (simp_all add: is_genesis_digest_def ex_sync_genesis ex_second_def)
  then show ?thesis
    using consensus_input_causal [of ex_node, OF _ run] run by auto
qed

text \<open>A header of ours whose vote is in the aggregator cannot be voted for again: the task fails.\<close>

lemma own_vote_fails_again:
  assumes "h_author h = nd_name nd" and "nd_name nd \<in> va_used (k_votes_aggregator s)" and "k_last_voted s (h_round h) = None"
  shows "\<exists>f s' out. cast_block nd h (\<lambda>v. if v_origin v = nd_name nd then op_expect (vote_with_fuel z (Suc n) nd v)
      else send_vote nd h v) s = (Inl f, s', out)"
proof -
  obtain t where mark: "mark_voted h s = (Ok True, t, [])" and used: "va_used (k_votes_aggregator t) = va_used (k_votes_aggregator s)"
    using assms(3) by (simp add: mark_voted_def Let_def or_default_def)
  show ?thesis
  proof (cases "vote_new (nd_crypto nd) (nd_secret nd) h (nd_name nd)")
    case (Inl f)
    then obtain g where "map_err InvalidSignature (vote_new (nd_crypto nd) (nd_secret nd) h (nd_name nd)) = Inl g"
      by (cases f) simp_all
    then show ?thesis by (simp add: cast_block_def op_bind_def mark del: vote_with_fuel.simps)
  next
    case (Inr v)
    then have "v_author v = nd_name nd" "v_origin v = nd_name nd"
      using assms(1) by (auto simp: vote_new_def Let_def and_then_Ok_iff)
    moreover from this obtain e u where "append_vote nd v t = (Err e, u, [])"
      using assms(2) used by (auto simp: append_vote_def votes_append_def Let_def ensure_def)
    then have "op_expect (vote_with_fuel z (Suc n) nd v) t = (Panicked, u, [])" by (simp add: op_expect_def op_bind_def)
    ultimately show ?thesis
      using assms(3) by (simp add: cast_block_run [OF Inr] or_default_def mark)
  qed
qed

lemma own_header_fails_again:
  assumes "h_author h = nd_name nd" and "nd_name nd \<in> va_used (k_votes_aggregator s)" and "k_last_voted s (h_round h) = None"
    and "get_parents nd (k_db s) h = (Ok parents, [])" "parents \<noteq> []"
    and "check_parents (nd_committee nd) h parents 0 = Ok stk" "quorum_threshold (nd_committee nd) \<le> stk"
  shows "\<exists>f s' out. header_with_fuel z (Suc (Suc n)) nd h s = (Inl f, s', out)"
proof -
  have "missing_payload nd (k_db s) h = (Ok False, [])" by (simp add: missing_payload_def assms(1))
  note run = header_block_passes [OF assms(4-7) this]
  let ?t = "(fst (snd (mark_processing h s)))\<lparr>k_db := db_put (nd_rocksdb nd) (k_db s) (digest_to_vec (h_id h)) (ser_header (nd_codec nd) h)\<rparr>"
  have "\<exists>f s' out. cast_block nd h (\<lambda>v. if v_origin v = nd_name nd then op_expect (vote_with_fuel z (Suc n) nd v)
      else send_vote nd h v) ?t = (Inl f, s', out)"
    by (rule own_vote_fails_again) (use assms(1-3) in \<open>simp_all add: mark_processing_def\<close>)
  then show ?thesis
    unfolding header_with_fuel_blocks run
    by (auto simp: op_then_def op_bind_def write_store_def mark_processing_def split: prod.splits sum.splits)
qed

text \<open>
  C40: A late vote can kill the core task. Suppose that the cleanup collects the round of our current header while the aggregator
  has our own vote but no quorum yet, and that the parents of the header are still in the store. Then the next vote that is
  accepted and completes the quorum makes the task panic, whatever the header, the committee and the other
  votes are: the certificate's header counts as new, our own vote is cast again and refused as a duplicate, and
  ``Failed to process our own vote'' follows.
\<close>

theorem late_vote_panics:
  assumes "t = core_cleanup nd collects s"
    and "nd_gc_depth nd < collects" "h_round (k_current_header s) < collects - nd_gc_depth nd"
    and "h_author (k_current_header s) = nd_name nd" "nd_name nd \<in> va_used (k_votes_aggregator s)"
    and "get_parents nd (k_db s) (k_current_header s) = (Ok parents, [])" "parents \<noteq> []"
    and "check_parents (nd_committee nd) (k_current_header s) parents 0 = Ok stk" "quorum_threshold (nd_committee nd) \<le> stk"
    and "sanitize_vote nd v t = Ok ()"
    and "votes_append (nd_committee nd) (k_current_header t) v (k_votes_aggregator t) = (agg, Ok (Some x))"
  shows "fst (core_step nd (FromPrimary (VoteMsg v)) loaded t) = Panicked"
proof -
  let ?h = "k_current_header s"
  have t: "k_current_header t = ?h" "k_votes_aggregator t = k_votes_aggregator s" "k_db t = k_db s"
    "k_processing t (h_round ?h) = None" "k_last_voted t (h_round ?h) = None"
    using assms(2) leD [of "collects - nd_gc_depth nd" "h_round ?h"] assms(3)
    by (auto simp: assms(1) core_cleanup_def Let_def retain_from_def)
  have x: "c_header x = ?h" and used: "nd_name nd \<in> va_used agg"
    using assms(11) va_used_append [of "nd_committee nd" "k_current_header t" v "k_votes_aggregator t"] assms(5) t(1,2)
    by (auto simp: votes_append_def Let_def split: if_splits)
  have fuel: "core_fuel = Suc (Suc 5)" by (simp add: core_fuel_def)
  let ?u = "t\<lparr>k_votes_aggregator := agg\<rparr>"
  let ?cast = "op_bind (net_broadcast (others_addresses nd) (ser_primary_message (nd_codec nd) (CertificateMsg x)))
      (\<lambda>handlers. keep_handlers (cert_round x) handlers) :: ('a, unit) core_op"
  obtain w out1 where sent: "?cast ?u = (Ok (), w, out1)" by (simp add: core_effects op_bind_def Let_def)
  then have w: "k_votes_aggregator w = agg" "k_last_voted w = k_last_voted t" "k_processing w = k_processing t" "k_db w = k_db t"
    by (auto simp: core_effects op_bind_def Let_def)
  have "\<not> is_processing x w" using t(4) w(3) x by (simp add: is_processing_def or_default_def)
  moreover obtain f w' out2 where "header_with_fuel (op_lift Panicked) 5 nd (c_header x) w = (Inl f, w', out2)"
    using own_header_fails_again [of ?h nd w parents stk "op_lift Panicked" 3] assms(4,6-9) used t w x by (auto simp: numeral_eq_Suc)
  ultimately have "certificate_with_fuel (op_lift Panicked) (Suc 5) nd x w = (Inl f, w', out2)"
    unfolding certificate_with_fuel_blocks by (simp add: op_then_def op_bind_def)
  moreover have "append_vote nd v t = (Ok (Some x), ?u, [])" using assms(11) by (simp add: append_vote_def)
  ultimately have "\<exists>s' out. process_vote nd v t = (Panicked, s', out)"
    using sent unfolding process_vote_def fuel vote_with_fuel.simps
    by (simp add: op_then_def op_bind_def op_expect_def del: certificate_with_fuel.simps Suc_numeral)
  then show ?thesis
    using assms(10) by (auto simp: core_step_def op_then_def op_bind_def op_check_def)
qed

theorem late_vote_panics_witness:
  "\<exists>s out. core_run ex_node [(FromProposer (ex_block 1), 0), (FromPrimary (VoteMsg (ex_ballot 1 2)), 5),
      (FromPrimary (VoteMsg (ex_ballot 1 3)), 5)] (core_new []) = (Panicked, s, out)"
proof -
  let ?agg = "\<lambda>ks w. \<lparr>va_weight = w, va_votes = map (\<lambda>k. (PublicKey k, \<lparr>part1 = 0, part2 = 1\<rparr>)) ks, va_used = set (map PublicKey ks)\<rparr>"
  have "\<exists>s0 out0. core_step ex_node (FromProposer (ex_block 1)) 0 (core_new []) = (Ok (), s0, out0) \<and>
      k_current_header s0 = ex_block 1 \<and> k_votes_aggregator s0 = ?agg [1] 1"
    by (simp add: core_eval votes_append_def votes_aggregator_new_def ex_small del: header_with_fuel.simps cong: op_congs)
  then obtain s0 out0 where 0: "core_step ex_node (FromProposer (ex_block 1)) 0 (core_new []) = (Ok (), s0, out0)"
    "k_current_header s0 = ex_block 1" "k_votes_aggregator s0 = ?agg [1] 1" by blast
  have "\<exists>s1 out1. core_handle ex_node (FromPrimary (VoteMsg (ex_ballot 1 2))) s0 = (Ok (), s1, out1) \<and>
      k_current_header s1 = ex_block 1 \<and> k_votes_aggregator s1 = ?agg [1, 2] 2"
    using 0(2,3) by (simp add: core_eval votes_append_def sanitize_vote_def ex_sane ensure_def ex_small insert_commute
        del: header_with_fuel.simps cong: op_congs)
  then obtain s1 out1 where 1: "core_handle ex_node (FromPrimary (VoteMsg (ex_ballot 1 2))) s0 = (Ok (), s1, out1)"
    "k_current_header s1 = ex_block 1" "k_votes_aggregator s1 = ?agg [1, 2] 2" by blast
  let ?t = "core_cleanup ex_node 5 s1"
  have t: "k_current_header ?t = ex_block 1" "k_votes_aggregator ?t = ?agg [1, 2] 2" using 1(2,3) by (simp_all add: core_cleanup_def Let_def)
  obtain agg x where full: "votes_append ex_committee (ex_block 1) (ex_ballot 1 3) (?agg [1, 2] 2) = (agg, Ok (Some x))"
    by (simp add: votes_append_def Let_def ensure_def)
  have "fst (core_step ex_node (FromPrimary (VoteMsg (ex_ballot 1 3))) 5 ?t) = Panicked"
  proof (rule late_vote_panics [OF refl, where parents = ex_parents and stk = 3])
    show "sanitize_vote ex_node (ex_ballot 1 3) ?t = Ok ()" using t by (simp add: sanitize_vote_def ex_sane ensure_def)
  qed (use 1 t full ex_block_passes in \<open>simp_all add: ex_small\<close>)
  moreover have "core_step ex_node (FromPrimary (VoteMsg (ex_ballot 1 2))) 5 s0 = (Ok (), ?t, out1)" using 1(1) by (simp add: core_step_def)
  ultimately show ?thesis
    using 0(1) by (cases "core_step ex_node (FromPrimary (VoteMsg (ex_ballot 1 3))) 5 ?t") (auto simp: core_run_def op_then_def op_bind_def)
qed

end
