(* ===== verification/Proposer.thy ===== *)
theory Proposer
  imports Adversary PrimaryNode
begin

text \<open>
  \<open>primary/src/proposer.rs\<close>: the task that makes our headers from the digests of our workers and the
  parents the core task collects. Each iteration of its loop reads the clock once (\<open>expired\<close>) and takes
  one event. Rounds are 64-bit words; the largest one would wrap around, so the properties exclude it.
\<close>

section \<open>State\<close>

text \<open>The fields of the struct; name, signing key and codec are those of the node.\<close>

record proposer =
  p_authorities :: "public_key list"
  p_faults :: usize
  p_seed :: u64
  p_silent :: bool
  p_pause_batches :: bool
  p_worker_addresses :: "socket_addr list"
  p_worker_handlers :: "nat list"
  p_next_handler :: nat
  p_header_size :: usize
  p_round :: round
  p_last_parents :: "digest list"
  p_digests :: "(digest \<times> worker_id) list"
  p_payload_size :: usize

datatype proposer_action =
  SendWorker nat socket_addr bytes
| NewHeader header

type_synonym 'a proposer_op = "(proposer, proposer_action, dag_error, 'a) op"

text \<open>\<open>TUSK_CLIENT_DURING_SILENCE\<close>: other values than send and pause are refused.\<close>

definition pause_during_silence :: "environment \<Rightarrow> ('e, bool) result" where
  "pause_during_silence env =
     (case env ''TUSK_CLIENT_DURING_SILENCE'' of
        None \<Rightarrow> Ok True
      | Some setting \<Rightarrow>
          if setting = ''send'' then Ok False else if setting = ''pause'' then Ok True else Panicked)"

definition proposer_spawn :: "'db node \<Rightarrow> environment \<Rightarrow> usize \<Rightarrow> (dag_error, proposer) result" where
  "proposer_spawn nd env hsize =
     and_then (pause_during_silence env) (\<lambda>pause.
     case our_workers (nd_committee nd) (nd_name nd) of
       Inl _ \<Rightarrow> Panicked
     | Inr ws \<Rightarrow>
         Ok \<lparr>p_authorities = names (nd_committee nd),
             p_faults = env_or env ''TUSK_FAULTS'' 0,
             p_seed = env_or env ''TUSK_ADVERSARY_SEED'' 0,
             p_silent = False, p_pause_batches = pause,
             p_worker_addresses = map primary_to_worker ws,
             p_worker_handlers = [], p_next_handler = 0,
             p_header_size = hsize, p_round = 1,
             p_last_parents = map (cert_digest (nd_crypto nd)) (genesis (nd_committee nd)),
             p_digests = [], p_payload_size = 0\<rparr>)"

section \<open>Operations\<close>

definition workers_broadcast :: "bytes \<Rightarrow> nat list proposer_op" where
  "workers_broadcast bs s =
     (let n = p_next_handler s; addresses = p_worker_addresses s; handlers = [n..<n + length addresses]
      in (Ok handlers, s\<lparr>p_next_handler := n + length addresses\<rparr>,
          map (\<lambda>(h, a). SendWorker h a bs) (zip handlers addresses)))"

definition enter_round :: "'db node \<Rightarrow> round \<Rightarrow> unit proposer_op" where
  "enter_round nd r =
     op_then
       (op_modify (\<lambda>s. s\<lparr>p_round := r,
          p_silent := selected (nd_crypto nd) (nd_name nd) (p_authorities s) r (p_faults s) (p_seed s)\<rparr>))
     (op_bind (op_get (\<lambda>s. s)) (\<lambda>s.
      if p_faults s = 0 then op_return ()
      else
        op_bind (workers_broadcast (ser_worker_message (nd_codec nd)
            (BatchSilent r (p_silent s \<and> p_pause_batches s))))
          (\<lambda>handlers. op_modify (\<lambda>s. s\<lparr>p_worker_handlers := handlers\<rparr>))))"

definition make_header :: "'db node \<Rightarrow> unit proposer_op" where
  "make_header nd =
     op_bind (op_get (\<lambda>s. s)) (\<lambda>s.
     op_then (op_modify (\<lambda>s. s\<lparr>p_digests := [], p_last_parents := []\<rparr>))
     (op_bind (op_lift (map_err InvalidSignature
          (header_new (nd_crypto nd) (nd_secret nd) (nd_name nd) (p_round s)
             (btree_map_of (p_digests s)) (btree_set_of (p_last_parents s)))))
        (\<lambda>h. op_emit (NewHeader h))))"

text \<open>The head of the loop.\<close>

definition try_propose :: "'db node \<Rightarrow> bool \<Rightarrow> unit proposer_op" where
  "try_propose nd expired =
     op_bind (op_get (\<lambda>s. s)) (\<lambda>s.
     if (expired \<or> p_header_size s \<le> p_payload_size s) \<and> p_last_parents s \<noteq> [] then
       if p_silent s then op_modify (\<lambda>s. s\<lparr>p_last_parents := []\<rparr>)
       else op_then (make_header nd) (op_modify (\<lambda>s. s\<lparr>p_payload_size := 0\<rparr>))
     else op_return ())"

datatype proposer_event =
  FromCore "digest list" round
| FromWorkers digest worker_id
| TimerFired

fun proposer_handle :: "'db node \<Rightarrow> proposer_event \<Rightarrow> unit proposer_op" where
  "proposer_handle nd (FromCore parents r) =
     op_bind (op_get (\<lambda>s. s)) (\<lambda>s.
     if r < p_round s then op_return ()
     else op_then (enter_round nd (r + 1)) (op_modify (\<lambda>s. s\<lparr>p_last_parents := parents\<rparr>)))"
| "proposer_handle nd (FromWorkers d wid) =
     op_modify (\<lambda>s. s\<lparr>p_payload_size := p_payload_size s + digest_size d, p_digests := p_digests s @ [(d, wid)]\<rparr>)"
| "proposer_handle nd TimerFired = op_return ()"

definition proposer_step :: "'db node \<Rightarrow> bool \<times> proposer_event \<Rightarrow> unit proposer_op" where
  "proposer_step nd = (\<lambda>(expired, ev). op_then (try_propose nd expired) (proposer_handle nd ev))"

definition proposer_run :: "'db node \<Rightarrow> (bool \<times> proposer_event) list \<Rightarrow> unit proposer_op" where
  "proposer_run nd events =
     op_then (op_bind (op_get p_round) (enter_round nd)) (op_for events (proposer_step nd))"

section \<open>One header per round\<close>

definition headers_made :: "proposer_action list \<Rightarrow> header list" where
  "headers_made out = concat (map (\<lambda>a. case a of NewHeader h \<Rightarrow> [h] | _ \<Rightarrow> []) out)"

lemma headers_made_simps [simp]:
  "headers_made [] = []"
  "headers_made (a # out) = (case a of NewHeader h \<Rightarrow> h # headers_made out | _ \<Rightarrow> headers_made out)"
  "headers_made (out1 @ out2) = headers_made out1 @ headers_made out2"
  by (auto simp: headers_made_def split: proposer_action.split)

lemma headers_made_send [simp]: "headers_made (map (\<lambda>(h, a). SendWorker h a bs) hs) = []"
  by (induction hs) auto

text \<open>
  Progress: two units per round, the second when the parents of the round are used up. A header takes
  the first unit of its round to the second.
\<close>

definition progress :: "proposer \<Rightarrow> nat" where
  "progress s = 2 * unat (p_round s) + (if p_last_parents s = [] then 1 else 0)"

text \<open>
  The settings stay, progress never decreases, and each header is for a round that is not silent and
  that the progress passes; so the rounds of the headers increase.
\<close>

definition settings :: "proposer \<Rightarrow> public_key list \<times> usize \<times> u64" where
  "settings s = (p_authorities s, p_faults s, p_seed s)"

definition silent_at :: "'db node \<Rightarrow> proposer \<Rightarrow> round \<Rightarrow> bool" where
  "silent_at nd s r = selected (nd_crypto nd) (nd_name nd) (p_authorities s) r (p_faults s) (p_seed s)"

definition in_round :: "'db node \<Rightarrow> proposer \<Rightarrow> bool" where
  "in_round nd s \<longleftrightarrow> p_silent s = silent_at nd s (p_round s)"

definition header_between :: "'db node \<Rightarrow> proposer \<Rightarrow> proposer \<Rightarrow> header \<Rightarrow> bool" where
  "header_between nd s s' h \<longleftrightarrow>
     h_author h = nd_name nd \<and> \<not> silent_at nd s (h_round h) \<and> h_parents h \<noteq> [] \<and>
     progress s \<le> 2 * unat (h_round h) \<and> 2 * unat (h_round h) < progress s'"

definition proposes :: "'db node \<Rightarrow> proposer \<Rightarrow> proposer \<Rightarrow> proposer_action list \<Rightarrow> bool" where
  "proposes nd s s' out \<longleftrightarrow>
     (in_round nd s \<longrightarrow>
        in_round nd s' \<and> settings s' = settings s \<and> progress s \<le> progress s' \<and>
        sorted_wrt (<) (map h_round (headers_made out)) \<and>
        (\<forall>h \<in> set (headers_made out). header_between nd s s' h))"

lemma silent_at_settings: "settings s' = settings s \<Longrightarrow> silent_at nd s' r = silent_at nd s r"
  by (simp add: silent_at_def settings_def)

lemma proposes_trans:
  assumes 1: "proposes nd s t out1" and 2: "proposes nd t u out2"
  shows "proposes nd s u (out1 @ out2)"
proof (cases "in_round nd s")
  case True
  have a: "in_round nd t" "settings t = settings s" "progress s \<le> progress t"
    "sorted_wrt (<) (map h_round (headers_made out1))" "\<forall>h \<in> set (headers_made out1). header_between nd s t h"
    using 1 True unfolding proposes_def by blast+
  have b: "in_round nd u" "settings u = settings t" "progress t \<le> progress u"
    "sorted_wrt (<) (map h_round (headers_made out2))" "\<forall>h \<in> set (headers_made out2). header_between nd t u h"
    using 2 a(1) unfolding proposes_def by blast+
  have same: "silent_at nd t r = silent_at nd s r" for r using a(2) by (rule silent_at_settings)
  have "h_round h < h_round h'" if "h \<in> set (headers_made out1)" "h' \<in> set (headers_made out2)" for h h'
  proof -
    have "header_between nd s t h" "header_between nd t u h'" using a(5) b(5) that by blast+
    then show ?thesis by (simp add: word_less_nat_alt header_between_def)
  qed
  then have "sorted_wrt (<) (map h_round (headers_made (out1 @ out2)))"
    using a(4) b(4) by (simp add: sorted_wrt_append)
  moreover have "\<forall>h \<in> set (headers_made (out1 @ out2)). header_between nd s u h"
  proof
    fix h
    assume "h \<in> set (headers_made (out1 @ out2))"
    then have "header_between nd s t h \<or> header_between nd t u h" using a(5) b(5) by auto
    then show "header_between nd s u h" using a(3) b(3) by (auto simp: header_between_def same)
  qed
  ultimately show ?thesis
    using a b unfolding proposes_def by simp
next
  case False
  then show ?thesis by (simp add: proposes_def)
qed

interpretation proposes: transition "proposes nd" for nd :: "'db node"
  by unfold_locales (simp add: proposes_def, rule proposes_trans)

lemma enter_round_run:
  "\<exists>s' out. enter_round nd r s = (Ok (), s', out) \<and> headers_made out = [] \<and> settings s' = settings s \<and>
     p_round s' = r \<and> p_last_parents s' = p_last_parents s \<and> in_round nd s' \<and> p_digests s' = p_digests s \<and>
     p_payload_size s' = p_payload_size s"
  by (auto simp: enter_round_def op_then_def op_bind_def workers_broadcast_def Let_def settings_def in_round_def
      silent_at_def)

lemma header_new_fields:
  "header_new dk secret author rnd payload parents = Ok h \<Longrightarrow>
   h_author h = author \<and> h_round h = rnd \<and> h_payload h = payload \<and> h_parents h = parents"
  by (auto simp: header_new_def Let_def and_then_Ok_iff)

lemma make_header_run:
  assumes "make_header nd s = (r, s', out)"
  shows "s' = s\<lparr>p_digests := [], p_last_parents := []\<rparr> \<and>
    (out = [] \<and> r \<noteq> Ok () \<or>
     r = Ok () \<and> (\<exists>h. out = [NewHeader h] \<and> h_author h = nd_name nd \<and> h_round h = p_round s \<and>
       h_payload h = btree_map_of (p_digests s) \<and> h_parents h = btree_set_of (p_last_parents s)))"
proof (cases "map_err InvalidSignature (header_new (nd_crypto nd) (nd_secret nd) (nd_name nd) (p_round s)
    (btree_map_of (p_digests s)) (btree_set_of (p_last_parents s)))")
  case (Inl f)
  then show ?thesis using assms by (auto simp: make_header_def op_then_def op_bind_def)
next
  case (Inr h)
  then have "header_new (nd_crypto nd) (nd_secret nd) (nd_name nd) (p_round s)
      (btree_map_of (p_digests s)) (btree_set_of (p_last_parents s)) = Ok h" by simp
  from header_new_fields [OF this] show ?thesis
    using assms Inr by (auto simp: make_header_def op_then_def op_bind_def)
qed

lemma btree_set_of_empty [simp]: "btree_set_of xs = [] \<longleftrightarrow> xs = []"
  using set_btree_set_of [of xs] by (metis set_empty)

lemma proposes_try: "transition.moves (proposes nd) (try_propose nd expired)"
proof (rule proposes.movesI)
  fix s r s' out
  assume run: "try_propose nd expired s = (r, s', out)"
  show "proposes nd s s' out"
  proof (cases "(expired \<or> p_header_size s \<le> p_payload_size s) \<and> p_last_parents s \<noteq> []")
    case False
    then have "s' = s" "out = []" using run by (auto simp: try_propose_def op_bind_def)
    then show ?thesis by (simp add: proposes.rel_refl)
  next
    case True
    show ?thesis
    proof (cases "p_silent s")
      case True': True
      then have "s' = s\<lparr>p_last_parents := []\<rparr>" "out = []"
        using run True by (auto simp: try_propose_def op_bind_def)
      then show ?thesis by (auto simp: proposes_def header_between_def in_round_def silent_at_def settings_def progress_def)
    next
      case False
      obtain r1 s1 out1 where make: "make_header nd s = (r1, s1, out1)" by (cases "make_header nd s")
      have "out = out1" "s' = s1 \<or> s' = s1\<lparr>p_payload_size := 0\<rparr>"
        using run True False make by (auto simp: try_propose_def op_bind_def op_then_def split: sum.splits)
      then show ?thesis
        using make_header_run [OF make] False True
        by (auto simp: proposes_def header_between_def in_round_def silent_at_def settings_def progress_def)
    qed
  qed
qed

lemma proposes_handle:
  assumes "\<And>ps r. ev = FromCore ps r \<Longrightarrow> r \<noteq> - 1"
  shows "transition.moves (proposes nd) (proposer_handle nd ev)"
proof (rule proposes.movesI)
  fix s r s' out
  assume run: "proposer_handle nd ev s = (r, s', out)"
  show "proposes nd s s' out"
  proof (cases ev)
    case (FromCore ps r')
    show ?thesis
    proof (cases "r' < p_round s")
      case True
      then show ?thesis using run FromCore by (auto simp: op_bind_def proposes.rel_refl)
    next
      case False
      obtain t where t: "out = out" "headers_made out = []" "s' = t\<lparr>p_last_parents := ps\<rparr>" "settings t = settings s"
        "p_round t = r' + 1" "in_round nd t"
        using enter_round_run [of nd "r' + 1" s] run FromCore False
        by (auto simp: op_bind_def op_then_def)
      have "unat (r' + 1) = unat r' + 1"
        using assms [OF FromCore] by (metis Suc_eq_plus1 add.commute add.right_inverse add_left_imp_eq unatSuc)
      then have "progress s \<le> progress s'"
        using False t by (simp add: progress_def word_less_nat_alt)
      then show ?thesis
        using t by (auto simp: proposes_def header_between_def in_round_def silent_at_def settings_def)
    qed
  qed (use run in \<open>auto simp: proposes_def header_between_def in_round_def silent_at_def settings_def progress_def\<close>)
qed

lemma proposes_events:
  assumes "\<And>expired ps r. (expired, FromCore ps r) \<in> set events \<Longrightarrow> r \<noteq> - 1"
  shows "transition.moves (proposes nd) (op_for events (proposer_step nd))"
  using assms
proof (induction events)
  case Nil
  show ?case unfolding op_for.simps by (rule proposes.moves_return)
next
  case (Cons e events)
  obtain expired ev where e: "e = (expired, ev)" by (cases e)
  have "transition.moves (proposes nd) (proposer_handle nd ev)"
    by (rule proposes_handle) (use Cons.prems e in auto)
  then have "transition.moves (proposes nd) (proposer_step nd e)"
    by (simp add: proposer_step_def e proposes.moves_then proposes_try)
  moreover have "transition.moves (proposes nd) (op_for events (proposer_step nd))"
    by (rule Cons.IH) (use Cons.prems in auto)
  ultimately show ?case by (simp add: proposes.moves_then)
qed

text \<open>Every run starts by entering the current round.\<close>

lemma proposer_run_split:
  assumes "proposer_run nd events s = (r, s', out)"
  obtains t out1 out2 where "enter_round nd (p_round s) s = (Ok (), t, out1)"
    "op_for events (proposer_step nd) t = (r, s', out2)" "out = out1 @ out2"
    "headers_made out1 = []" "settings t = settings s" "p_round t = p_round s" "in_round nd t"
    "p_last_parents t = p_last_parents s" "p_digests t = p_digests s" "p_payload_size t = p_payload_size s"
proof -
  obtain t out1 where enter: "enter_round nd (p_round s) s = (Ok (), t, out1)" "headers_made out1 = []"
    "settings t = settings s" "p_round t = p_round s" "p_last_parents t = p_last_parents s" "in_round nd t"
    "p_digests t = p_digests s" "p_payload_size t = p_payload_size s"
    using enter_round_run by metis
  moreover obtain out2 where "op_for events (proposer_step nd) t = (r, s', out2)" "out = out1 @ out2"
    using assms enter(1) by (auto simp: proposer_run_def op_then_def op_bind_def split: prod.splits)
  ultimately show thesis using that by blast
qed

section \<open>No digest is lost\<close>

definition received :: "(bool \<times> proposer_event) list \<Rightarrow> digest set" where
  "received events = {d. \<exists>expired wid. (expired, FromWorkers d wid) \<in> set events}"

definition pending_digests :: "proposer \<Rightarrow> digest set" where
  "pending_digests s = fst ` set (p_digests s)"

definition proposed_digests :: "proposer_action list \<Rightarrow> digest set" where
  "proposed_digests out = (\<Union>h \<in> set (headers_made out). fst ` set (h_payload h))"

lemma proposed_digests_append:
  "proposed_digests (out1 @ out2) = proposed_digests out1 \<union> proposed_digests out2"
  by (simp add: proposed_digests_def)

lemma keys_btree_map_of: "fst ` set (btree_map_of kvs) = fst ` set kvs"
proof -
  have "fst ` set (fold (\<lambda>(k, v). btree_insert k v) kvs m) = fst ` set kvs \<union> fst ` set m" for m
    by (induction kvs arbitrary: m) (simp_all add: keys_btree_insert split_def)
  from this [of "[]"] show ?thesis by (simp add: btree_map_of_def)
qed

definition counted_payload :: "proposer \<Rightarrow> bool" where
  "counted_payload s \<longleftrightarrow> p_payload_size s = word_of_nat (32 * length (p_digests s))"

lemma try_propose_digests:
  assumes "try_propose nd expired s = (Ok (), s', out)" and "counted_payload s"
  shows "pending_digests s' \<union> proposed_digests out = pending_digests s \<and> counted_payload s'"
proof (cases "(expired \<or> p_header_size s \<le> p_payload_size s) \<and> p_last_parents s \<noteq> [] \<and> \<not> p_silent s")
  case True
  obtain r1 s1 out1 where make: "make_header nd s = (r1, s1, out1)" by (cases "make_header nd s")
  with assms(1) True have "s' = s1\<lparr>p_payload_size := 0\<rparr>" "out = out1" "r1 = Ok ()"
    by (auto simp: try_propose_def op_bind_def op_then_def split: sum.splits)
  moreover obtain h where "out1 = [NewHeader h]" "h_payload h = btree_map_of (p_digests s)" "p_digests s1 = []"
    using make_header_run [OF make] calculation(3) by auto
  ultimately show ?thesis
    by (simp add: pending_digests_def proposed_digests_def keys_btree_map_of counted_payload_def)
next
  case False
  then show ?thesis
    using assms by (auto simp: try_propose_def op_bind_def pending_digests_def proposed_digests_def counted_payload_def
        split: if_splits)
qed

lemma proposer_handle_digests:
  assumes "proposer_handle nd ev s = (r, s', out)" and "counted_payload s"
  shows "pending_digests s' \<union> proposed_digests out = pending_digests s \<union> received [(expired, ev)] \<and> counted_payload s'"
proof (cases ev)
  case (FromCore ps r')
  then have "p_digests s' = p_digests s \<and> p_payload_size s' = p_payload_size s \<and> headers_made out = []"
    using assms(1) enter_round_run [of nd "r' + 1" s]
    by (cases "r' < p_round s") (auto simp: op_bind_def op_then_def)
  then show ?thesis
    using assms(2) FromCore
    by (simp add: pending_digests_def proposed_digests_def received_def counted_payload_def)
next
  case (FromWorkers d wid)
  then show ?thesis
    using assms
    by (auto simp: pending_digests_def proposed_digests_def received_def counted_payload_def digest_size_def)
next
  case TimerFired
  then show ?thesis using assms by (auto simp: pending_digests_def proposed_digests_def received_def)
qed

lemma proposer_events_digests:
  assumes "op_for events (proposer_step nd) s = (Ok (), s', out)" and "counted_payload s"
  shows "pending_digests s' \<union> proposed_digests out = pending_digests s \<union> received events \<and> counted_payload s'"
  using assms
proof (induction events arbitrary: s out)
  case Nil
  then show ?case by (auto simp: proposed_digests_def received_def)
next
  case (Cons e events)
  obtain expired ev where e: "e = (expired, ev)" by (cases e)
  obtain s1 out1 s2 out2 out3 where
    1: "try_propose nd expired s = (Ok (), s1, out1)" and
    2: "proposer_handle nd ev s1 = (Ok (), s2, out2)" and
    3: "op_for events (proposer_step nd) s2 = (Ok (), s', out3)" and out: "out = out1 @ out2 @ out3"
    using Cons.prems(1)
    by (auto simp: e proposer_step_def op_then_def op_bind_def split: prod.splits sum.splits)
  have a: "pending_digests s1 \<union> proposed_digests out1 = pending_digests s" "counted_payload s1"
    using try_propose_digests [OF 1 Cons.prems(2)] by auto
  have b: "pending_digests s2 \<union> proposed_digests out2 = pending_digests s1 \<union> received [e]" "counted_payload s2"
    using proposer_handle_digests [OF 2 a(2)] e by auto
  have c: "pending_digests s' \<union> proposed_digests out3 = pending_digests s2 \<union> received events" "counted_payload s'"
    using Cons.IH [OF 3 b(2)] by auto
  have "received (e # events) = received [e] \<union> received events" by (auto simp: received_def)
  with a b c show ?case unfolding out proposed_digests_append by blast
qed

lemma proposer_spawn_fields:
  assumes "proposer_spawn nd env hsize = Ok s"
  shows "p_authorities s = names (nd_committee nd)" "p_faults s = env_or env ''TUSK_FAULTS'' 0"
    "p_seed s = env_or env ''TUSK_ADVERSARY_SEED'' 0" "p_digests s = []" "p_payload_size s = 0"
  using assms
  by (cases "our_workers (nd_committee nd) (nd_name nd)"; force simp: proposer_spawn_def and_then_Ok_iff)+

section \<open>Properties\<close>

text \<open>
  C14: The proposer makes at most one header per round: the rounds of its headers strictly increase, each
  header is ours and has parents, and none is made in a round for which the adversary schedule of the
  environment variables selects us to be silent.
\<close>

theorem proposer_one_header_per_round:
  assumes "proposer_spawn nd env hsize = Ok s" and "proposer_run nd events s = (r, s', out)"
    and "\<And>expired ps rnd. (expired, FromCore ps rnd) \<in> set events \<Longrightarrow> rnd \<noteq> - 1"
  shows "sorted_wrt (<) (map h_round (headers_made out)) \<and>
    (\<forall>h \<in> set (headers_made out). h_author h = nd_name nd \<and> h_parents h \<noteq> [] \<and>
       \<not> selected (nd_crypto nd) (nd_name nd) (names (nd_committee nd)) (h_round h)
           (env_or env ''TUSK_FAULTS'' 0) (env_or env ''TUSK_ADVERSARY_SEED'' 0))"
proof -
  note s = proposer_spawn_fields [OF assms(1)]
  from assms(2) obtain t out1 out2 where t: "op_for events (proposer_step nd) t = (r, s', out2)"
    "out = out1 @ out2" "headers_made out1 = []" "settings t = settings s" "in_round nd t"
    by (rule proposer_run_split)
  have "proposes nd t s' out2"
    by (rule proposes.movesD [OF proposes_events t(1)]) (rule assms(3))
  then show ?thesis
    using t(2-5) s by (auto simp: proposes_def header_between_def silent_at_def settings_def)
qed

text \<open>A run without adversary: a batch, a full header, then the next round on the timer.\<close>

definition ex_proposals :: "(bool \<times> proposer_event) list" where
  "ex_proposals =
     [(False, FromWorkers (Digest 9) 0), (True, FromCore [Digest 257, Digest 258, Digest 259] 1), (True, TimerFired)]"

lemma ex_spawn: "\<exists>s. proposer_spawn ex_node Map.empty 32 = Ok s \<and> p_header_size s = 32 \<and> p_round s = 1 \<and>
    p_last_parents s \<noteq> [] \<and> p_faults s = 0 \<and> p_payload_size s = 0 \<and> p_digests s = []"
  by (simp add: proposer_spawn_def pause_during_silence_def our_workers_def ex_committee_def genesis_def names_def)

lemma ex_header_new:
  "\<exists>h. header_new ex_dalek (SecretKey 1) k r payload parents = Ok h"
  by (simp add: header_new_def Let_def request_signature_def signature_new_def)

lemma ex_no_faults: "selected dk k ks r 0 seed = False"
  by (simp add: selected_def)

lemma ex_proposer_run:
  assumes "p_header_size s = 32" "p_round s = 1" "p_last_parents s \<noteq> []" "p_faults s = 0" "p_payload_size s = 0"
    "p_digests s = []"
  shows "\<exists>s' out. proposer_run ex_node ex_proposals s = (Ok (), s', out) \<and> map h_round (headers_made out) = [1, 2]"
proof -
  obtain h1 where h1: "header_new ex_dalek (SecretKey 1) (PublicKey 1) 1 (btree_map_of [(Digest 9, 0)])
      (btree_set_of (p_last_parents s)) = Ok h1" using ex_header_new by blast
  obtain h2 where h2: "header_new ex_dalek (SecretKey 1) (PublicKey 1) 2 (btree_map_of [])
      (btree_set_of [Digest 257, Digest 258, Digest 259]) = Ok h2" using ex_header_new by blast
  show ?thesis
    using assms h1 h2 header_new_fields [OF h1] header_new_fields [OF h2]
    by (simp add: proposer_run_def ex_proposals_def proposer_step_def try_propose_def make_header_def
        enter_round_def ex_no_faults op_then_def op_bind_def digest_size_def cong: op_congs)
qed

theorem proposer_one_header_per_round_witness:
  "\<exists>s r s' out. proposer_spawn ex_node Map.empty 32 = Ok s \<and> proposer_run ex_node ex_proposals s = (r, s', out) \<and>
     map h_round (headers_made out) = [1, 2] \<and> sorted_wrt (<) (map h_round (headers_made out))"
proof -
  obtain s where s: "proposer_spawn ex_node Map.empty 32 = Ok s" "p_header_size s = 32" "p_round s = 1"
    "p_last_parents s \<noteq> []" "p_faults s = 0" "p_payload_size s = 0" "p_digests s = []"
    using ex_spawn by blast
  obtain s' out where run: "proposer_run ex_node ex_proposals s = (Ok (), s', out)"
    "map h_round (headers_made out) = [1, 2]" using ex_proposer_run [OF s(2-)] by (elim exE conjE)
  have "sorted_wrt (<) (map h_round (headers_made out))"
    using proposer_one_header_per_round [OF s(1) run(1)] by (auto simp: ex_proposals_def)
  with s(1) run show ?thesis by (intro exI conjI)
qed

text \<open>
  C32: No batch of our workers is lost by the proposer: after any run without a panic, the digests
  received are exactly those in the headers made and those still pending, and the payload size counts
  32 bytes for each pending entry.
\<close>

theorem proposer_conserves_digests:
  assumes "proposer_spawn nd env hsize = Ok s" and "proposer_run nd events s = (Ok (), s', out)"
  shows "received events = pending_digests s' \<union> proposed_digests out \<and>
    p_payload_size s' = word_of_nat (32 * length (p_digests s'))"
proof -
  note s = proposer_spawn_fields [OF assms(1)]
  from assms(2) obtain t out1 out2 where t: "op_for events (proposer_step nd) t = (Ok (), s', out2)"
    "out = out1 @ out2" "headers_made out1 = []" "p_digests t = p_digests s" "p_payload_size t = p_payload_size s"
    by (rule proposer_run_split)
  have "counted_payload t" using s t by (simp add: counted_payload_def)
  from proposer_events_digests [OF t(1) this] show ?thesis
    using s t(2-5) by (auto simp: pending_digests_def proposed_digests_def counted_payload_def)
qed

theorem proposer_conserves_digests_witness:
  "\<exists>s s' out. proposer_spawn ex_node Map.empty 32 = Ok s \<and>
     proposer_run ex_node ex_proposals s = (Ok (), s', out) \<and>
     pending_digests s' \<union> proposed_digests out = {Digest 9}"
proof -
  obtain s where s: "proposer_spawn ex_node Map.empty 32 = Ok s" "p_header_size s = 32" "p_round s = 1"
    "p_last_parents s \<noteq> []" "p_faults s = 0" "p_payload_size s = 0" "p_digests s = []"
    using ex_spawn by blast
  obtain s' out where run: "proposer_run ex_node ex_proposals s = (Ok (), s', out)"
    using ex_proposer_run [OF s(2-)] by (elim exE conjE)
  have "received ex_proposals = {Digest 9}" by (auto simp: received_def ex_proposals_def)
  with proposer_conserves_digests [OF s(1) run] s(1) run show ?thesis by auto
qed

end
