(* ===== verification/HeaderWaiter.thy ===== *)
theory HeaderWaiter
  imports Synchronizer
begin

text \<open>
  \<open>primary/src/header_waiter.rs\<close>: headers that miss parents or batches wait here; the task asks other
  nodes for the missing data and gives the header back to the core task when the store has it. A future
  that waits for keys is an entry of \<open>hw_waiting\<close>; polling it looks at the store. The cancel channel of
  a future is a number; the channel is closed when no entry of \<open>hw_pending\<close> holds it. Hash maps are
  association lists in insertion order.
\<close>

section \<open>State\<close>

type_synonym millis = "128 word"

record waiting_header =
  w_header :: header
  w_keys :: "bytes list"
  w_channel :: nat

record header_waiter =
  hw_parent_requests :: "(digest \<times> round \<times> millis) list"
  hw_batch_requests :: "(digest \<times> round) list"
  hw_pending :: "(digest \<times> round \<times> nat) list"
  hw_waiting :: "waiting_header list"
  hw_next_channel :: nat

datatype header_waiter_action =
  SendSync socket_addr bytes
| LuckyBroadcast "socket_addr list" bytes usize
| LoopbackHeader header

type_synonym 'a header_waiter_op = "(header_waiter, header_waiter_action, dag_error, 'a) op"

definition header_waiter_new :: header_waiter where
  "header_waiter_new =
     \<lparr>hw_parent_requests = [], hw_batch_requests = [], hw_pending = [], hw_waiting = [], hw_next_channel = 0\<rparr>"

section \<open>Futures\<close>

text \<open>\<open>try_join_all\<close> over \<open>notify_read\<close>: an error ends the wait, otherwise all keys are needed.\<close>

fun join_all :: "'db node \<Rightarrow> 'db \<Rightarrow> bytes list \<Rightarrow> (dag_error, bool) result" where
  "join_all nd d [] = Ok True"
| "join_all nd d (k # ks) =
     and_then (read_store nd d k) (\<lambda>found. and_then (join_all nd d ks) (\<lambda>rest. Ok (found \<noteq> None \<and> rest)))"

definition closed :: "waiting_header \<Rightarrow> header_waiter \<Rightarrow> bool" where
  "closed w s \<longleftrightarrow> w_channel w \<notin> (\<lambda>(_, _, ch). ch) ` set (hw_pending s)"

text \<open>
  Polling a future: \<open>None\<close> while it is not ready. When the keys are there and the channel is closed,
  \<open>select!\<close> picks a branch at random (\<open>first\<close>).
\<close>

definition waiter :: "'db node \<Rightarrow> 'db \<Rightarrow> bool \<Rightarrow> bool \<Rightarrow> waiting_header \<Rightarrow> (dag_error, header option) result option" where
  "waiter nd d cancelled first w =
     (if cancelled \<and> \<not> first then Some (Ok None)
      else case join_all nd d (w_keys w) of
             Inl f \<Rightarrow> Some (Inl f)
           | Inr ready \<Rightarrow>
               if ready then Some (Ok (Some (w_header w)))
               else if cancelled then Some (Ok None) else None)"

section \<open>Handlers\<close>

definition await_header :: "bytes list \<Rightarrow> header \<Rightarrow> unit header_waiter_op" where
  "await_header keys h = op_modify (\<lambda>s.
     s\<lparr>hw_pending := hw_pending s @ [(h_id h, h_round h, hw_next_channel s)],
       hw_waiting := hw_waiting s @ [\<lparr>w_header = h, w_keys = keys, w_channel = hw_next_channel s\<rparr>],
       hw_next_channel := Suc (hw_next_channel s)\<rparr>)"

fun push_digest :: "worker_id \<Rightarrow> digest \<Rightarrow> (worker_id \<times> digest list) list \<Rightarrow> (worker_id \<times> digest list) list" where
  "push_digest wid d [] = [(wid, [d])]"
| "push_digest wid d ((w, ds) # m) = (if w = wid then (w, ds @ [d]) # m else (w, ds) # push_digest wid d m)"

fun request_batches :: "round \<Rightarrow> (digest \<times> worker_id) list \<Rightarrow> (digest \<times> round) list \<Rightarrow> (worker_id \<times> digest list) list
    \<Rightarrow> (digest \<times> round) list \<times> (worker_id \<times> digest list) list" where
  "request_batches r [] reqs syncs = (reqs, syncs)"
| "request_batches r ((d, wid) # missing) reqs syncs =
     (if map_of reqs d = None then request_batches r missing (reqs @ [(d, r)]) (push_digest wid d syncs)
      else request_batches r missing reqs syncs)"

fun request_parents :: "round \<Rightarrow> millis \<Rightarrow> digest list \<Rightarrow> (digest \<times> round \<times> millis) list \<Rightarrow> digest list
    \<Rightarrow> (digest \<times> round \<times> millis) list \<times> digest list" where
  "request_parents r now [] reqs syncs = (reqs, syncs)"
| "request_parents r now (d # missing) reqs syncs =
     (if map_of reqs d = None then request_parents r now missing (reqs @ [(d, r, now)]) (syncs @ [d])
      else request_parents r now missing reqs syncs)"

definition send_synchronize :: "'db node \<Rightarrow> public_key \<Rightarrow> worker_id \<times> digest list \<Rightarrow> unit header_waiter_op" where
  "send_synchronize nd author = (\<lambda>(wid, digests).
     case worker_of (nd_committee nd) author wid of
       Inl _ \<Rightarrow> op_lift Panicked
     | Inr w \<Rightarrow> op_emit (SendSync (primary_to_worker w) (ser_worker_message (nd_codec nd) (Synchronize digests author))))"

definition send_certificates_request :: "'db node \<Rightarrow> public_key \<Rightarrow> digest list \<Rightarrow> unit header_waiter_op" where
  "send_certificates_request nd author syncs =
     (if syncs = [] then op_return ()
      else case primary_of (nd_committee nd) author of
             Inl _ \<Rightarrow> op_lift Panicked
           | Inr a \<Rightarrow> op_emit (SendSync (primary_to_primary a)
               (ser_primary_message (nd_codec nd) (CertificatesRequest syncs (nd_name nd)))))"

text \<open>A sync message; the result says whether the iteration goes on to the cleanup.\<close>

fun sync_message :: "'db node \<Rightarrow> millis \<Rightarrow> waiter_message \<Rightarrow> bool header_waiter_op" where
  "sync_message nd now (SyncBatches missing h) =
     op_bind (op_get (\<lambda>s. map_of (hw_pending s) (h_id h) \<noteq> None)) (\<lambda>known.
     if known then op_return False
     else
       op_then (await_header (map (\<lambda>(d, wid). payload_key d wid) missing) h)
       (op_bind (op_get (\<lambda>s. request_batches (h_round h) missing (hw_batch_requests s) [])) (\<lambda>(reqs, syncs).
        op_then (op_modify (\<lambda>s. s\<lparr>hw_batch_requests := reqs\<rparr>))
        (op_then (op_for syncs (send_synchronize nd (h_author h))) (op_return True)))))"
| "sync_message nd now (SyncParents missing h) =
     op_bind (op_get (\<lambda>s. map_of (hw_pending s) (h_id h) \<noteq> None)) (\<lambda>known.
     if known then op_return False
     else
       op_then (await_header (map digest_to_vec missing) h)
       (op_bind (op_get (\<lambda>s. request_parents (h_round h) now missing (hw_parent_requests s) [])) (\<lambda>(reqs, syncs).
        op_then (op_modify (\<lambda>s. s\<lparr>hw_parent_requests := reqs\<rparr>))
        (op_then (send_certificates_request nd (h_author h) syncs) (op_return True)))))"

definition remove_keys :: "'k list \<Rightarrow> ('k \<times> 'v) list \<Rightarrow> ('k \<times> 'v) list" where
  "remove_keys ks m = filter (\<lambda>(k, _). k \<notin> set ks) m"

text \<open>The branch on a completed future.\<close>

fun completed :: "(dag_error, header option) result \<Rightarrow> unit header_waiter_op" where
  "completed (Inr (Some h)) =
     op_then (op_modify (\<lambda>s.
       s\<lparr>hw_pending := remove_keys [h_id h] (hw_pending s),
         hw_batch_requests := remove_keys (map fst (h_payload h)) (hw_batch_requests s),
         hw_parent_requests := remove_keys (h_parents h) (hw_parent_requests s)\<rparr>))
       (op_emit (LoopbackHeader h))"
| "completed (Inr None) = op_return ()"
| "completed (Inl f) = op_lift Panicked"

definition poll_waiting :: "'db node \<Rightarrow> 'db \<Rightarrow> nat \<Rightarrow> bool \<Rightarrow> bool header_waiter_op" where
  "poll_waiting nd d i first =
     op_bind (op_get (\<lambda>s. s)) (\<lambda>s.
     if length (hw_waiting s) \<le> i then op_return False
     else case waiter nd d (closed (hw_waiting s ! i) s) first (hw_waiting s ! i) of
            None \<Rightarrow> op_return False
          | Some r \<Rightarrow>
              op_then (op_modify (\<lambda>s. s\<lparr>hw_waiting := take i (hw_waiting s) @ drop (Suc i) (hw_waiting s)\<rparr>))
              (op_then (completed r) (op_return True)))"

definition retry_parents :: "parameters \<Rightarrow> millis \<Rightarrow> header_waiter \<Rightarrow> digest list" where
  "retry_parents params now s =
     map fst (filter (\<lambda>(_, _, timestamp). timestamp + ucast (sync_retry_delay params) < now) (hw_parent_requests s))"

definition retry_timer :: "'db node \<Rightarrow> parameters \<Rightarrow> millis \<Rightarrow> unit header_waiter_op" where
  "retry_timer nd params now =
     op_bind (op_get (retry_parents params now)) (\<lambda>retry.
       op_emit (LuckyBroadcast (others_addresses nd)
         (ser_primary_message (nd_codec nd) (CertificatesRequest retry (nd_name nd))) (sync_retry_nodes params)))"

definition header_waiter_cleanup :: "'db node \<Rightarrow> round \<Rightarrow> header_waiter \<Rightarrow> header_waiter" where
  "header_waiter_cleanup nd loaded s =
     (if nd_gc_depth nd < loaded then
        let gc = loaded - nd_gc_depth nd in
        s\<lparr>hw_pending := filter (\<lambda>(_, r, _). gc < r) (hw_pending s),
          hw_batch_requests := filter (\<lambda>(_, r). gc < r) (hw_batch_requests s),
          hw_parent_requests := filter (\<lambda>(_, r, _). gc < r) (hw_parent_requests s)\<rparr>
      else s)"

section \<open>The run loop\<close>

datatype header_waiter_event =
  SyncRequest waiter_message
| WaitingNext nat bool
| RetryTimer

fun header_waiter_handle :: "'db node \<Rightarrow> parameters \<Rightarrow> 'db \<Rightarrow> millis \<Rightarrow> header_waiter_event \<Rightarrow> bool header_waiter_op" where
  "header_waiter_handle nd params d now (SyncRequest m) = sync_message nd now m"
| "header_waiter_handle nd params d now (WaitingNext i first) = poll_waiting nd d i first"
| "header_waiter_handle nd params d now RetryTimer = op_then (retry_timer nd params now) (op_return True)"

text \<open>One iteration: the event, seen with a store and a clock, and the consensus round loaded after it.\<close>

definition header_waiter_step ::
  "'db node \<Rightarrow> parameters \<Rightarrow> 'db \<times> millis \<times> header_waiter_event \<times> round \<Rightarrow> unit header_waiter_op" where
  "header_waiter_step nd params = (\<lambda>(d, now, ev, loaded).
     op_bind (header_waiter_handle nd params d now ev) (\<lambda>cleanup.
       if cleanup then op_modify (header_waiter_cleanup nd loaded) else op_return ()))"

definition header_waiter_run ::
  "'db node \<Rightarrow> parameters \<Rightarrow> ('db \<times> millis \<times> header_waiter_event \<times> round) list \<Rightarrow> unit header_waiter_op" where
  "header_waiter_run nd params events = op_for events (header_waiter_step nd params)"

section \<open>Every pending header has its future\<close>

fun request_of :: "waiter_message \<Rightarrow> header \<times> bytes list" where
  "request_of (SyncBatches missing h) = (h, map (\<lambda>(d, wid). payload_key d wid) missing)"
| "request_of (SyncParents missing h) = (h, map digest_to_vec missing)"

definition requests :: "('db \<times> millis \<times> header_waiter_event \<times> round) list \<Rightarrow> (header \<times> bytes list) set" where
  "requests events = {request_of m | d now m loaded. (d, now, SyncRequest m, loaded) \<in> set events}"

definition hw_inv :: "(header \<times> bytes list) set \<Rightarrow> header_waiter \<Rightarrow> bool" where
  "hw_inv R s \<longleftrightarrow>
     (\<forall>w \<in> set (hw_waiting s). (w_header w, w_keys w) \<in> R) \<and>
     (\<forall>hid r ch. (hid, r, ch) \<in> set (hw_pending s) \<longrightarrow>
       (\<exists>w \<in> set (hw_waiting s). w_channel w = ch \<and> h_id (w_header w) = hid \<and> h_round (w_header w) = r))"

lemma hw_inv_new: "hw_inv R header_waiter_new"
  by (simp add: hw_inv_def header_waiter_new_def)

interpretation hw: op_invariant "hw_inv R" for R .

lemma hw_inv_fewer:
  assumes "hw_inv R s" and "set (hw_pending s') \<subseteq> set (hw_pending s)" and "hw_waiting s' = hw_waiting s"
  shows "hw_inv R s'"
  using assms unfolding hw_inv_def by auto

lemma hw_inv_requests [simp]:
  "hw_inv R (s\<lparr>hw_batch_requests := reqs\<rparr>) = hw_inv R s"
  "hw_inv R (s\<lparr>hw_parent_requests := reqs'\<rparr>) = hw_inv R s"
  by (simp_all add: hw_inv_def)

lemma keeps_await: "(h, keys) \<in> R \<Longrightarrow> hw.keeps R (await_header keys h)"
  unfolding await_header_def by (rule hw.keeps_modify) (auto simp: hw_inv_def)

lemma keeps_send:
  "hw.keeps R (send_synchronize nd author ws)" "hw.keeps R (send_certificates_request nd author syncs)"
  unfolding send_synchronize_def send_certificates_request_def
  by (intro hw.keeps_intros)+

lemma keeps_sync: "request_of m \<in> R \<Longrightarrow> hw.keeps R (sync_message nd now m)"
  by (cases "(nd, now, m)" rule: sync_message.cases)
    (auto simp only: sync_message.simps request_of.simps prod.inject hw_inv_requests
      intro!: hw.keeps_intros keeps_await keeps_send hw.keeps_modify)

text \<open>A future that is gone was closed, or its header is removed from the pending ones with it.\<close>

lemma hw_inv_completed:
  assumes inv: "hw_inv R s" and i: "i < length (hw_waiting s)"
    and gone: "\<And>hid r. (hid, r, w_channel (hw_waiting s ! i)) \<in> set ps \<Longrightarrow> hid \<noteq> h_id (w_header (hw_waiting s ! i))"
    and ps: "set ps \<subseteq> set (hw_pending s)"
  shows "hw_inv R (s\<lparr>hw_waiting := take i (hw_waiting s) @ drop (Suc i) (hw_waiting s), hw_pending := ps\<rparr>)"
proof -
  let ?w = "hw_waiting s ! i"
  have split: "hw_waiting s = take i (hw_waiting s) @ ?w # drop (Suc i) (hw_waiting s)"
    using i by (rule id_take_nth_drop)
  have rest: "set (hw_waiting s) = insert ?w (set (take i (hw_waiting s) @ drop (Suc i) (hw_waiting s)))"
    using arg_cong [OF split, of set] by simp
  have "\<exists>w \<in> set (take i (hw_waiting s) @ drop (Suc i) (hw_waiting s)).
      w_channel w = ch \<and> h_id (w_header w) = hid \<and> h_round (w_header w) = r"
    if p: "(hid, r, ch) \<in> set ps" for hid r ch
  proof -
    obtain w where w: "w \<in> set (hw_waiting s)" "w_channel w = ch" "h_id (w_header w) = hid" "h_round (w_header w) = r"
      using inv ps p unfolding hw_inv_def by blast
    have "w \<noteq> ?w" using gone p w by blast
    then show ?thesis using w rest by auto
  qed
  moreover have "\<forall>w \<in> set (take i (hw_waiting s) @ drop (Suc i) (hw_waiting s)). (w_header w, w_keys w) \<in> R"
    using inv rest unfolding hw_inv_def by blast
  ultimately show ?thesis unfolding hw_inv_def by auto
qed

lemma waiter_Some: "waiter nd d c first w = Some (Ok (Some h)) \<Longrightarrow> h = w_header w \<and> join_all nd d (w_keys w) = Ok True"
  and waiter_None: "waiter nd d c first w = Some (Ok None) \<Longrightarrow> c"
  by (auto simp: waiter_def split: if_splits sum.splits)

lemma keeps_poll: "hw.keeps R (poll_waiting nd d i first)"
  unfolding poll_waiting_def
proof (rule hw.keeps_get_bind)
  fix s x s' out
  assume inv: "hw_inv R s" and run: "(if length (hw_waiting s) \<le> i then op_return False
     else case waiter nd d (closed (hw_waiting s ! i) s) first (hw_waiting s ! i) of
            None \<Rightarrow> op_return False
          | Some r \<Rightarrow>
              op_then (op_modify (\<lambda>s. s\<lparr>hw_waiting := take i (hw_waiting s) @ drop (Suc i) (hw_waiting s)\<rparr>))
              (op_then (completed r) (op_return True))) s = (Ok x, s', out)"
  let ?w = "hw_waiting s ! i"
  show "hw_inv R s'"
  proof (cases "length (hw_waiting s) \<le> i \<or> waiter nd d (closed ?w s) first ?w = None")
    case True
    then show ?thesis using run inv by (auto split: if_splits)
  next
    case False
    then obtain r where r: "waiter nd d (closed ?w s) first ?w = Some r" and i: "i < length (hw_waiting s)" by auto
    consider (header) "r = Ok (Some (w_header ?w))" | (cancelled) "r = Ok None" "closed ?w s" | (failed) f where "r = Inl f"
    proof (cases r)
      case (Inr ho)
      show thesis
      proof (cases ho)
        case None
        then have "closed ?w s" using waiter_None [of nd d "closed ?w s" first ?w] r Inr by simp
        with None Inr cancelled show thesis by blast
      next
        case (Some h)
        then have "h = w_header ?w" using waiter_Some [of nd d "closed ?w s" first ?w h] r Inr by simp
        with Some Inr header show thesis by blast
      qed
    qed (rule failed)
    then show ?thesis
    proof cases
      case header
      have "hw_inv R (s\<lparr>hw_waiting := take i (hw_waiting s) @ drop (Suc i) (hw_waiting s),
          hw_pending := remove_keys [h_id (w_header ?w)] (hw_pending s)\<rparr>)"
        by (rule hw_inv_completed [OF inv i]) (auto simp: remove_keys_def)
      then show ?thesis
        using run r i header by (auto simp: op_then_def op_bind_def hw_inv_def)
    next
      case cancelled
      have "hw_inv R (s\<lparr>hw_waiting := take i (hw_waiting s) @ drop (Suc i) (hw_waiting s), hw_pending := hw_pending s\<rparr>)"
        by (rule hw_inv_completed [OF inv i]) (use cancelled(2) in \<open>force simp: closed_def\<close>)+
      then show ?thesis
        using run r i cancelled(1) by (auto simp: op_then_def op_bind_def)
    next
      case failed
      then show ?thesis using run r i by (auto simp: op_then_def op_bind_def)
    qed
  qed
qed

lemma keeps_cleanup: "hw.keeps R (op_modify (header_waiter_cleanup nd loaded))"
proof (rule hw.keeps_modify)
  fix s
  assume "hw_inv R s"
  then show "hw_inv R (header_waiter_cleanup nd loaded s)"
    by (rule hw_inv_fewer) (auto simp: header_waiter_cleanup_def Let_def)
qed

lemma keeps_run: "requests events \<subseteq> R \<Longrightarrow> hw.keeps R (header_waiter_run nd params events)"
  unfolding header_waiter_run_def
proof (rule hw.keeps_for)
  fix e
  assume R: "requests events \<subseteq> R" and e: "e \<in> set events"
  obtain d now ev loaded where ev: "e = (d, now, ev, loaded)" by (cases e)
  have "hw.keeps R (header_waiter_handle nd params d now ev)"
  proof (cases ev)
    case (SyncRequest m)
    then have "request_of m \<in> R" using R e ev unfolding requests_def by blast
    then show ?thesis using SyncRequest by (simp add: keeps_sync)
  next
    case (WaitingNext i first)
    then show ?thesis by (simp add: keeps_poll)
  next
    case RetryTimer
    then show ?thesis
      by (auto simp only: header_waiter_handle.simps retry_timer_def intro!: hw.keeps_intros)
  qed
  then show "hw.keeps R (header_waiter_step nd params e)"
    unfolding ev header_waiter_step_def split by (intro hw.keeps_intros keeps_cleanup)
qed

lemma join_all_ok:
  assumes "rocksdb_ok (nd_rocksdb nd)"
  shows "join_all nd d ks = Ok (\<forall>k \<in> set ks. has_key nd d k)"
  by (induction ks) (auto simp: read_store_ok [OF assms] has_key_def)

text \<open>Only a completed future hands a header back.\<close>

definition quiet_action :: "header_waiter_action \<Rightarrow> bool" where
  "quiet_action a \<longleftrightarrow> (\<forall>h. a \<noteq> LoopbackHeader h)"

definition quietly :: "header_waiter \<Rightarrow> header_waiter \<Rightarrow> header_waiter_action list \<Rightarrow> bool" where
  "quietly s s' out \<longleftrightarrow> (\<forall>a \<in> set out. quiet_action a)"

interpretation quietly: transition quietly
  by unfold_locales (auto simp: quietly_def)

lemma quiet_sends:
  "quietly.moves (send_synchronize nd author ws)" "quietly.moves (send_certificates_request nd author syncs)"
  by (auto simp: quietly.moves_def quietly_def quiet_action_def send_synchronize_def send_certificates_request_def
      split: prod.split sum.split)

lemma quiet_sync: "quietly.moves (sync_message nd now m)"
  by (cases "(nd, now, m)" rule: sync_message.cases)
    (auto simp only: sync_message.simps await_header_def prod.inject quietly_def set_simps ball_simps
      intro!: quietly.moves_intros quiet_sends quietly.moves_modify split: prod.split)

lemma handle_no_loopback:
  assumes "header_waiter_handle nd params d now ev s = (r, s', out)" and "LoopbackHeader h \<in> set out"
  shows "\<exists>i first. ev = WaitingNext i first"
proof (cases ev)
  case (SyncRequest m)
  then have "quietly s s' out" using assms(1) quietly.movesD [OF quiet_sync] by auto
  then show ?thesis using assms(2) by (auto simp: quietly_def quiet_action_def)
qed (use assms in \<open>auto simp: retry_timer_def op_then_def op_bind_def\<close>)

lemma poll_loopback:
  assumes "poll_waiting nd d i first s = (r, s', out)" and "LoopbackHeader h \<in> set out"
  shows "i < length (hw_waiting s) \<and>
    waiter nd d (closed (hw_waiting s ! i) s) first (hw_waiting s ! i) = Some (Ok (Some h))"
proof (cases "length (hw_waiting s) \<le> i \<or> waiter nd d (closed (hw_waiting s ! i) s) first (hw_waiting s ! i) = None")
  case True
  then show ?thesis using assms by (auto simp: poll_waiting_def op_bind_def split: if_splits)
next
  case False
  then obtain res where "waiter nd d (closed (hw_waiting s ! i) s) first (hw_waiting s ! i) = Some res" by auto
  then show ?thesis
    using False assms
    by (cases res rule: completed.cases) (auto simp: poll_waiting_def op_bind_def op_then_def)
qed

section \<open>Properties\<close>

text \<open>
  C27: No suspended header is forgotten: after any run of the header waiter, each pending header has a
  future that waits for the data some request named, and polling it once the store has that data hands
  the header back to the core task and clears it from the pending ones.
\<close>

theorem pending_header_resumes:
  assumes "rocksdb_ok (nd_rocksdb nd)" and "header_waiter_run nd params events header_waiter_new = (Ok (), s, out)"
    and "(hid, r, ch) \<in> set (hw_pending s)"
  shows "\<exists>i h keys. i < length (hw_waiting s) \<and> h_id h = hid \<and> h_round h = r \<and> (h, keys) \<in> requests events \<and>
    (\<forall>d now first. (\<forall>k \<in> set keys. has_key nd d k) \<longrightarrow>
       (\<exists>s'. header_waiter_handle nd params d now (WaitingNext i first) s = (Ok True, s', [LoopbackHeader h]) \<and>
         hid \<notin> fst ` set (hw_pending s')))"
proof -
  have inv: "hw_inv (requests events) s"
    using keeps_run [OF order.refl] hw_inv_new assms(2) by (rule hw.keepsD)
  then obtain w where w: "w \<in> set (hw_waiting s)" "w_channel w = ch" "h_id (w_header w) = hid"
    "h_round (w_header w) = r" "(w_header w, w_keys w) \<in> requests events"
    using assms(3) unfolding hw_inv_def by blast
  then obtain i where i: "i < length (hw_waiting s)" "hw_waiting s ! i = w" by (auto simp: in_set_conv_nth)
  have "\<not> closed w s" using assms(3) w(2) by (force simp: closed_def)
  then have "waiter nd d (closed w s) first w = Some (Ok (Some (w_header w)))"
    if "\<forall>k \<in> set (w_keys w). has_key nd d k" for d first
    using that by (simp add: waiter_def join_all_ok [OF assms(1)])
  then have "\<exists>s'. header_waiter_handle nd params d now (WaitingNext i first) s = (Ok True, s', [LoopbackHeader (w_header w)]) \<and>
      hid \<notin> fst ` set (hw_pending s')" if "\<forall>k \<in> set (w_keys w). has_key nd d k" for d now first
    using that i w(3)
    by (auto simp: poll_waiting_def op_bind_def op_then_def remove_keys_def)
  then show ?thesis using i w by blast
qed

text \<open>A header of round 6 that misses the parent with digest 77.\<close>

definition ex_suspended :: "round \<Rightarrow> header" where
  "ex_suspended r = header_default\<lparr>h_author := PublicKey 2, h_round := r, h_id := Digest (ucast r), h_parents := [Digest 77]\<rparr>"

definition ex_request :: "round \<Rightarrow> round \<Rightarrow> (bytes \<times> bytes) list \<times> millis \<times> header_waiter_event \<times> round" where
  "ex_request r loaded = ([], 0, SyncRequest (SyncParents [Digest 77] (ex_suspended r)), loaded)"

lemma ex_suspended_simps [simp]:
  "h_author (ex_suspended r) = PublicKey 2" "h_round (ex_suspended r) = r" "h_id (ex_suspended r) = Digest (ucast r)"
  "h_parents (ex_suspended r) = [Digest 77]" "h_payload (ex_suspended r) = []"
  by (simp_all add: ex_suspended_def header_default_def)

lemma ex_primary: "\<exists>a. primary_of ex_committee (PublicKey 2) = Ok a"
  by (simp add: primary_of_def ex_committee_def)

lemmas header_waiter_eval = header_waiter_run_def header_waiter_step_def ex_request_def header_waiter_new_def
  await_header_def send_certificates_request_def header_waiter_cleanup_def op_then_def op_bind_def Let_def

lemma ex_request_run:
  "\<exists>out. header_waiter_run ex_node parameters_default [ex_request 6 0] header_waiter_new =
     (Ok (), \<lparr>hw_parent_requests = [(Digest 77, 6, 0)], hw_batch_requests = [], hw_pending = [(Digest 6, 6, 0)],
        hw_waiting = [\<lparr>w_header = ex_suspended 6, w_keys = [digest_to_vec (Digest 77)], w_channel = 0\<rparr>],
        hw_next_channel = 1\<rparr>, out)"
  using ex_primary by (auto simp: header_waiter_eval cong: op_congs)

theorem pending_header_resumes_witness:
  "\<exists>s out i h keys. header_waiter_run ex_node parameters_default [ex_request 6 0] header_waiter_new = (Ok (), s, out) \<and>
     i < length (hw_waiting s) \<and> h_id h = Digest 6 \<and> (h, keys) \<in> requests [ex_request 6 0]"
proof -
  obtain s out where run: "header_waiter_run ex_node parameters_default [ex_request 6 0] header_waiter_new = (Ok (), s, out)"
    "hw_pending s = [(Digest 6, 6, 0)]" using ex_request_run by force
  have "(Digest 6, 6, 0) \<in> set (hw_pending s)" by (simp add: run(2))
  from pending_header_resumes [OF _ run(1) this] show ?thesis using run(1) by auto
qed

text \<open>
  A header is handed back only when its data has arrived: when an iteration after any run hands a
  header to the core task, some request named that header, and all keys of the request are in the store.
\<close>

lemma loopback_has_data:
  assumes "rocksdb_ok (nd_rocksdb nd)" and "header_waiter_run nd params events header_waiter_new = (Ok (), s, out)"
    and "header_waiter_step nd params (d, now, ev, loaded) s = (r, s', out')" and "LoopbackHeader h \<in> set out'"
  shows "\<exists>keys. (h, keys) \<in> requests events \<and> (\<forall>k \<in> set keys. has_key nd d k)"
proof -
  have inv: "hw_inv (requests events) s"
    using keeps_run [OF order.refl] hw_inv_new assms(2) by (rule hw.keepsD)
  have "\<exists>r' t. header_waiter_handle nd params d now ev s = (r', t, out')"
    using assms(3) by (auto simp: header_waiter_step_def op_bind_def split: prod.splits sum.splits if_splits)
  then obtain r' t where run: "header_waiter_handle nd params d now ev s = (r', t, out')" by blast
  obtain i first where ev: "ev = WaitingNext i first"
    using handle_no_loopback [OF run assms(4)] by blast
  let ?w = "hw_waiting s ! i"
  have "poll_waiting nd d i first s = (r', t, out')" using run ev by simp
  from poll_loopback [OF this assms(4)]
  have i: "i < length (hw_waiting s)" and w: "waiter nd d (closed ?w s) first ?w = Some (Ok (Some h))" by auto
  have "(w_header ?w, w_keys ?w) \<in> requests events" using inv i by (simp add: hw_inv_def)
  then show ?thesis using waiter_Some [OF w] join_all_ok [OF assms(1)] by auto
qed

lemma ex_resumed:
  "\<exists>s out s'. header_waiter_run ex_node parameters_default [ex_request 6 0] header_waiter_new = (Ok (), s, out) \<and>
     header_waiter_step ex_node parameters_default ([(digest_to_vec (Digest 77), [1])], 5, WaitingNext 0 True, 0) s =
       (Ok (), s', [LoopbackHeader (ex_suspended 6)])"
proof -
  obtain s out where run: "header_waiter_run ex_node parameters_default [ex_request 6 0] header_waiter_new = (Ok (), s, out)"
    and s: "hw_waiting s = [\<lparr>w_header = ex_suspended 6, w_keys = [digest_to_vec (Digest 77)], w_channel = 0\<rparr>]"
      "hw_pending s = [(Digest 6, 6, 0)]" using ex_request_run by force
  let ?d = "[(digest_to_vec (Digest 77), [1])]"
  have "waiter ex_node ?d c True (hw_waiting s ! 0) = Some (Ok (Some (ex_suspended 6)))" for c
    by (simp add: s(1) waiter_def read_store_def ex_rocksdb_def)
  then have "\<exists>s'. header_waiter_step ex_node parameters_default (?d, 5, WaitingNext 0 True, 0) s =
      (Ok (), s', [LoopbackHeader (ex_suspended 6)])"
    using s by (simp add: header_waiter_step_def poll_waiting_def op_then_def op_bind_def)
  then show ?thesis using run by blast
qed

text \<open>
  A request can be forgotten while a header still waits for it. A header of a low round names a
  missing parent first and records the request under its own round; a later header waits for the same
  parent without a request of its own; when the low round is garbage collected, the request is dropped,
  and no retry timer asks for the parent any more, although the later header is still pending.
\<close>

theorem parent_request_forgotten:
  "\<exists>s out. header_waiter_run ex_node parameters_default [ex_request 2 0, ex_request 6 0, ([], 0, RetryTimer, 3)] header_waiter_new =
      (Ok (), s, out) \<and>
    map fst (hw_pending s) = [Digest 6] \<and> Digest 77 \<notin> fst ` set (hw_parent_requests s) \<and>
    (\<forall>now. retry_parents parameters_default now s = [])"
proof -
  have small: "(1 :: u64) < 3" "\<not> (2 :: u64) < 2" "(2 :: u64) < 6" by simp_all
  show ?thesis
    using ex_primary
    by (auto simp: header_waiter_eval retry_timer_def small retry_parents_def cong: op_congs)
qed

section \<open>The synchronizer and the waiter together\<close>

lemma collect_parents_ok:
  assumes "rocksdb_ok (nd_rocksdb nd)" and "collect_parents nd d hs = Ok (missing, parents)"
  shows "missing = filter (\<lambda>x. \<not> is_genesis_digest nd x \<and> \<not> has_key nd d (digest_to_vec x)) hs \<and>
    length missing + length parents = length hs"
  using assms(2)
proof (induction hs arbitrary: missing parents)
  case Nil
  then show ?case by simp
next
  case (Cons x hs)
  have gen: "map_of (sync_genesis nd) x = None \<longleftrightarrow> \<not> is_genesis_digest nd x"
    by (simp add: map_of_eq_None_iff is_genesis_digest_def)
  show ?case
  proof (cases "map_of (sync_genesis nd) x")
    case (Some g)
    then show ?thesis using Cons gen by (fastforce simp: and_then_Ok_iff)
  next
    case None
    then show ?thesis
      using Cons gen
      by (cases "stored (nd_rocksdb nd) d (digest_to_vec x)")
        (fastforce simp: and_then_Ok_iff read_store_ok [OF assms(1)] has_key_def split: option.splits)+
  qed
qed

lemma requested_batches_arrived:
  assumes "rocksdb_ok (nd_rocksdb nd)" and "\<And>k. has_key nd d0 k \<Longrightarrow> has_key nd d k"
    and "SyncBatches missing h \<in> set (snd (missing_payload nd d0 h0)) \<union> set (snd (get_parents nd d0 h0))"
    and "\<forall>k \<in> set (snd (request_of (SyncBatches missing h))). has_key nd d k"
  shows "(\<forall>(x, wid) \<in> set (h_payload h). has_key nd d (payload_key x wid)) \<and> missing_payload nd d h = (Ok False, [])"
proof -
  have m: "h0 = h" "missing = filter (\<lambda>(x, wid). \<not> has_key nd d0 (payload_key x wid)) (h_payload h)"
    using assms(3) by (auto simp: missing_payload_def get_parents_def missing_batches_ok [OF assms(1)] split: if_splits sum.splits)
  have "has_key nd d (payload_key x wid)" if "(x, wid) \<in> set (h_payload h)" for x wid
    using assms(2,4) m(2) that by (cases "has_key nd d0 (payload_key x wid)") auto
  then have "\<forall>(x, wid) \<in> set (h_payload h). has_key nd d (payload_key x wid)"
    "filter (\<lambda>(x, wid). \<not> has_key nd d (payload_key x wid)) (h_payload h) = []"
    by (auto simp: filter_empty_conv)
  then show ?thesis by (simp add: missing_payload_def missing_batches_ok [OF assms(1)])
qed

lemma requested_parents_arrived:
  assumes "rocksdb_ok (nd_rocksdb nd)" and "\<And>k. has_key nd d0 k \<Longrightarrow> has_key nd d k"
    and "SyncParents missing h \<in> set (snd (missing_payload nd d0 h0)) \<union> set (snd (get_parents nd d0 h0))"
    and "\<forall>k \<in> set (snd (request_of (SyncParents missing h))). has_key nd d k"
  shows "(\<forall>x \<in> set (h_parents h). is_genesis_digest nd x \<or> has_key nd d (digest_to_vec x)) \<and> snd (get_parents nd d h) = [] \<and>
    (\<forall>parents. fst (get_parents nd d h) = Ok parents \<longrightarrow> length parents = length (h_parents h))"
proof -
  obtain parents where m: "h0 = h" "collect_parents nd d0 (h_parents h) = Ok (missing, parents)"
    using assms(3) by (auto simp: missing_payload_def get_parents_def split: sum.splits if_splits)
  have "missing = filter (\<lambda>x. \<not> is_genesis_digest nd x \<and> \<not> has_key nd d0 (digest_to_vec x)) (h_parents h)"
    using collect_parents_ok [OF assms(1) m(2)] by blast
  then have have_all: "is_genesis_digest nd x \<or> has_key nd d (digest_to_vec x)" if "x \<in> set (h_parents h)" for x
    using assms(2,4) that by (cases "has_key nd d0 (digest_to_vec x)") auto
  have none: "missing' = [] \<and> length parents' = length (h_parents h)"
    if "collect_parents nd d (h_parents h) = Ok (missing', parents')" for missing' parents'
    using collect_parents_ok [OF assms(1) that] have_all by (auto simp: filter_empty_conv)
  then have "snd (get_parents nd d h) = []" by (auto simp: get_parents_def split: sum.splits)
  moreover have "\<forall>parents. fst (get_parents nd d h) = Ok parents \<longrightarrow> length parents = length (h_parents h)"
    using none by (auto simp: get_parents_def split: sum.splits)
  ultimately show ?thesis using have_all by blast
qed

text \<open>
  C28: A header that was suspended and handed back does not wait for the same data again: in any run of the header waiter on
  requests that the synchronizer made, each for a store whose keys are still there, a header that an iteration hands back
  to the core task is the header of a request, and if that request was for batches, the store has all batches of the header and
  the synchronizer finds no payload missing, and if it was for parents, it has all parents and the synchronizer asks for none.
\<close>

theorem resumed_header_proceeds:
  assumes "rocksdb_ok (nd_rocksdb nd)" and "header_waiter_run nd params events header_waiter_new = (Ok (), s, out)"
    and "header_waiter_step nd params (d, now, ev, loaded) s = (r, s', out')" and "LoopbackHeader h \<in> set out'"
    and "\<forall>(d1, now1, ev1, loaded1) \<in> set events. \<forall>m. ev1 = SyncRequest m \<longrightarrow>
      (\<exists>d0 h0. m \<in> set (snd (missing_payload nd d0 h0)) \<union> set (snd (get_parents nd d0 h0)) \<and> (\<forall>k. has_key nd d0 k \<longrightarrow> has_key nd d k))"
  shows "\<exists>m. m \<in> {m. \<exists>d1 now1 loaded1. (d1, now1, SyncRequest m, loaded1) \<in> set events} \<and>
    (case m of
       SyncBatches missing h0 \<Rightarrow> h0 = h \<and>
         (\<forall>(x, wid) \<in> set (h_payload h). has_key nd d (payload_key x wid)) \<and> missing_payload nd d h = (Ok False, [])
     | SyncParents missing h0 \<Rightarrow> h0 = h \<and>
         (\<forall>x \<in> set (h_parents h). is_genesis_digest nd x \<or> has_key nd d (digest_to_vec x)) \<and> snd (get_parents nd d h) = [] \<and>
         (\<forall>parents. fst (get_parents nd d h) = Ok parents \<longrightarrow> length parents = length (h_parents h)))"
proof -
  obtain keys where "(h, keys) \<in> requests events" and keys: "\<forall>k \<in> set keys. has_key nd d k"
    using loopback_has_data [OF assms(1-4)] by blast
  then obtain m d1 now1 loaded1 where m: "(d1, now1, SyncRequest m, loaded1) \<in> set events" "(h, keys) = request_of m"
    unfolding requests_def by blast
  obtain d0 h0 where from_sync: "m \<in> set (snd (missing_payload nd d0 h0)) \<union> set (snd (get_parents nd d0 h0))"
    and older: "\<And>k. has_key nd d0 k \<Longrightarrow> has_key nd d k"
    using bspec [OF assms(5) m(1)] by auto
  have "case m of
       SyncBatches missing h0 \<Rightarrow> h0 = h \<and>
         (\<forall>(x, wid) \<in> set (h_payload h). has_key nd d (payload_key x wid)) \<and> missing_payload nd d h = (Ok False, [])
     | SyncParents missing h0 \<Rightarrow> h0 = h \<and>
         (\<forall>x \<in> set (h_parents h). is_genesis_digest nd x \<or> has_key nd d (digest_to_vec x)) \<and> snd (get_parents nd d h) = [] \<and>
         (\<forall>parents. fst (get_parents nd d h) = Ok parents \<longrightarrow> length parents = length (h_parents h))"
  proof (cases m)
    case (SyncBatches missing h1)
    then show ?thesis
      using m(2) keys requested_batches_arrived [OF assms(1) older, of d0 missing h h0] from_sync by simp
  next
    case (SyncParents missing h1)
    then show ?thesis
      using m(2) keys requested_parents_arrived [OF assms(1) older, of d0 missing h h0] from_sync by simp
  qed
  then show ?thesis using m(1) by blast
qed

theorem resumed_header_proceeds_witness:
  "\<exists>s s' out r. header_waiter_run ex_node parameters_default [ex_request 6 0] header_waiter_new = (Ok (), s, out) \<and>
     header_waiter_step ex_node parameters_default ([(digest_to_vec (Digest 77), [1])], 5, WaitingNext 0 True, 0) s =
       (r, s', [LoopbackHeader (ex_suspended 6)]) \<and>
     snd (get_parents ex_node [(digest_to_vec (Digest 77), [1])] (ex_suspended 6)) = []"
proof -
  let ?m = "SyncParents [Digest 77] (ex_suspended 6)" and ?d = "[(digest_to_vec (Digest 77), [1])] :: (bytes \<times> bytes) list"
  obtain s out s' where run: "header_waiter_run ex_node parameters_default [ex_request 6 0] header_waiter_new = (Ok (), s, out)"
    and step: "header_waiter_step ex_node parameters_default (?d, 5, WaitingNext 0 True, 0) s = (Ok (), s', [LoopbackHeader (ex_suspended 6)])"
    using ex_resumed by blast
  have "?m \<in> set (snd (get_parents ex_node [] (ex_suspended 6)))"
    by (simp add: get_parents_def ex_sync_genesis read_store_def ex_rocksdb_def)
  moreover have "\<not> has_key ex_node [] k" for k by (simp add: has_key_def stored_def ex_rocksdb_def)
  ultimately have "\<forall>(d1, now1, ev1, loaded1) \<in> set [ex_request 6 0]. \<forall>m. ev1 = SyncRequest m \<longrightarrow>
      (\<exists>d0 h0. m \<in> set (snd (missing_payload ex_node d0 h0)) \<union> set (snd (get_parents ex_node d0 h0)) \<and>
        (\<forall>k. has_key ex_node d0 k \<longrightarrow> has_key ex_node ?d k))"
    unfolding ex_request_def by (intro ballI) (clarsimp, blast)
  from resumed_header_proceeds [OF _ run step _ this, of "ex_suspended 6"] run step show ?thesis
    by (auto simp: ex_request_def)
qed

end
