(* ===== verification/PrimaryTasks.thy ===== *)
theory PrimaryTasks
  imports HeaderWaiter "HOL-Library.Multiset"
begin

text \<open>
  The smaller tasks of the primary: \<open>certificate_waiter.rs\<close>, \<open>garbage_collector.rs\<close>, \<open>helper.rs\<close> and
  \<open>payload_receiver.rs\<close>.
\<close>

section \<open>Certificate waiter\<close>

text \<open>The futures of the task: a certificate and the keys of its parents.\<close>

record certificate_waiter =
  cw_waiting :: "(certificate \<times> bytes list) list"

definition certificate_waiter_new :: certificate_waiter where
  "certificate_waiter_new = \<lparr>cw_waiting = []\<rparr>"

definition certificate_future :: "'db node \<Rightarrow> 'db \<Rightarrow> certificate \<times> bytes list \<Rightarrow> (dag_error, certificate) result option" where
  "certificate_future nd d = (\<lambda>(x, keys).
     case join_all nd d keys of Inl f \<Rightarrow> Some (Inl f) | Inr ready \<Rightarrow> if ready then Some (Ok x) else None)"

datatype certificate_waiter_event =
  SuspendCertificate certificate
| CertificateNext nat

type_synonym certificate_waiter_op = "(certificate_waiter, certificate, dag_error, unit) op"

fun certificate_waiter_step :: "'db node \<Rightarrow> 'db \<times> certificate_waiter_event \<Rightarrow> certificate_waiter_op" where
  "certificate_waiter_step nd (d, SuspendCertificate x) =
     op_modify (\<lambda>s. s\<lparr>cw_waiting := cw_waiting s @ [(x, map digest_to_vec (h_parents (c_header x)))]\<rparr>)"
| "certificate_waiter_step nd (d, CertificateNext i) =
     op_bind (op_get cw_waiting) (\<lambda>waiting.
     if length waiting \<le> i then op_return ()
     else case certificate_future nd d (waiting ! i) of
            None \<Rightarrow> op_return ()
          | Some (Inl f) \<Rightarrow> op_lift Panicked
          | Some (Inr x) \<Rightarrow>
              op_then (op_modify (\<lambda>s. s\<lparr>cw_waiting := take i (cw_waiting s) @ drop (Suc i) (cw_waiting s)\<rparr>))
                (op_emit x))"

definition certificate_waiter_run :: "'db node \<Rightarrow> ('db \<times> certificate_waiter_event) list \<Rightarrow> certificate_waiter_op" where
  "certificate_waiter_run nd events = op_for events (certificate_waiter_step nd)"

section \<open>Garbage collector\<close>

text \<open>\<open>gc_consensus_round\<close> is the atomic counter the other tasks of the primary load.\<close>

record garbage_collector =
  gc_last_committed :: round
  gc_consensus_round :: round
  gc_addresses :: "socket_addr list"

datatype gc_action = BroadcastCleanup "socket_addr list" bytes

definition garbage_collector_spawn :: "'db node \<Rightarrow> (dag_error, garbage_collector) result" where
  "garbage_collector_spawn nd =
     (case our_workers (nd_committee nd) (nd_name nd) of
        Inl _ \<Rightarrow> Panicked
      | Inr ws \<Rightarrow> Ok \<lparr>gc_last_committed = 0, gc_consensus_round = 0, gc_addresses = map primary_to_worker ws\<rparr>)"

definition garbage_collector_step ::
  "'db node \<Rightarrow> certificate \<Rightarrow> garbage_collector \<Rightarrow> garbage_collector \<times> gc_action list" where
  "garbage_collector_step nd x s =
     (let r = cert_round x in
      if gc_last_committed s < r then
        (s\<lparr>gc_last_committed := r, gc_consensus_round := r\<rparr>,
         [BroadcastCleanup (gc_addresses s) (ser_worker_message (nd_codec nd) (Cleanup r))])
      else (s, []))"

section \<open>Helper\<close>

text \<open>
  The replies to one request, in order, with the digests that failed to be read left out; \<open>expect\<close>
  on a value that is not a certificate panics.
\<close>

fun helper_replies :: "'db node \<Rightarrow> 'db \<Rightarrow> socket_addr \<Rightarrow> digest list \<Rightarrow> (unit, header_waiter_action, dag_error, unit) op" where
  "helper_replies nd d address [] = op_return ()"
| "helper_replies nd d address (x # digests) =
     (case db_get (nd_rocksdb nd) d (digest_to_vec x) of
        Inr (Some bs) \<Rightarrow>
          (case de_certificate (nd_codec nd) bs of
             None \<Rightarrow> op_lift Panicked
           | Some c \<Rightarrow>
               op_then (op_emit (SendSync address (ser_primary_message (nd_codec nd) (CertificateMsg c))))
                 (helper_replies nd d address digests))
      | _ \<Rightarrow> helper_replies nd d address digests)"

definition helper_step :: "'db node \<Rightarrow> 'db \<Rightarrow> digest list \<times> public_key \<Rightarrow> (unit, header_waiter_action, dag_error, unit) op" where
  "helper_step nd d = (\<lambda>(digests, origin).
     case primary_of (nd_committee nd) origin of
       Inl _ \<Rightarrow> op_return ()
     | Inr a \<Rightarrow> helper_replies nd d (primary_to_primary a) digests)"

section \<open>Payload receiver\<close>

definition payload_receiver_step :: "'db node \<Rightarrow> digest \<times> worker_id \<Rightarrow> 'db \<Rightarrow> 'db" where
  "payload_receiver_step nd = (\<lambda>(x, wid) d. db_put (nd_rocksdb nd) d (payload_key x wid) [])"

definition payload_receiver_run :: "'db node \<Rightarrow> (digest \<times> worker_id) list \<Rightarrow> 'db \<Rightarrow> 'db" where
  "payload_receiver_run nd = fold (payload_receiver_step nd)"

section \<open>Properties\<close>

definition highest_round :: "certificate list \<Rightarrow> round" where
  "highest_round xs = fold (\<lambda>x r. max (cert_round x) r) xs 0"

definition cleanups :: "'db node \<Rightarrow> garbage_collector \<Rightarrow> round list \<Rightarrow> gc_action list" where
  "cleanups nd s rs = map (\<lambda>r. BroadcastCleanup (gc_addresses s) (ser_worker_message (nd_codec nd) (Cleanup r))) rs"

lemma garbage_collector_run:
  assumes "gc_consensus_round s = gc_last_committed s"
  shows "\<exists>rs. concat (snd (run_steps (garbage_collector_step nd) xs s)) = cleanups nd s rs \<and>
    sorted_wrt (<) rs \<and> (\<forall>r \<in> set rs. gc_last_committed s < r) \<and> set rs \<subseteq> cert_round ` set xs \<and>
    gc_consensus_round (fst (run_steps (garbage_collector_step nd) xs s)) =
      fold (\<lambda>x r. max (cert_round x) r) xs (gc_last_committed s) \<and>
    gc_consensus_round (fst (run_steps (garbage_collector_step nd) xs s)) = last (gc_last_committed s # rs)"
  using assms
proof (induction xs arbitrary: s)
  case Nil
  then show ?case by (intro exI [of _ "[]"]) (simp add: cleanups_def)
next
  case (Cons x xs)
  show ?case
  proof (cases "gc_last_committed s < cert_round x")
    case True
    let ?s = "s\<lparr>gc_last_committed := cert_round x, gc_consensus_round := cert_round x\<rparr>"
    have step: "garbage_collector_step nd x s = (?s, cleanups nd s [cert_round x])"
      using True by (simp add: garbage_collector_step_def cleanups_def Let_def)
    obtain rs where rs: "concat (snd (run_steps (garbage_collector_step nd) xs ?s)) = cleanups nd ?s rs"
      "sorted_wrt (<) rs" "\<forall>r \<in> set rs. cert_round x < r" "set rs \<subseteq> cert_round ` set xs"
      "gc_consensus_round (fst (run_steps (garbage_collector_step nd) xs ?s)) =
         fold (\<lambda>x r. max (cert_round x) r) xs (cert_round x)"
      "gc_consensus_round (fst (run_steps (garbage_collector_step nd) xs ?s)) = last (cert_round x # rs)"
      using Cons.IH [of ?s] by auto
    have "max (cert_round x) (gc_last_committed s) = cert_round x" using True by simp
    then show ?thesis
      using rs step True by (intro exI [of _ "cert_round x # rs"]) (auto simp: cleanups_def simp del: run_steps.simps)
  next
    case False
    have step: "garbage_collector_step nd x s = (s, [])" using False by (simp add: garbage_collector_step_def Let_def)
    have "max (cert_round x) (gc_last_committed s) = gc_last_committed s" using False by simp
    moreover obtain rs where rs: "concat (snd (run_steps (garbage_collector_step nd) xs s)) = cleanups nd s rs"
      "sorted_wrt (<) rs" "\<forall>r \<in> set rs. gc_last_committed s < r" "set rs \<subseteq> cert_round ` set xs"
      "gc_consensus_round (fst (run_steps (garbage_collector_step nd) xs s)) =
         fold (\<lambda>x r. max (cert_round x) r) xs (gc_last_committed s)"
      "gc_consensus_round (fst (run_steps (garbage_collector_step nd) xs s)) = last (gc_last_committed s # rs)"
      using Cons.IH [OF Cons.prems] by blast
    ultimately show ?thesis
      using step by (intro exI [of _ rs]) (auto simp del: run_steps.simps)
  qed
qed

text \<open>
  The consensus round the tasks of a primary load is the highest round among the certificates that
  consensus has ordered, so it never decreases, and the workers are told to clean up exactly at its
  increases, the last of them the current one.
\<close>

theorem consensus_round_is_highest:
  assumes "garbage_collector_spawn nd = Ok s" and "run_steps (garbage_collector_step nd) xs s = (s', out)"
  shows "gc_consensus_round s' = highest_round xs \<and>
    (\<exists>rs. concat out = cleanups nd s rs \<and> sorted_wrt (<) rs \<and> set rs \<subseteq> cert_round ` set xs \<and>
       gc_consensus_round s' = last (0 # rs))"
proof -
  have s: "gc_last_committed s = 0" "gc_consensus_round s = 0"
    using assms(1) by (auto simp: garbage_collector_spawn_def split: sum.splits)
  then show ?thesis
    using garbage_collector_run [of s nd xs] assms(2) by (simp add: highest_round_def del: last.simps) blast
qed

theorem consensus_round_is_highest_witness:
  "\<exists>s s' out. garbage_collector_spawn ex_node = Ok s \<and>
     run_steps (garbage_collector_step ex_node) [ex_certificate [], ex_certificate []] s = (s', out) \<and>
     gc_consensus_round s' = 1"
proof -
  obtain s where s: "garbage_collector_spawn ex_node = Ok s"
    by (simp add: garbage_collector_spawn_def our_workers_def ex_committee_def)
  obtain s' out where run: "run_steps (garbage_collector_step ex_node) [ex_certificate [], ex_certificate []] s = (s', out)"
    by (cases "run_steps (garbage_collector_step ex_node) [ex_certificate [], ex_certificate []] s")
  have "highest_round [ex_certificate [], ex_certificate []] = 1"
    by (simp add: highest_round_def cert_round_def ex_certificate_def ex_header_def)
  with consensus_round_is_highest [OF s run] s run show ?thesis by auto
qed

text \<open>
  Batches that our workers report are no longer missing: once the payload receiver has taken the
  digest and worker of every batch of a header, the synchronizer does not suspend the header for them,
  whatever else was received.
\<close>

theorem received_payload_not_missing:
  assumes "rocksdb_ok (nd_rocksdb nd)" and "set (h_payload h) \<subseteq> set pairs"
  shows "missing_payload nd (payload_receiver_run nd pairs d) h = (Ok False, [])"
proof -
  have "payload_receiver_run nd pairs d = database.write_list (nd_rocksdb nd) (map (\<lambda>(x, wid). (payload_key x wid, [])) pairs) d"
    by (induction pairs arbitrary: d)
      (auto simp: payload_receiver_run_def payload_receiver_step_def database.write_list_def)
  then have "has_key nd (payload_receiver_run nd pairs d) (payload_key x wid)" if "(x, wid) \<in> set pairs" for x wid
    using that database.read_write_list [OF assms(1)]
    by (force simp: has_key_def map_of_eq_None_iff split: option.split)
  then have "filter (\<lambda>(x, wid). \<not> has_key nd (payload_receiver_run nd pairs d) (payload_key x wid)) (h_payload h) = []"
    using assms(2) by (auto simp: filter_empty_conv)
  then show ?thesis by (simp add: missing_payload_def missing_batches_ok [OF assms(1)])
qed

theorem received_payload_not_missing_witness:
  "missing_payload ex_node (payload_receiver_run ex_node [(Digest 5, 0), (Digest 6, 1)] [])
     (ex_header\<lparr>h_author := PublicKey 2, h_payload := [(Digest 6, 1)]\<rparr>) = (Ok False, [])"
  by (rule received_payload_not_missing) simp_all

lemma helper_replies_run:
  assumes "rocksdb_ok (nd_rocksdb nd)"
    and "\<And>x bs. x \<in> set digests \<Longrightarrow> stored (nd_rocksdb nd) d (digest_to_vec x) = Some bs \<Longrightarrow>
      de_certificate (nd_codec nd) bs \<noteq> None"
  shows "helper_replies nd d address digests u =
    (Ok (), u, map (\<lambda>bs. SendSync address (ser_primary_message (nd_codec nd)
        (CertificateMsg (the (de_certificate (nd_codec nd) bs)))))
      (List.map_filter (\<lambda>x. stored (nd_rocksdb nd) d (digest_to_vec x)) digests))"
  using assms(2)
proof (induction digests)
  case Nil
  then show ?case by (simp add: List.map_filter_def)
next
  case (Cons x digests)
  have IH: "helper_replies nd d address digests u =
    (Ok (), u, map (\<lambda>bs. SendSync address (ser_primary_message (nd_codec nd)
        (CertificateMsg (the (de_certificate (nd_codec nd) bs)))))
      (List.map_filter (\<lambda>x. stored (nd_rocksdb nd) d (digest_to_vec x)) digests))"
    by (rule Cons.IH) (use Cons.prems in auto)
  show ?case
  proof (cases "stored (nd_rocksdb nd) d (digest_to_vec x)")
    case None
    then show ?thesis using IH by (simp add: get_stored [OF assms(1)] List.map_filter_simps)
  next
    case (Some bs)
    with Cons.prems obtain c where "de_certificate (nd_codec nd) bs = Some c" by fastforce
    with Some show ?thesis
      using IH by (simp add: get_stored [OF assms(1)] List.map_filter_simps op_then_def op_bind_def)
  qed
qed

text \<open>
  The helper answers a member of the committee with exactly the certificates it has among those
  asked for, in the order asked, and nobody else, provided that the keys asked for hold certificates.
\<close>

theorem helper_answers:
  assumes "rocksdb_ok (nd_rocksdb nd)"
    and "\<And>x bs. x \<in> set digests \<Longrightarrow> stored (nd_rocksdb nd) d (digest_to_vec x) = Some bs \<Longrightarrow>
      de_certificate (nd_codec nd) bs \<noteq> None"
  shows "helper_step nd d (digests, origin) u =
    (Ok (), u, case primary_of (nd_committee nd) origin of
       Inl _ \<Rightarrow> []
     | Inr a \<Rightarrow> map (\<lambda>bs. SendSync (primary_to_primary a) (ser_primary_message (nd_codec nd)
          (CertificateMsg (the (de_certificate (nd_codec nd) bs)))))
        (List.map_filter (\<lambda>x. stored (nd_rocksdb nd) d (digest_to_vec x)) digests))"
  by (cases "primary_of (nd_committee nd) origin") (simp_all add: helper_step_def helper_replies_run [OF assms])

theorem helper_answers_witness:
  "helper_step ex_node [] ([Digest 5], PublicKey 2) () = (Ok (), (), [])"
proof -
  have none: "stored ex_rocksdb [] k = None" for k by (simp add: stored_def ex_rocksdb_def)
  show ?thesis
    using helper_answers [of ex_node "[Digest 5]" "[]" "PublicKey 2" "()"]
    by (simp add: none primary_of_def ex_committee_def List.map_filter_simps)
qed

text \<open>
  A member of the committee can stop the helper: the core task stores headers under their ids, in the
  same key space as the certificates, and asking for the id of a stored header panics, because the bytes
  of a header are not those of a certificate.
\<close>

theorem helper_panics_on_header_id:
  assumes "rocksdb_ok (nd_rocksdb nd)" and "primary_of (nd_committee nd) origin = Ok a"
    and "de_certificate (nd_codec nd) (ser_header (nd_codec nd) h) = None"
  shows "helper_step nd (db_put (nd_rocksdb nd) d (digest_to_vec (h_id h)) (ser_header (nd_codec nd) h))
    ([h_id h], origin) u = (Panicked, u, [])"
  using assms(2,3)
  by (simp add: helper_step_def get_stored [OF assms(1)] database.read_write [OF assms(1)])

theorem helper_panics_on_header_id_witness:
  "helper_step ex_node (db_put ex_rocksdb [] (digest_to_vec (h_id ex_header)) [0]) ([h_id ex_header], PublicKey 2) () =
     (Panicked, (), [])"
  using helper_panics_on_header_id [of ex_node "PublicKey 2" _ ex_header "[]" "()"]
  by (simp add: ex_bincode_def primary_of_def ex_committee_def)

section \<open>Suspended certificates\<close>

definition suspended :: "('db \<times> certificate_waiter_event) list \<Rightarrow> certificate list" where
  "suspended events = concat (map (\<lambda>(_, ev). case ev of SuspendCertificate x \<Rightarrow> [x] | _ \<Rightarrow> []) events)"

definition waits_for_parents :: "certificate_waiter \<Rightarrow> bool" where
  "waits_for_parents s \<longleftrightarrow> (\<forall>(x, keys) \<in> set (cw_waiting s). keys = map digest_to_vec (h_parents (c_header x)))"

lemma mset_take_drop:
  "i < length xs \<Longrightarrow> mset xs = mset (take i xs @ drop (Suc i) xs) + {#xs ! i#}"
  using arg_cong [OF id_take_nth_drop [of i xs], of mset] by simp

lemma certificate_next_cases:
  assumes "certificate_waiter_step nd (d, CertificateNext i) s = (r, s', out)"
  obtains "s' = s" "out = []"
  | x keys where "i < length (cw_waiting s)" "cw_waiting s ! i = (x, keys)" "join_all nd d keys = Ok True" "out = [x]"
      "cw_waiting s' = take i (cw_waiting s) @ drop (Suc i) (cw_waiting s)" "r = Ok ()"
proof (cases "length (cw_waiting s) \<le> i \<or> certificate_future nd d (cw_waiting s ! i) = None")
  case True
  then have "s' = s" "out = []" using assms by (auto simp: op_bind_def split: if_splits)
  then show thesis using that(1) by blast
next
  case False
  then obtain fut where fut: "certificate_future nd d (cw_waiting s ! i) = Some fut" by auto
  show thesis
  proof (cases fut)
    case (Inl f)
    then have "s' = s" "out = []" using assms False fut by (auto simp: op_bind_def)
    then show thesis using that(1) by blast
  next
    case (Inr y)
    obtain x keys where w: "cw_waiting s ! i = (x, keys)" by (cases "cw_waiting s ! i")
    have "y = x" "join_all nd d keys = Ok True"
      using fut Inr by (auto simp: certificate_future_def w split: sum.splits if_splits)
    then show thesis
      using that(2) [of x keys] assms False fut Inr w by (auto simp: op_bind_def op_then_def)
  qed
qed

lemma certificate_waiter_step_conserves:
  assumes "certificate_waiter_step nd e s = (Ok (), s', out)" and "waits_for_parents s"
  shows "mset (map fst (cw_waiting s')) + mset out = mset (map fst (cw_waiting s)) + mset (suspended [e]) \<and>
    waits_for_parents s'"
proof -
  obtain d ev where e: "e = (d, ev)" by (cases e)
  show ?thesis
  proof (cases ev)
    case (SuspendCertificate x)
    then show ?thesis using assms e by (auto simp: suspended_def waits_for_parents_def)
  next
    case (CertificateNext i)
    have "certificate_waiter_step nd (d, CertificateNext i) s = (Ok (), s', out)" using assms(1) e CertificateNext by simp
    then show ?thesis
    proof (cases rule: certificate_next_cases)
      case 1
      then show ?thesis using assms(2) e CertificateNext by (simp add: suspended_def)
    next
      case (2 x keys)
      have "mset (map fst (cw_waiting s)) = mset (map fst (cw_waiting s')) + {#x#}"
        using arg_cong [OF mset_take_drop [OF 2(1)], of "image_mset fst"] 2(2,5) by simp
      moreover have "waits_for_parents s'"
        using assms(2) 2(5) by (auto simp: waits_for_parents_def dest!: in_set_takeD in_set_dropD)
      ultimately show ?thesis using 2(4) e CertificateNext by (simp add: suspended_def)
    qed
  qed
qed

lemma certificate_waiter_run_conserves:
  assumes "certificate_waiter_run nd events s = (Ok (), s', out)" and "waits_for_parents s"
  shows "mset (map fst (cw_waiting s')) + mset out = mset (map fst (cw_waiting s)) + mset (suspended events) \<and>
    waits_for_parents s'"
  using assms
proof (induction events arbitrary: s out)
  case Nil
  then show ?case by (simp add: certificate_waiter_run_def suspended_def)
next
  case (Cons e events)
  obtain t out1 out2 where 1: "certificate_waiter_step nd e s = (Ok (), t, out1)"
    and 2: "certificate_waiter_run nd events t = (Ok (), s', out2)" and out: "out = out1 @ out2"
    using Cons.prems(1)
    by (auto simp: certificate_waiter_run_def op_then_def op_bind_def split: prod.splits sum.splits)
  have "suspended (e # events) = suspended [e] @ suspended events" by (simp add: suspended_def)
  then show ?case
    using certificate_waiter_step_conserves [OF 1 Cons.prems(2)] Cons.IH [OF 2] out by (simp add: ac_simps)
qed

text \<open>
  C25: The certificate waiter neither loses nor duplicates certificates: after any run, those suspended are
  those handed back and those still waiting; and when it hands a certificate back, the synchronizer finds
  all its ancestors, so the core task delivers it and does not suspend it again.
\<close>

theorem certificate_waiter_conserves:
  assumes "rocksdb_ok (nd_rocksdb nd)"
    and "certificate_waiter_run nd events certificate_waiter_new = (Ok (), s, out)"
  shows "mset (map fst (cw_waiting s)) + mset out = mset (suspended events) \<and>
    (\<forall>d ev r s' x. certificate_waiter_step nd (d, ev) s = (r, s', [x]) \<longrightarrow> deliver_certificate nd d x = (Ok True, []))"
proof -
  have "waits_for_parents certificate_waiter_new" by (simp add: waits_for_parents_def certificate_waiter_new_def)
  from certificate_waiter_run_conserves [OF assms(2) this]
  have all: "mset (map fst (cw_waiting s)) + mset out = mset (suspended events)" and inv: "waits_for_parents s"
    by (auto simp: certificate_waiter_new_def)
  have "deliver_certificate nd d x = (Ok True, [])"
    if step: "certificate_waiter_step nd (d, ev) s = (r, s', [x])" for d ev r s' x
  proof -
    obtain i where "ev = CertificateNext i" using step by (cases ev) auto
    with step have "certificate_waiter_step nd (d, CertificateNext i) s = (r, s', [x])" by simp
    then obtain keys where "i < length (cw_waiting s)" "cw_waiting s ! i = (x, keys)" "join_all nd d keys = Ok True"
      by (cases rule: certificate_next_cases) auto
    moreover from this have "keys = map digest_to_vec (h_parents (c_header x))"
      using inv nth_mem [of i "cw_waiting s"] by (auto simp: waits_for_parents_def)
    ultimately show ?thesis
      by (auto simp: deliver_certificate_def ancestors_present_ok [OF assms(1)] join_all_ok [OF assms(1)])
  qed
  with all show ?thesis by blast
qed

theorem certificate_waiter_conserves_witness:
  "\<exists>s out. certificate_waiter_run ex_node [([], SuspendCertificate (ex_certificate [])), ([], CertificateNext 0)]
      certificate_waiter_new = (Ok (), s, out) \<and>
    mset (map fst (cw_waiting s)) + mset out = {#ex_certificate []#}"
proof -
  let ?events = "[([], SuspendCertificate (ex_certificate [])), ([], CertificateNext 0)]"
  have "\<exists>s out. certificate_waiter_run ex_node ?events certificate_waiter_new = (Ok (), s, out)"
    by (simp add: certificate_waiter_run_def op_then_def op_bind_def certificate_waiter_new_def
        certificate_future_def join_all_ok cong: op_congs split: sum.split option.split)
  then obtain s out where run: "certificate_waiter_run ex_node ?events certificate_waiter_new = (Ok (), s, out)" by blast
  have "suspended ?events = [ex_certificate []]" by (simp add: suspended_def)
  with certificate_waiter_conserves [OF _ run] run show ?thesis by simp
qed

end
