(* ===== verification/Primary.thy ===== *)
theory Primary
  imports CoreVotes Proposer PrimaryTasks
begin

text \<open>
  A whole primary (\<open>Primary::spawn\<close> of \<open>primary/src/primary.rs\<close>): its tasks, the channels between them, the
  store they share and the counter of the garbage collector. One step lets one task take one event;
  any interleaving of the tasks is a list of events. The channels are unbounded queues, and a task runs
  from one event to the next without interruption.
\<close>

section \<open>Tasks and channels\<close>

text \<open>The shared store is the one in the state of the core task.\<close>

record 'db primary =
  pr_core :: "'db core"
  pr_proposer :: proposer
  pr_header_waiter :: header_waiter
  pr_certificate_waiter :: certificate_waiter
  pr_garbage_collector :: garbage_collector
  rx_primary_messages :: "primary_message list"
  rx_cert_requests :: "(digest list \<times> public_key) list"
  rx_our_digests :: "(digest \<times> worker_id) list"
  rx_others_digests :: "(digest \<times> worker_id) list"
  rx_parents :: "(digest list \<times> round) list"
  rx_headers :: "header list"
  rx_sync_headers :: "waiter_message list"
  rx_sync_certificates :: "certificate list"
  rx_headers_loopback :: "header list"
  rx_certificates_loopback :: "certificate list"
  rx_consensus :: "certificate list"
  pr_primary_address :: socket_addr
  pr_worker_address :: socket_addr

datatype primary_output =
  CoreAction core_action
| ProposerAction proposer_action
| WaiterAction header_waiter_action
| GcAction gc_action
| HelperAction header_waiter_action
| AckSent bytes

type_synonym 'db primary_op = "('db primary, primary_output, dag_error, unit) op"

definition primary_spawn ::
  "'db node \<Rightarrow> parameters \<Rightarrow> environment \<Rightarrow> 'db \<Rightarrow> (dag_error, 'db primary \<times> primary_output list) result" where
  "primary_spawn nd params env d =
     (case primary_of (nd_committee nd) (nd_name nd) of
        Inl _ \<Rightarrow> Panicked
      | Inr a \<Rightarrow>
          and_then (garbage_collector_spawn nd) (\<lambda>gc.
          and_then (proposer_spawn nd env (header_size params)) (\<lambda>pr.
          case enter_round nd (p_round pr) pr of (_, pr', out) \<Rightarrow>
            Ok (\<lparr>pr_core = core_new d, pr_proposer = pr', pr_header_waiter = header_waiter_new,
                 pr_certificate_waiter = certificate_waiter_new, pr_garbage_collector = gc,
                 rx_primary_messages = [], rx_cert_requests = [], rx_our_digests = [], rx_others_digests = [],
                 rx_parents = [], rx_headers = [], rx_sync_headers = [], rx_sync_certificates = [],
                 rx_headers_loopback = [], rx_certificates_loopback = [], rx_consensus = [],
                 pr_primary_address = listen_on (primary_to_primary a),
                 pr_worker_address = listen_on (worker_to_primary a)\<rparr>, map ProposerAction out))))"

section \<open>Delivery\<close>

text \<open>What the output of a task puts into the channels of the others.\<close>

fun deliver_core :: "core_action \<Rightarrow> 'db primary \<Rightarrow> 'db primary" where
  "deliver_core (SyncHeader m) p = p\<lparr>rx_sync_headers := rx_sync_headers p @ [m]\<rparr>"
| "deliver_core (SyncCertificate x) p = p\<lparr>rx_sync_certificates := rx_sync_certificates p @ [x]\<rparr>"
| "deliver_core (ToProposer parents r) p = p\<lparr>rx_parents := rx_parents p @ [(parents, r)]\<rparr>"
| "deliver_core _ p = p"

fun deliver_proposer :: "proposer_action \<Rightarrow> 'db primary \<Rightarrow> 'db primary" where
  "deliver_proposer (NewHeader h) p = p\<lparr>rx_headers := rx_headers p @ [h]\<rparr>"
| "deliver_proposer _ p = p"

fun deliver_waiter :: "header_waiter_action \<Rightarrow> 'db primary \<Rightarrow> 'db primary" where
  "deliver_waiter (LoopbackHeader h) p = p\<lparr>rx_headers_loopback := rx_headers_loopback p @ [h]\<rparr>"
| "deliver_waiter _ p = p"

fun deliver_network :: "primary_delivery \<Rightarrow> 'db primary \<Rightarrow> 'db primary" where
  "deliver_network (ToHelper missing requestor) p = p\<lparr>rx_cert_requests := rx_cert_requests p @ [(missing, requestor)]\<rparr>"
| "deliver_network (ToCore m) p = p\<lparr>rx_primary_messages := rx_primary_messages p @ [m]\<rparr>"
| "deliver_network (ToProposerDigest x wid) p = p\<lparr>rx_our_digests := rx_our_digests p @ [(x, wid)]\<rparr>"
| "deliver_network (ToPayloadReceiver x wid) p = p\<lparr>rx_others_digests := rx_others_digests p @ [(x, wid)]\<rparr>"
| "deliver_network (Ack _) p = p"

definition acks_sent :: "primary_delivery list \<Rightarrow> primary_output list" where
  "acks_sent deliveries = concat (map (\<lambda>a. case a of Ack bs \<Rightarrow> [AckSent bs] | _ \<Rightarrow> []) deliveries)"

section \<open>Steps of the tasks\<close>

abbreviation consensus_round :: "'db primary \<Rightarrow> round" where
  "consensus_round p \<equiv> gc_consensus_round (pr_garbage_collector p)"

definition core_task :: "'db node \<Rightarrow> core_event \<Rightarrow> 'db primary_op" where
  "core_task nd ev p =
     (case core_step nd ev (consensus_round p) (pr_core p) of (r, s, out) \<Rightarrow>
        (r, fold deliver_core out (p\<lparr>pr_core := s\<rparr>), map CoreAction out))"

definition proposer_task :: "'db node \<Rightarrow> bool \<times> proposer_event \<Rightarrow> 'db primary_op" where
  "proposer_task nd ev p =
     (case proposer_step nd ev (pr_proposer p) of (r, s, out) \<Rightarrow>
        (r, fold deliver_proposer out (p\<lparr>pr_proposer := s\<rparr>), map ProposerAction out))"

definition header_waiter_task :: "'db node \<Rightarrow> parameters \<Rightarrow> millis \<Rightarrow> header_waiter_event \<Rightarrow> 'db primary_op" where
  "header_waiter_task nd params now ev p =
     (case header_waiter_step nd params (k_db (pr_core p), now, ev, consensus_round p) (pr_header_waiter p) of (r, s, out) \<Rightarrow>
        (r, fold deliver_waiter out (p\<lparr>pr_header_waiter := s\<rparr>), map WaiterAction out))"

definition certificate_waiter_task :: "'db node \<Rightarrow> certificate_waiter_event \<Rightarrow> 'db primary_op" where
  "certificate_waiter_task nd ev p =
     (case certificate_waiter_step nd (k_db (pr_core p), ev) (pr_certificate_waiter p) of (r, s, out) \<Rightarrow>
        (r, p\<lparr>pr_certificate_waiter := s, rx_certificates_loopback := rx_certificates_loopback p @ out\<rparr>, []))"

definition gc_task :: "'db node \<Rightarrow> certificate \<Rightarrow> 'db primary_op" where
  "gc_task nd x p =
     (case garbage_collector_step nd x (pr_garbage_collector p) of (s, out) \<Rightarrow>
        (Ok (), p\<lparr>pr_garbage_collector := s\<rparr>, map GcAction out))"

definition payload_task :: "'db node \<Rightarrow> digest \<times> worker_id \<Rightarrow> 'db primary_op" where
  "payload_task nd pair p =
     (Ok (), p\<lparr>pr_core := (pr_core p)\<lparr>k_db := payload_receiver_step nd pair (k_db (pr_core p))\<rparr>\<rparr>, [])"

definition helper_task :: "'db node \<Rightarrow> digest list \<times> public_key \<Rightarrow> 'db primary_op" where
  "helper_task nd request p =
     (case helper_step nd (k_db (pr_core p)) request () of (r, _, out) \<Rightarrow> (r, p, map HelperAction out))"

definition network_task :: "primary_delivery list \<times> (dag_error, unit) result \<Rightarrow> 'db primary_op" where
  "network_task = (\<lambda>(deliveries, _) p. (Ok (), fold deliver_network deliveries p, acks_sent deliveries))"

datatype primary_event =
  PrimaryFrame bytes
| WorkerFrame bytes
| ConsensusOrdered certificate
| CoreMessage
| CoreHeaderLoopback
| CoreCertificateLoopback
| CoreOwnHeader
| ProposerParents bool
| ProposerDigest bool
| ProposerTimer bool
| WaiterRequest millis
| WaiterNext millis nat bool
| WaiterTimer millis
| CertificateSuspend
| CertificateReady nat
| CollectGarbage
| ReceivePayload
| HelpRequest

fun primary_step :: "'db node \<Rightarrow> parameters \<Rightarrow> primary_event \<Rightarrow> 'db primary_op" where
  "primary_step nd params (PrimaryFrame bs) = network_task (dispatch_primary (nd_codec nd) bs)"
| "primary_step nd params (WorkerFrame bs) = network_task (dispatch_worker (nd_codec nd) bs)"
| "primary_step nd params (ConsensusOrdered x) = op_modify (\<lambda>p. p\<lparr>rx_consensus := rx_consensus p @ [x]\<rparr>)"
| "primary_step nd params CoreMessage =
     receive rx_primary_messages (\<lambda>q. rx_primary_messages_update (\<lambda>_. q)) (\<lambda>m. core_task nd (FromPrimary m))"
| "primary_step nd params CoreHeaderLoopback =
     receive rx_headers_loopback (\<lambda>q. rx_headers_loopback_update (\<lambda>_. q)) (\<lambda>h. core_task nd (HeaderLoopback h))"
| "primary_step nd params CoreCertificateLoopback =
     receive rx_certificates_loopback (\<lambda>q. rx_certificates_loopback_update (\<lambda>_. q)) (\<lambda>x. core_task nd (CertificateLoopback x))"
| "primary_step nd params CoreOwnHeader =
     receive rx_headers (\<lambda>q. rx_headers_update (\<lambda>_. q)) (\<lambda>h. core_task nd (FromProposer h))"
| "primary_step nd params (ProposerParents expired) =
     receive rx_parents (\<lambda>q. rx_parents_update (\<lambda>_. q)) (\<lambda>(parents, r). proposer_task nd (expired, FromCore parents r))"
| "primary_step nd params (ProposerDigest expired) =
     receive rx_our_digests (\<lambda>q. rx_our_digests_update (\<lambda>_. q)) (\<lambda>(x, wid). proposer_task nd (expired, FromWorkers x wid))"
| "primary_step nd params (ProposerTimer expired) = proposer_task nd (expired, TimerFired)"
| "primary_step nd params (WaiterRequest now) =
     receive rx_sync_headers (\<lambda>q. rx_sync_headers_update (\<lambda>_. q)) (\<lambda>m. header_waiter_task nd params now (SyncRequest m))"
| "primary_step nd params (WaiterNext now i first) = header_waiter_task nd params now (WaitingNext i first)"
| "primary_step nd params (WaiterTimer now) = header_waiter_task nd params now RetryTimer"
| "primary_step nd params CertificateSuspend =
     receive rx_sync_certificates (\<lambda>q. rx_sync_certificates_update (\<lambda>_. q)) (\<lambda>x. certificate_waiter_task nd (SuspendCertificate x))"
| "primary_step nd params (CertificateReady i) = certificate_waiter_task nd (CertificateNext i)"
| "primary_step nd params CollectGarbage = receive rx_consensus (\<lambda>q. rx_consensus_update (\<lambda>_. q)) (gc_task nd)"
| "primary_step nd params ReceivePayload = receive rx_others_digests (\<lambda>q. rx_others_digests_update (\<lambda>_. q)) (payload_task nd)"
| "primary_step nd params HelpRequest = receive rx_cert_requests (\<lambda>q. rx_cert_requests_update (\<lambda>_. q)) (helper_task nd)"

definition primary_run :: "'db node \<Rightarrow> parameters \<Rightarrow> primary_event list \<Rightarrow> 'db primary_op" where
  "primary_run nd params events = op_for events (primary_step nd params)"

section \<open>From the core task to the primary\<close>

definition core_actions :: "primary_output list \<Rightarrow> core_action list" where
  "core_actions out = concat (map (\<lambda>a. case a of CoreAction c \<Rightarrow> [c] | _ \<Rightarrow> []) out)"

lemma core_actions_simps [simp]:
  "core_actions [] = []" "core_actions (out1 @ out2) = core_actions out1 @ core_actions out2"
  "core_actions (map CoreAction acts) = acts" "core_actions (map ProposerAction pacts) = []"
  "core_actions (map WaiterAction wacts) = []" "core_actions (map GcAction gacts) = []"
  "core_actions (map HelperAction wacts) = []" "core_actions (acks_sent deliveries) = []"
  by (induction acts) (auto simp: core_actions_def acks_sent_def concat_eq_Nil_conv split: primary_delivery.splits)

lemma fold_frame: "(\<And>a p. f (g a p) = f p) \<Longrightarrow> f (fold g acts p) = f p"
  by (induction acts arbitrary: p) auto

lemma deliver_core_same:
  "pr_core (deliver_core a p) = pr_core p" "pr_garbage_collector (deliver_core a p) = pr_garbage_collector p"
  "rx_primary_messages (deliver_core a p) = rx_primary_messages p"
  by (cases a; simp)+

lemma deliver_proposer_same:
  "pr_core (deliver_proposer a p) = pr_core p" "pr_garbage_collector (deliver_proposer a p) = pr_garbage_collector p"
  "rx_primary_messages (deliver_proposer a p) = rx_primary_messages p"
  by (cases a; simp)+

lemma deliver_waiter_same:
  "pr_core (deliver_waiter a p) = pr_core p" "pr_garbage_collector (deliver_waiter a p) = pr_garbage_collector p"
  "rx_primary_messages (deliver_waiter a p) = rx_primary_messages p"
  by (cases a; simp)+

lemma deliver_network_same:
  "pr_core (deliver_network a p) = pr_core p" "pr_garbage_collector (deliver_network a p) = pr_garbage_collector p"
  by (cases a; simp)+

lemmas core_frame = fold_frame [where f = pr_core] fold_frame [where f = pr_garbage_collector]
  fold_frame [where f = rx_primary_messages]

lemma deliver_frame [simp]:
  "pr_core (fold deliver_core cs p) = pr_core p" "pr_garbage_collector (fold deliver_core cs p) = pr_garbage_collector p"
  "rx_primary_messages (fold deliver_core cs p) = rx_primary_messages p"
  "pr_core (fold deliver_proposer ps p) = pr_core p" "pr_garbage_collector (fold deliver_proposer ps p) = pr_garbage_collector p"
  "rx_primary_messages (fold deliver_proposer ps p) = rx_primary_messages p"
  "pr_core (fold deliver_waiter ws p) = pr_core p" "pr_garbage_collector (fold deliver_waiter ws p) = pr_garbage_collector p"
  "rx_primary_messages (fold deliver_waiter ws p) = rx_primary_messages p"
  "pr_core (fold deliver_network ns p) = pr_core p" "pr_garbage_collector (fold deliver_network ns p) = pr_garbage_collector p"
  by (rule core_frame, simp add: deliver_core_same deliver_proposer_same deliver_waiter_same deliver_network_same)+

text \<open>
  A relation on the core task that each of its steps keeps for counters up to \<open>bound\<close>, and that writes of
  the payload receiver keep, holds of every run of the primary that does not raise the counter beyond
  \<open>bound\<close>: no other task changes the state of the core, and the counter only rises.
\<close>

locale primary_relation = transition rel
  for rel :: "'db core \<Rightarrow> 'db core \<Rightarrow> core_action list \<Rightarrow> bool" +
  fixes nd :: "'db node" and bound :: round
  assumes rel_core: "loaded \<le> bound \<Longrightarrow> moves (core_step nd ev loaded)"
    and rel_payload: "rel s (s\<lparr>k_db := payload_receiver_step nd pair (k_db s)\<rparr>) []"
begin

definition lifted :: "'db primary \<Rightarrow> 'db primary \<Rightarrow> primary_output list \<Rightarrow> bool" where
  "lifted p p' out \<longleftrightarrow>
     (consensus_round p = gc_last_committed (pr_garbage_collector p) \<longrightarrow>
        consensus_round p' = gc_last_committed (pr_garbage_collector p') \<and> consensus_round p \<le> consensus_round p' \<and>
        (consensus_round p' \<le> bound \<longrightarrow> rel (pr_core p) (pr_core p') (core_actions out)))"

lemma lifted_trans: "lifted p q out1 \<Longrightarrow> lifted q r out2 \<Longrightarrow> lifted p r (out1 @ out2)"
  unfolding lifted_def by (auto intro: rel_trans order_trans)

lemma lifted_same:
  "pr_core p' = pr_core p \<Longrightarrow> pr_garbage_collector p' = pr_garbage_collector p \<Longrightarrow> core_actions out = [] \<Longrightarrow> lifted p p' out"
  by (simp add: lifted_def rel_refl)

lemma lifted_core:
  assumes "core_task nd ev p = (r, p', out)"
  shows "lifted p p' out"
proof -
  obtain s acts where step: "core_step nd ev (consensus_round p) (pr_core p) = (r, s, acts)"
    and p': "p' = fold deliver_core acts (p\<lparr>pr_core := s\<rparr>)" and out: "out = map CoreAction acts"
    using assms by (auto simp: core_task_def split: prod.splits)
  show ?thesis
    unfolding lifted_def p' out by (auto intro: movesD [OF rel_core step])
qed

lemma lifted_receive:
  assumes run: "receive channel set_channel handle p = (r, p', out)"
    and handle: "\<And>m q r q' out. handle m q = (r, q', out) \<Longrightarrow> lifted q q' out"
    and frame: "\<And>rest q. pr_core (set_channel rest q) = pr_core q"
      "\<And>rest q. pr_garbage_collector (set_channel rest q) = pr_garbage_collector q"
  shows "lifted p p' out"
proof (cases "channel p")
  case Nil
  then show ?thesis using run by (auto simp: receive_def intro: lifted_same)
next
  case (Cons m rest)
  then have "handle m (set_channel rest p) = (r, p', out)" using run by (simp add: receive_def)
  from lifted_trans [OF lifted_same handle [OF this], of p "[]"] show ?thesis by (simp add: frame)
qed

lemma lifted_others:
  "proposer_task nd e p = (r, p', out) \<Longrightarrow> lifted p p' out"
  "header_waiter_task nd params now hev p = (r, p', out) \<Longrightarrow> lifted p p' out"
  "certificate_waiter_task nd cev p = (r, p', out) \<Longrightarrow> lifted p p' out"
  "helper_task nd req p = (r, p', out) \<Longrightarrow> lifted p p' out"
  "network_task deliveries p = (r, p', out) \<Longrightarrow> lifted p p' out"
  by (auto simp: proposer_task_def header_waiter_task_def certificate_waiter_task_def helper_task_def network_task_def
      split: prod.splits intro!: lifted_same)

lemma lifted_gc: "gc_task nd x p = (r, p', out) \<Longrightarrow> lifted p p' out"
  by (auto simp: gc_task_def garbage_collector_step_def Let_def lifted_def rel_refl core_actions_def split: if_splits)

lemma lifted_payload: "payload_task nd pair p = (r, p', out) \<Longrightarrow> lifted p p' out"
  by (auto simp: payload_task_def lifted_def rel_payload)

lemma lifted_step: "primary_step nd params ev p = (r, p', out) \<Longrightarrow> lifted p p' out"
  by (cases ev)
    (auto simp: op_modify_def intro: lifted_others lifted_same lifted_receive lifted_core lifted_gc lifted_payload
      elim!: lifted_receive split: prod.splits)

end

sublocale primary_relation \<subseteq> whole: transition lifted
  by unfold_locales (rule lifted_same, simp_all, rule lifted_trans)

context primary_relation
begin

lemma lifted_run: "primary_run nd params events p = (r, p', out) \<Longrightarrow> lifted p p' out"
  unfolding primary_run_def
  by (erule whole.movesD [rotated]) (intro whole.moves_for whole.movesI, rule lifted_step)

lemma run_rel:
  assumes "primary_run nd params events p = (r, p', out)"
    and "consensus_round p = gc_last_committed (pr_garbage_collector p)" and "consensus_round p' \<le> bound"
  shows "rel (pr_core p) (pr_core p') (core_actions out)"
  using lifted_run [OF assms(1)] assms(2,3) by (simp add: lifted_def)

end

text \<open>The first round that the core task has not garbage collected when the counter is \<open>loaded\<close>.\<close>

definition collected :: "'db node \<Rightarrow> round \<Rightarrow> round" where
  "collected nd loaded = (if nd_gc_depth nd < loaded then loaded - nd_gc_depth nd else 0)"

lemma collected_mono:
  assumes "loaded \<le> bound" and "nd_gc_depth nd < loaded"
  shows "loaded - nd_gc_depth nd \<le> collected nd bound"
proof -
  have "nd_gc_depth nd < bound" using assms by simp
  then show ?thesis
    using assms by (simp add: collected_def word_le_nat_alt word_less_nat_alt unat_sub)
qed

interpretation primary_votes: primary_relation "one_vote (collected nd bound)" nd bound for nd :: "'db node" and bound
  by unfold_locales (auto intro!: core_step_one_vote collected_mono one_vote_same)

lemma keys_payload:
  "rocksdb_ok (nd_rocksdb nd) \<Longrightarrow> keys nd (s\<lparr>k_db := payload_receiver_step nd pair (k_db s)\<rparr>) = keys nd s"
  by (cases pair) (auto simp: keys_def has_key_def payload_receiver_step_def database.read_write payload_key_not_digest
      payload_key_not_digest [THEN not_sym])

interpretation primary_causal: primary_relation "causal nd" nd bound for nd :: "'db node" and bound
  by unfold_locales (auto intro: core_step_causal simp: causal_def keys_payload announced_none)

lemma primary_spawn_fields:
  "primary_spawn nd params env d = Ok (p, start) \<Longrightarrow>
   pr_core p = core_new d \<and> consensus_round p = 0 \<and> gc_last_committed (pr_garbage_collector p) = 0 \<and> rx_primary_messages p = []"
  by (auto simp: primary_spawn_def garbage_collector_spawn_def and_then_Ok_iff case_prod_unfold split: sum.splits)

section \<open>A concrete primary\<close>

text \<open>The header \<open>ex_block 2\<close> arrives twice; the core task votes for it the first time.\<close>

definition ex_flow :: "primary_event list" where
  "ex_flow = [PrimaryFrame [9], PrimaryFrame [9], CoreMessage, CoreMessage]"

lemma ex_primary_spawn:
  obtains p start where "primary_spawn ex_node parameters_default Map.empty [] = Ok (p, start)"
proof -
  obtain a where "primary_of ex_committee (PublicKey 1) = Ok a" by (simp add: primary_of_def ex_committee_def)
  moreover obtain gc where "garbage_collector_spawn ex_node = Ok gc"
    by (simp add: garbage_collector_spawn_def our_workers_def ex_committee_def)
  moreover obtain pr where "proposer_spawn ex_node Map.empty (header_size parameters_default) = Ok pr"
    by (simp add: proposer_spawn_def pause_during_silence_def our_workers_def ex_committee_def)
  ultimately show thesis using that by (simp add: primary_spawn_def case_prod_unfold)
qed

lemma ex_block_verify: "header_verify ex_dalek ex_committee (ex_block 2) = Ok ()"
  by (simp add: header_verify_def ex_block_def header_default_def and_then_Ok_iff ensure_Ok_iff
      header_digest_def ex_hash32 header_bytes_def key_as_ref_def digest_to_vec_def be_bytes_def
      le_bytes_def upt_rec nth_append signature_verify_def)

lemma ex_block_sane: "k_gc_round s = 0 \<Longrightarrow> sanitize_header ex_node (ex_block 2) s = Ok ()"
  by (simp add: sanitize_header_def ex_block_verify ensure_def)

lemma ex_flow_run:
  assumes "pr_core p = core_new []" and "consensus_round p = 0" and "rx_primary_messages p = []"
  shows "\<exists>r p' out. primary_run ex_node parameters_default ex_flow p = (r, p', out) \<and> consensus_round p' = 0 \<and>
    votes_cast (core_actions out) = [(1, PublicKey 2)]"
  using assms
  by (simp add: ex_flow_def primary_run_def network_task_def dispatch_primary_def ex_bincode_def receive_def core_task_def
      core_eval ex_block_sane acks_sent_def core_actions_def del: header_with_fuel.simps cong: op_congs)

lemma ex_certified_header [simp]: "c_header ex_certified_block = ex_block 2"
  by (simp add: ex_certified_block_def)

lemma ex_certified_sane: "k_gc_round s = 0 \<Longrightarrow> sanitize_certificate ex_node ex_certified_block s = Ok ()"
proof -
  have "certificate_verify ex_dalek ex_committee ex_certified_block = Ok ()"
    by (simp add: certificate_verify_Ok_iff signers_def ex_certified_block_def ex_block_verify stake_nat_def
        signature_verify_batch_def)
  then show "k_gc_round s = 0 \<Longrightarrow> sanitize_certificate ex_node ex_certified_block s = Ok ()"
    by (simp add: sanitize_certificate_def ensure_def)
qed

text \<open>The same header and then its certificate: the certificate is handed to consensus.\<close>

definition ex_causal_flow :: "primary_event list" where
  "ex_causal_flow = [PrimaryFrame [9], PrimaryFrame [10], CoreMessage, CoreMessage]"

lemma ex_deliver: "deliver_certificate ex_node d ex_certified_block = (Ok True, [])"
  by (simp add: deliver_certificate_def ancestors_present_ok is_genesis_digest_def ex_certified_block_def ex_block_def
      ex_sync_genesis)

lemma ex_appended: "\<exists>agg. certificates_append ex_dalek ex_committee ex_certified_block certificates_aggregator_new = (agg, Ok None)"
  by (simp add: certificates_append_def certificates_aggregator_new_def ex_certified_block_def cert_origin_def ex_small Let_def)

lemma ex_causal_run:
  assumes "pr_core p = core_new []" and "consensus_round p = 0" and "rx_primary_messages p = []"
  shows "\<exists>r p' out. primary_run ex_node parameters_default ex_causal_flow p = (r, p', out) \<and>
    ToConsensus ex_certified_block \<in> set (core_actions out)"
  using assms ex_appended
  by (auto simp add: ex_causal_flow_def primary_run_def network_task_def dispatch_primary_def ex_bincode_def receive_def core_task_def
      core_eval ex_block_sane ex_certified_sane ex_deliver acks_sent_def core_actions_def is_processing_def
      simp del: header_with_fuel.simps cong: op_congs)

section \<open>Properties\<close>

text \<open>
  C9: A primary votes at most once for a round and an author, whatever its tasks do in whatever order: in any
  run of the whole primary, the votes for rounds that are not garbage collected at its end are for
  distinct pairs of round and header author.
\<close>

theorem primary_votes_once:
  assumes "primary_spawn nd params env d = Ok (p, start)" and "primary_run nd params events p = (r, p', out)"
  shows "distinct (filter (\<lambda>(r, _). collected nd (consensus_round p') \<le> r) (votes_cast (core_actions out)))"
  using primary_votes.run_rel [OF assms(2)] primary_spawn_fields [OF assms(1)] by (simp add: one_vote_def Let_def)

theorem primary_votes_once_witness:
  "\<exists>p start r p' out. primary_spawn ex_node parameters_default Map.empty [] = Ok (p, start) \<and>
     primary_run ex_node parameters_default ex_flow p = (r, p', out) \<and> votes_cast (core_actions out) = [(1, PublicKey 2)] \<and>
     distinct (filter (\<lambda>(r, _). collected ex_node (consensus_round p') \<le> r) (votes_cast (core_actions out)))"
proof -
  obtain p start where p: "primary_spawn ex_node parameters_default Map.empty [] = Ok (p, start)" by (rule ex_primary_spawn)
  obtain r p' out where run: "primary_run ex_node parameters_default ex_flow p = (r, p', out)"
    and votes: "votes_cast (core_actions out) = [(1, PublicKey 2)]"
    using ex_flow_run [of p] primary_spawn_fields [OF p] by auto
  show ?thesis using p run votes primary_votes_once [OF p run] by (intro exI conjI)
qed

text \<open>
  C10: A primary feeds consensus in causal order: in any run of the whole primary from a store, each parent of a
  certificate handed to consensus is a genesis certificate, or in that store, or was handed to consensus
  before, or is the id of a header stored before.
\<close>

theorem primary_feeds_causally:
  assumes "rocksdb_ok (nd_rocksdb nd)" and "primary_spawn nd params env d = Ok (p, start)"
    and "primary_run nd params events p = (r, p', out)"
  shows "\<forall>pre x post y. core_actions out = pre @ ToConsensus x # post \<and> y \<in> set (h_parents (c_header x)) \<longrightarrow>
    is_genesis_digest nd y \<or> has_key nd d (digest_to_vec y) \<or>
    (\<exists>z. ToConsensus z \<in> set pre \<and> cert_digest (nd_crypto nd) z = y) \<or>
    (\<exists>h. h_id h = y \<and> StoreWrite (digest_to_vec y) (ser_header (nd_codec nd) h) \<in> set pre)"
proof (intro allI impI, elim conjE)
  fix pre x post y
  assume out: "core_actions out = pre @ ToConsensus x # post" and y: "y \<in> set (h_parents (c_header x))"
  have "causal nd (core_new d) (pr_core p') (pre @ ToConsensus x # post)"
    using primary_causal.run_rel [OF assms(3), of "consensus_round p'"] primary_spawn_fields [OF assms(2)] out by simp
  then have "known_parents nd (keys nd (core_new d) \<union> announced nd pre) x"
    using assms(1) by (auto simp: causal_def)
  then show "is_genesis_digest nd y \<or> has_key nd d (digest_to_vec y) \<or>
    (\<exists>z. ToConsensus z \<in> set pre \<and> cert_digest (nd_crypto nd) z = y) \<or>
    (\<exists>h. h_id h = y \<and> StoreWrite (digest_to_vec y) (ser_header (nd_codec nd) h) \<in> set pre)"
    using y by (auto simp: known_parents_def keys_def announced_def core_new_def)
qed

theorem primary_feeds_causally_witness:
  "\<exists>p start r p' out pre post. primary_spawn ex_node parameters_default Map.empty [] = Ok (p, start) \<and>
     primary_run ex_node parameters_default ex_causal_flow p = (r, p', out) \<and>
     core_actions out = pre @ ToConsensus ex_certified_block # post \<and>
     (\<forall>y \<in> set (h_parents (ex_block 2)). is_genesis_digest ex_node y \<or> has_key ex_node [] (digest_to_vec y) \<or>
       (\<exists>z. ToConsensus z \<in> set pre \<and> cert_digest ex_dalek z = y) \<or>
       (\<exists>h. h_id h = y \<and> StoreWrite (digest_to_vec y) (ser_header ex_bincode h) \<in> set pre))"
proof -
  obtain p start where p: "primary_spawn ex_node parameters_default Map.empty [] = Ok (p, start)" by (rule ex_primary_spawn)
  obtain r p' out where run: "primary_run ex_node parameters_default ex_causal_flow p = (r, p', out)"
    and mem: "ToConsensus ex_certified_block \<in> set (core_actions out)"
    using ex_causal_run [of p] primary_spawn_fields [OF p] by auto
  obtain pre post where out: "core_actions out = pre @ ToConsensus ex_certified_block # post"
    using split_list [OF mem] by blast
  have "\<forall>y \<in> set (h_parents (ex_block 2)). is_genesis_digest ex_node y \<or> has_key ex_node [] (digest_to_vec y) \<or>
      (\<exists>z. ToConsensus z \<in> set pre \<and> cert_digest ex_dalek z = y) \<or>
      (\<exists>h. h_id h = y \<and> StoreWrite (digest_to_vec y) (ser_header ex_bincode h) \<in> set pre)"
    using primary_feeds_causally [OF _ p run, rule_format, of pre ex_certified_block post] out by simp
  with p run out show ?thesis by (intro exI conjI)
qed

section \<open>Messages of the core task\<close>

definition answerable :: "'db primary \<Rightarrow> bool" where
  "answerable p \<longleftrightarrow> (\<forall>m \<in> set (rx_primary_messages p). \<forall>missing requestor. m \<noteq> CertificatesRequest missing requestor)"

lemma answerable_network:
  assumes "answerable p" and "\<And>m. ToCore m \<in> set deliveries \<Longrightarrow> \<forall>missing requestor. m \<noteq> CertificatesRequest missing requestor"
  shows "answerable (fold deliver_network deliveries p)"
  using assms
proof (induction deliveries arbitrary: p)
  case (Cons a deliveries)
  then have "answerable (deliver_network a p)" by (cases a) (auto simp: answerable_def)
  then show ?case using Cons by simp
qed simp

lemma task_messages:
  "core_task nd cev p = (r, p', out) \<Longrightarrow> rx_primary_messages p' = rx_primary_messages p"
  "proposer_task nd e p = (r, p', out) \<Longrightarrow> rx_primary_messages p' = rx_primary_messages p"
  "header_waiter_task nd params now hev p = (r, p', out) \<Longrightarrow> rx_primary_messages p' = rx_primary_messages p"
  "certificate_waiter_task nd wev p = (r, p', out) \<Longrightarrow> rx_primary_messages p' = rx_primary_messages p"
  "helper_task nd req p = (r, p', out) \<Longrightarrow> rx_primary_messages p' = rx_primary_messages p"
  "gc_task nd x p = (r, p', out) \<Longrightarrow> rx_primary_messages p' = rx_primary_messages p"
  "payload_task nd pair p = (r, p', out) \<Longrightarrow> rx_primary_messages p' = rx_primary_messages p"
  by (auto simp: core_task_def proposer_task_def header_waiter_task_def certificate_waiter_task_def helper_task_def gc_task_def
      payload_task_def split: prod.splits)

lemma answerable_step:
  assumes "primary_step nd params ev p = (r, p', out)" and "answerable p"
  shows "answerable p'"
proof -
  have worker: "ToCore m \<notin> set (fst (dispatch_worker b bs))" for m b bs
    by (auto simp: dispatch_worker_def split: option.splits worker_primary_message.splits)
  have primary: "ToCore (CertificatesRequest missing requestor) \<notin> set (fst (dispatch_primary b bs))" for missing requestor b bs
    using dispatch_primary_core by blast
  show ?thesis
    using assms
    by (cases ev)
      (auto simp: network_task_def case_prod_unfold worker primary dest!: task_messages intro!: answerable_network
        elim!: receive_result, auto simp: answerable_def)
qed

text \<open>
  C26: The core task of a primary is never given a request for certificates, on which it panics: in any run of the
  whole primary its channel holds only headers, votes and certificates, whatever frames arrive.
\<close>

theorem core_gets_no_request:
  assumes "primary_spawn nd params env d = Ok (p, start)" and "primary_run nd params events p = (r, p', out)"
  shows "\<forall>m \<in> set (rx_primary_messages p'). \<forall>missing requestor. m \<noteq> CertificatesRequest missing requestor"
proof -
  have tr: "transition (\<lambda>p p' _. answerable p \<longrightarrow> answerable p')" by unfold_locales blast+
  have "transition.moves (\<lambda>p p' _. answerable p \<longrightarrow> answerable p') (op_for events (primary_step nd params))"
    by (intro transition.moves_for [OF tr] transition.movesI [OF tr]) (use answerable_step in blast)
  from transition.movesD [OF tr this] show ?thesis
    using assms(2) primary_spawn_fields [OF assms(1)] unfolding primary_run_def by (auto simp: answerable_def)
qed

theorem core_gets_no_request_witness:
  "\<exists>p start r p' out. primary_spawn ex_node parameters_default Map.empty [] = Ok (p, start) \<and>
     primary_run ex_node parameters_default (take 2 ex_flow) p = (r, p', out) \<and>
     (\<forall>m \<in> set (rx_primary_messages p'). \<forall>missing requestor. m \<noteq> CertificatesRequest missing requestor)"
proof -
  obtain p start where p: "primary_spawn ex_node parameters_default Map.empty [] = Ok (p, start)" by (rule ex_primary_spawn)
  obtain r p' out where run: "primary_run ex_node parameters_default (take 2 ex_flow) p = (r, p', out)"
    by (cases "primary_run ex_node parameters_default (take 2 ex_flow) p")
  show ?thesis using p run core_gets_no_request [OF p run] by (intro exI conjI)
qed

end
