(* ===== verification/Agreement.thy ===== *)
theory Agreement
  imports Primary
begin

text \<open>
  Agreement on certificates between primaries. Any number of primaries run, each with its own schedule;
  those outside a set \<open>honest\<close> may do anything. Two verified certificates for the same round and author
  have a signer in \<open>honest\<close> in common, and that primary has voted only once for the round and the
  author: so the two certificates are for the same header.
\<close>

section \<open>The votes a primary has created\<close>

definition votes_created :: "core_action list \<Rightarrow> vote list" where
  "votes_created out = concat (map (\<lambda>a. case a of VoteCreated v \<Rightarrow> [v] | _ \<Rightarrow> []) out)"

lemma votes_created_simps [simp]:
  "votes_created [] = []"
  "votes_created (a # out) = (case a of VoteCreated v \<Rightarrow> v # votes_created out | _ \<Rightarrow> votes_created out)"
  by (auto simp: votes_created_def split: core_action.split)

lemma votes_created_iff: "v \<in> set (votes_created out) \<longleftrightarrow> VoteCreated v \<in> set out"
  by (induction out) (auto split: core_action.split)

lemma votes_cast_created: "votes_cast out = map (\<lambda>v. (v_round v, v_origin v)) (votes_created out)"
  by (induction out) (auto split: core_action.split)

lemma one_vote_unique:
  assumes "distinct (filter (\<lambda>(r, _). b \<le> r) (votes_cast out))"
    and "v \<in> set (votes_created out)" "w \<in> set (votes_created out)"
    and "v_round v = v_round w" "v_origin v = v_origin w" "b \<le> v_round v"
  shows "v = w"
proof -
  let ?slot = "\<lambda>v. (v_round v, v_origin v)" and ?live = "filter (\<lambda>v. b \<le> v_round v) (votes_created out)"
  have "distinct (map ?slot ?live)"
    using assms(1) by (simp add: votes_cast_created filter_map comp_def)
  then have "inj_on ?slot (set ?live)" by (simp add: distinct_map)
  then show ?thesis by (rule inj_onD) (use assms in auto)
qed

section \<open>Primaries of a committee\<close>

text \<open>
  The output \<open>out\<close> of some run of a primary, from its start with the store \<open>d\<close>. Rounds from \<open>low\<close> on are not yet
  garbage collected at its end.
\<close>

definition primary_outputs ::
  "'db node \<Rightarrow> parameters \<Rightarrow> environment \<Rightarrow> 'db \<Rightarrow> round \<Rightarrow> primary_output list \<Rightarrow> bool" where
  "primary_outputs nd params env d low out \<longleftrightarrow>
     (\<exists>p start events r p'. primary_spawn nd params env d = Ok (p, start) \<and>
        primary_run nd params events p = (r, p', out) \<and> collected nd (consensus_round p') \<le> low)"

text \<open>
  A signature cannot be forged: when an honest authority is among the signers of a verified certificate, its
  primary has created a vote with the digest of the certificate.
\<close>

definition unforged :: "dalek \<Rightarrow> (public_key \<Rightarrow> primary_output list) \<Rightarrow> public_key set \<Rightarrow> certificate \<Rightarrow> bool" where
  "unforged dk out honest x \<longleftrightarrow>
     (\<forall>k \<in> honest \<inter> signers x. \<exists>v \<in> set (votes_created (core_actions (out k))). vote_digest dk v = cert_digest dk x)"

text \<open>The byte strings that are hashed for votes of honest authorities and for the given certificates.\<close>

definition hashed :: "(public_key \<Rightarrow> primary_output list) \<Rightarrow> public_key set \<Rightarrow> certificate set \<Rightarrow> bytes set" where
  "hashed out honest certs =
     (\<lambda>x. vote_bytes (h_id (c_header x)) (cert_round x) (cert_origin x)) ` certs \<union>
     (\<lambda>v. vote_bytes (v_id v) (v_round v) (v_origin v)) ` (\<Union>k \<in> honest. set (votes_created (core_actions (out k))))"

lemma primary_outputs_unique:
  assumes "primary_outputs nd params env d low out"
    and "v \<in> set (votes_created (core_actions out))" "w \<in> set (votes_created (core_actions out))"
    and "v_round v = v_round w" "v_origin v = v_origin w" "low \<le> v_round v"
  shows "v = w"
proof -
  obtain p start events r p' where spawn: "primary_spawn nd params env d = Ok (p, start)"
    and run: "primary_run nd params events p = (r, p', out)" and low: "collected nd (consensus_round p') \<le> low"
    using assms(1) by (auto simp: primary_outputs_def)
  have "one_vote (collected nd (consensus_round p')) (pr_core p) (pr_core p') (core_actions out)"
    using primary_votes.run_rel [OF run] primary_spawn_fields [OF spawn] by simp
  then show ?thesis
    using assms(2-6) low by (intro one_vote_unique [of "collected nd (consensus_round p')"]) (auto simp: one_vote_def Let_def)
qed

lemma voted_for_certificate:
  assumes "inj_on (hash32 dk) (hashed out honest certs)" and "x \<in> certs" and "k \<in> honest"
    and "v \<in> set (votes_created (core_actions (out k)))" and "vote_digest dk v = cert_digest dk x"
  shows "v_id v = h_id (c_header x)" "v_round v = cert_round x" "v_origin v = cert_origin x"
proof -
  have "vote_bytes (v_id v) (v_round v) (v_origin v) = vote_bytes (h_id (c_header x)) (cert_round x) (cert_origin x)"
    by (rule inj_onD [OF assms(1)]) (use assms(2-5) in \<open>auto simp: hashed_def vote_digest_def cert_digest_def\<close>)
  then show "v_id v = h_id (c_header x)" "v_round v = cert_round x" "v_origin v = cert_origin x" by simp_all
qed

lemma certificates_share_honest:
  assumes "committee_ok c" and "sum (stake_nat c) (set (names c) - honest) < unat (validity_threshold c)"
    and "certificate_verify dk c x = Ok ()" "\<not> genesis_like c x"
    and "certificate_verify dk c y = Ok ()" "\<not> genesis_like c y"
  obtains k where "k \<in> honest" "k \<in> signers x" "k \<in> signers y"
  using assms signers_members
  by (elim committee.quorums_share_honest [of c "signers x" "signers y" honest, rotated 5])
    (auto simp: certificate_verify_Ok_iff)

section \<open>A header is voted for\<close>

lemma header_votes:
  assumes "get_parents nd (k_db s) h = (Ok parents, [])" "parents \<noteq> []"
    and "check_parents (nd_committee nd) h parents 0 = Ok stk" "quorum_threshold (nd_committee nd) \<le> stk"
    and "missing_payload nd (k_db s) h = (Ok False, [])"
    and "vote_new (nd_crypto nd) (nd_secret nd) h (nd_name nd) = Ok v"
    and "h_author h \<notin> or_default {} (k_last_voted s (h_round h))" and "h_author h \<noteq> nd_name nd"
  shows "votes_created (snd (snd (process_header nd h s))) = [v]"
proof -
  have v: "v_origin v = h_author h"
    using assms(6) by (auto simp: vote_new_def Let_def and_then_Ok_iff)
  have send: "votes_created out = []" if "send_vote nd h v t = (r, t', out)" for t r t' out
    using that by (auto simp: send_vote_def op_then_def op_bind_def core_effects Let_def split: prod.splits sum.splits)
  then show ?thesis
    using assms v unfolding process_header_def core_fuel_Suc header_with_fuel_blocks
    by (subst header_block_passes) (auto simp: op_then_def op_bind_def write_store_def cast_block_run mark_processing_def
        dest!: send split: prod.splits)
qed

lemma core_task_votes:
  assumes "sanitize_header nd h (pr_core p) = Ok ()"
  shows "\<exists>r p' out. core_task nd (FromPrimary (HeaderMsg h)) p = (r, p', out) \<and>
    core_actions out = snd (snd (process_header nd h (pr_core p))) \<and> pr_garbage_collector p' = pr_garbage_collector p"
  using assms
  by (auto simp: core_task_def core_step_def op_then_def op_bind_def op_check_def split: prod.splits sum.splits fault.splits dag_error.splits)

section \<open>Concrete primaries\<close>

text \<open>The primaries of the example committee, each under its own name and key; the header of authority 2 arrives at them.\<close>

definition ex_primary :: "public_key \<Rightarrow> (bytes \<times> bytes) list node" where
  "ex_primary k = ex_node\<lparr>nd_name := k, nd_secret := SecretKey (ucast (key_bits k))\<rparr>"

lemma ex_primary_simps [simp]:
  "nd_crypto (ex_primary k) = ex_dalek" "nd_codec (ex_primary k) = ex_bincode" "nd_rocksdb (ex_primary k) = ex_rocksdb"
  "nd_name (ex_primary k) = k" "nd_committee (ex_primary k) = ex_committee" "nd_gc_depth (ex_primary k) = 1"
  by (simp_all add: ex_primary_def)

lemma ex_primary_passes:
  "get_parents (ex_primary k) d (ex_block j) = (Ok ex_parents, [])" "missing_payload (ex_primary k) d (ex_block j) = (Ok False, [])"
proof -
  have "sync_genesis (ex_primary k) = sync_genesis ex_node" by (simp add: sync_genesis_def)
  then show "get_parents (ex_primary k) d (ex_block j) = (Ok ex_parents, [])"
    by (simp add: get_parents_def ex_block_def ex_sync_genesis ex_parents_def header_default_def certificate_default_def)
  show "missing_payload (ex_primary k) d (ex_block j) = (Ok False, [])" by (simp add: missing_payload_def)
qed

definition ex_arrival :: "primary_event list" where
  "ex_arrival = [PrimaryFrame [9], CoreMessage]"

lemma ex_primary_starts:
  assumes "k \<in> set (names ex_committee)"
  obtains p start where "primary_spawn (ex_primary k) parameters_default Map.empty [] = Ok (p, start)"
proof -
  have "(\<exists>a. primary_of ex_committee k = Ok a) \<and> (\<exists>gc. garbage_collector_spawn (ex_primary k) = Ok gc) \<and>
      (\<exists>pr. proposer_spawn (ex_primary k) Map.empty (header_size parameters_default) = Ok pr)"
    using assms unfolding ex_committee_names
    by (auto simp: primary_of_def garbage_collector_spawn_def proposer_spawn_def pause_during_silence_def our_workers_def
        ex_committee_def)
  then show thesis using that by (auto simp: primary_spawn_def case_prod_unfold)
qed

lemma ex_primary_vote:
  "\<exists>v. vote_new ex_dalek (nd_secret (ex_primary k)) (ex_block 2) k = Ok v \<and>
     v_id v = Digest 259 \<and> v_round v = 1 \<and> v_origin v = PublicKey 2"
  by (simp add: vote_new_def request_signature_def Let_def signature_new_def)

lemma ex_primary_votes:
  assumes "k \<in> set (names ex_committee)" and "k \<noteq> PublicKey 2"
  shows "\<exists>out v. primary_outputs (ex_primary k) parameters_default Map.empty [] 1 out \<and>
    votes_created (core_actions out) = [v] \<and> v_id v = Digest 259 \<and> v_round v = 1 \<and> v_origin v = PublicKey 2"
proof -
  obtain p start where p: "primary_spawn (ex_primary k) parameters_default Map.empty [] = Ok (p, start)"
    by (rule ex_primary_starts [OF assms(1)])
  obtain v where v: "vote_new ex_dalek (nd_secret (ex_primary k)) (ex_block 2) k = Ok v"
    "v_id v = Digest 259" "v_round v = 1" "v_origin v = PublicKey 2"
    using ex_primary_vote by blast
  let ?q = "p\<lparr>rx_primary_messages := []\<rparr>"
  have core: "pr_core ?q = core_new []" using primary_spawn_fields [OF p] by simp
  have "votes_created (snd (snd (process_header (ex_primary k) (ex_block 2) (pr_core ?q)))) = [v]"
    unfolding core using v(1) assms(2)
    by (intro header_votes [where parents = ex_parents and stk = 3])
      (simp_all add: ex_primary_passes ex_block_passes core_new_def or_default_def)
  moreover have "sanitize_header (ex_primary k) (ex_block 2) (pr_core ?q) = Ok ()"
    unfolding core by (simp add: sanitize_header_def ex_block_verify ensure_def core_new_def)
  ultimately obtain r p' out where
    task: "core_task (ex_primary k) (FromPrimary (HeaderMsg (ex_block 2))) ?q = (r, p', out)"
    "votes_created (core_actions out) = [v]" "pr_garbage_collector p' = pr_garbage_collector ?q"
    using core_task_votes by metis
  have "\<exists>r' out'. primary_run (ex_primary k) parameters_default ex_arrival p = (r', p', out') \<and> core_actions out' = core_actions out"
    using task primary_spawn_fields [OF p]
    by (auto simp: primary_run_def ex_arrival_def network_task_def dispatch_primary_def ex_bincode_def receive_def op_then_def
        op_bind_def acks_sent_def core_actions_def split: sum.splits)
  moreover have "collected (ex_primary k) (consensus_round p') \<le> 1"
    using task(3) primary_spawn_fields [OF p] by (simp add: collected_def)
  ultimately show ?thesis using p task(2) v(2-4) unfolding primary_outputs_def by metis
qed

section \<open>Properties\<close>

text \<open>
  The bytes hashed for a vote are also the bytes hashed for a header without payload and with one parent, so the
  two kinds of signature are not told apart: \<open>unforged\<close> asks that the signature comes from a vote.
\<close>

lemma vote_bytes_of_header:
  "header_bytes \<lparr>h_author = PublicKey a, h_round = r, h_payload = [], h_parents = [Digest b], h_id = i, h_signature = s\<rparr> =
   vote_bytes (Digest a) r (PublicKey b)"
  by (simp add: header_bytes_def vote_bytes_def key_as_ref_def digest_to_vec_def)

text \<open>
  C4: Two certificates that pass verification and are for the same round and author are for the same header,
  whatever the Byzantine authorities do: as long as these hold less than the validity threshold (f + 1) of the stake,
  signatures are not forged and the hash does not collide on the votes, for a round that the honest primaries
  have not garbage collected.
\<close>

theorem certificates_agree:
  assumes "committee_ok c"
    and "sum (stake_nat c) (set (names c) - honest) < unat (validity_threshold c)"
    and "\<forall>k \<in> honest. primary_outputs (nd k) (params k) (env k) (d k) (cert_round x) (out k)"
    and "unforged dk out honest x" "unforged dk out honest y"
    and "inj_on (hash32 dk) (hashed out honest {x, y})"
    and "certificate_verify dk c x = Ok ()" "\<not> genesis_like c x"
    and "certificate_verify dk c y = Ok ()" "\<not> genesis_like c y"
    and "cert_round x = cert_round y" "cert_origin x = cert_origin y"
  shows "h_id (c_header x) = h_id (c_header y) \<and> cert_digest dk x = cert_digest dk y"
proof -
  obtain k where k: "k \<in> honest" "k \<in> signers x" "k \<in> signers y"
    by (rule certificates_share_honest [OF assms(1,2,7-10)])
  obtain v where v: "v \<in> set (votes_created (core_actions (out k)))" "vote_digest dk v = cert_digest dk x"
    using assms(4) k by (auto simp: unforged_def)
  obtain w where w: "w \<in> set (votes_created (core_actions (out k)))" "vote_digest dk w = cert_digest dk y"
    using assms(5) k by (auto simp: unforged_def)
  note vx = voted_for_certificate [OF assms(6) _ k(1) v] and wy = voted_for_certificate [OF assms(6) _ k(1) w]
  have "v = w"
    using assms(3,11,12) k(1) v(1) w(1) vx wy by (intro primary_outputs_unique) auto
  then show ?thesis using vx wy v(2) w(2) by simp
qed

text \<open>Two certificates of the same header with different signers, and authority 2, its author, Byzantine.\<close>

definition ex_other_certificate :: certificate where
  "ex_other_certificate =
     \<lparr>c_header = ex_block 2, c_votes = map (\<lambda>k. (k, signature_default)) [PublicKey 1, PublicKey 3, PublicKey 4]\<rparr>"

lemma ex_block_certificates:
  assumes "x \<in> {ex_certified_block, ex_other_certificate}"
  shows "c_header x = ex_block 2" "certificate_verify ex_dalek ex_committee x = Ok ()" "\<not> genesis_like ex_committee x"
  using assms
  by (auto simp: ex_certified_block_def ex_other_certificate_def certificate_verify_Ok_iff signers_def ex_block_verify stake_nat_def
      signature_verify_batch_def genesis_like_def cert_round_def)

theorem certificates_agree_witness:
  "\<exists>out. (\<forall>k \<in> {PublicKey 1, PublicKey 3, PublicKey 4}. primary_outputs (ex_primary k) parameters_default Map.empty [] 1 (out k)) \<and>
     h_id (c_header ex_certified_block) = h_id (c_header ex_other_certificate) \<and>
     cert_digest ex_dalek ex_certified_block = cert_digest ex_dalek ex_other_certificate"
proof -
  let ?honest = "{PublicKey 1, PublicKey 3, PublicKey 4}"
  have "\<forall>k \<in> ?honest. \<exists>out v. primary_outputs (ex_primary k) parameters_default Map.empty [] 1 out \<and>
      votes_created (core_actions out) = [v] \<and> v_id v = Digest 259 \<and> v_round v = 1 \<and> v_origin v = PublicKey 2"
    by (intro ballI ex_primary_votes) auto
  then obtain out vote where run: "\<forall>k \<in> ?honest. primary_outputs (ex_primary k) parameters_default Map.empty [] 1 (out k)"
    and vote: "\<forall>k \<in> ?honest. votes_created (core_actions (out k)) = [vote k] \<and> v_id (vote k) = Digest 259 \<and>
      v_round (vote k) = 1 \<and> v_origin (vote k) = PublicKey 2"
    by metis
  note certs = ex_block_certificates
  have parts: "cert_round x = 1" "cert_origin x = PublicKey 2" "h_id (c_header x) = Digest 259"
    if "x \<in> {ex_certified_block, ex_other_certificate}" for x
    using certs(1) [OF that] by (simp_all add: cert_round_def cert_origin_def)
  have unforged: "unforged ex_dalek out ?honest x" if "x \<in> {ex_certified_block, ex_other_certificate}" for x
    using vote parts [OF that] by (auto simp: unforged_def vote_digest_def cert_digest_def)
  have "hashed out ?honest {ex_certified_block, ex_other_certificate} \<subseteq> {vote_bytes (Digest 259) 1 (PublicKey 2)}"
    using vote parts by (auto simp: hashed_def)
  then have inj: "inj_on (hash32 ex_dalek) (hashed out ?honest {ex_certified_block, ex_other_certificate})"
    by (rule inj_on_subset [rotated]) simp
  have "h_id (c_header ex_certified_block) = h_id (c_header ex_other_certificate) \<and>
     cert_digest ex_dalek ex_certified_block = cert_digest ex_dalek ex_other_certificate"
  proof (rule certificates_agree [OF ex_committee_ok _ _ unforged unforged inj, where nd = ex_primary
          and params = "\<lambda>_. parameters_default" and env = "\<lambda>_. Map.empty" and d = "\<lambda>_. []"])
    show "\<forall>k \<in> ?honest. primary_outputs (ex_primary k) parameters_default Map.empty [] (cert_round ex_certified_block) (out k)"
      using run parts(1) [of ex_certified_block] by simp
    have "set (names ex_committee) - ?honest = {PublicKey 2}" by (simp add: insert_Diff_if)
    then show "sum (stake_nat ex_committee) (set (names ex_committee) - ?honest) < unat (validity_threshold ex_committee)"
      by (simp add: stake_nat_def)
    show "cert_round ex_certified_block = cert_round ex_other_certificate"
      "cert_origin ex_certified_block = cert_origin ex_other_certificate"
      by (simp_all only: parts insertI1 insertI2)
  qed ((rule certs)?, simp; fail)+
  then show ?thesis using run by blast
qed

end
