(* ===== verification/Authority.thy ===== *)
theory Authority
  imports LeaderAgreement Agreement
begin

text \<open>
  The part of an authority that runs in one process (the branch \<open>primary\<close> of \<open>run\<close> in \<open>node/src/main.rs\<close>): a primary
  and the consensus task, joined by the channel of new certificates and the feedback channel, and the loop
  \<open>analyze\<close> that takes the ordered certificates. The events of the tasks interleave freely. A run of the composition is
  projected onto a run of the primary and a run of consensus, so the theorems on either hold of it.
\<close>

section \<open>The two tasks and their channels\<close>

text \<open>The feedback channel is \<open>rx_consensus\<close> of the primary.\<close>

record 'db authority_node =
  an_primary :: "'db primary"
  an_consensus :: consensus_state
  rx_new_certificates :: "certificate list"
  rx_output :: "certificate list"

datatype authority_output =
  PrimaryOutput primary_output
| OrderedCertificate certificate

type_synonym 'db authority_op = "('db authority_node, authority_output, dag_error, unit) op"

definition consensus_of :: "'db node \<Rightarrow> environment \<Rightarrow> consensus" where
  "consensus_of nd env = consensus_new (nd_crypto nd) env (nd_committee nd) (nd_gc_depth nd)"

definition authority_spawn ::
  "'db node \<Rightarrow> parameters \<Rightarrow> environment \<Rightarrow> 'db \<Rightarrow> (dag_error, 'db authority_node \<times> authority_output list) result" where
  "authority_spawn nd params env d =
     and_then (primary_spawn nd params env d) (\<lambda>(p, start).
       let co = consensus_of nd env
       in Ok (\<lparr>an_primary = p, an_consensus = state_new (co_crypto co) (co_genesis co), rx_new_certificates = [], rx_output = []\<rparr>,
              map PrimaryOutput start))"

text \<open>The certificates that the core task sends to consensus.\<close>

definition to_consensus :: "primary_output list \<Rightarrow> certificate list" where
  "to_consensus out = concat (map (\<lambda>a. case a of CoreAction (ToConsensus x) \<Rightarrow> [x] | _ \<Rightarrow> []) out)"

definition primary_part :: "'db node \<Rightarrow> parameters \<Rightarrow> primary_event \<Rightarrow> 'db authority_op" where
  "primary_part nd params ev n =
     (case primary_step nd params ev (an_primary n) of (r, p, out) \<Rightarrow>
        (r, n\<lparr>an_primary := p, rx_new_certificates := rx_new_certificates n @ to_consensus out\<rparr>, map PrimaryOutput out))"

text \<open>
  The sequence of a step is sent when it is complete, each certificate to the primary and to the application; a step that panics
  has sent nothing.
\<close>

definition consensus_part :: "consensus \<Rightarrow> certificate \<Rightarrow> 'db authority_op" where
  "consensus_part co x n =
     (case consensus_step co x (an_consensus n) of
        Inl _ \<Rightarrow> (Panicked, n, [])
      | Inr (st, sequence) \<Rightarrow>
          (Ok (),
           n\<lparr>an_consensus := st,
             an_primary := (an_primary n)\<lparr>rx_consensus := rx_consensus (an_primary n) @ map fst sequence\<rparr>,
             rx_output := rx_output n @ map fst sequence\<rparr>,
           map (\<lambda>(x, _). OrderedCertificate x) sequence))"

definition analyze_part :: "certificate \<Rightarrow> 'db authority_op" where
  "analyze_part x = op_return ()"

datatype authority_event =
  PrimaryEvent primary_event
| ConsensusReceives
| AnalyzeReceives

text \<open>Only the consensus task of this process writes to the feedback channel.\<close>

fun authority_step :: "'db node \<Rightarrow> parameters \<Rightarrow> environment \<Rightarrow> authority_event \<Rightarrow> 'db authority_op" where
  "authority_step nd params env (PrimaryEvent ev) =
     (case ev of ConsensusOrdered _ \<Rightarrow> op_return () | _ \<Rightarrow> primary_part nd params ev)"
| "authority_step nd params env ConsensusReceives =
     receive rx_new_certificates (\<lambda>q. rx_new_certificates_update (\<lambda>_. q)) (consensus_part (consensus_of nd env))"
| "authority_step nd params env AnalyzeReceives =
     receive rx_output (\<lambda>q. rx_output_update (\<lambda>_. q)) analyze_part"

definition authority_run :: "'db node \<Rightarrow> parameters \<Rightarrow> environment \<Rightarrow> authority_event list \<Rightarrow> 'db authority_op" where
  "authority_run nd params env events = op_for events (authority_step nd params env)"

section \<open>Projections\<close>

definition primary_outs :: "authority_output list \<Rightarrow> primary_output list" where
  "primary_outs out = concat (map (\<lambda>a. case a of PrimaryOutput b \<Rightarrow> [b] | _ \<Rightarrow> []) out)"

definition ordered :: "authority_output list \<Rightarrow> certificate list" where
  "ordered out = concat (map (\<lambda>a. case a of OrderedCertificate x \<Rightarrow> [x] | _ \<Rightarrow> []) out)"

lemma outs_simps [simp]:
  "primary_outs [] = []" "primary_outs (out1 @ out2) = primary_outs out1 @ primary_outs out2"
  "primary_outs (map PrimaryOutput acts) = acts" "primary_outs (map (\<lambda>(x, b). OrderedCertificate x) sequence) = []"
  "ordered [] = []" "ordered (out1 @ out2) = ordered out1 @ ordered out2"
  "ordered (map PrimaryOutput acts) = []" "ordered (map (\<lambda>(x, b). OrderedCertificate x) sequence) = map fst sequence"
  "to_consensus [] = []" "to_consensus (outs1 @ outs2) = to_consensus outs1 @ to_consensus outs2"
proof -
  show "primary_outs (map PrimaryOutput acts) = acts" by (induction acts) (simp_all add: primary_outs_def)
  show "primary_outs (map (\<lambda>(x, b). OrderedCertificate x) sequence) = []" by (induction sequence) (auto simp: primary_outs_def)
  show "ordered (map PrimaryOutput acts) = []" by (simp add: ordered_def concat_eq_Nil_conv)
  show "ordered (map (\<lambda>(x, b). OrderedCertificate x) sequence) = map fst sequence"
    by (induction sequence) (auto simp: ordered_def)
qed (simp_all add: primary_outs_def ordered_def to_consensus_def)

lemma op_for_append: "op_for (xs @ ys) f s = op_then (op_for xs f) (op_for ys f) s"
proof (induction xs arbitrary: s)
  case Nil
  then show ?case by (simp add: op_then_def op_bind_def)
next
  case (Cons x xs)
  then show ?case by (auto simp: op_then_def op_bind_def split: prod.split sum.split)
qed

text \<open>What consensus does to the primary is the arrival of what it has ordered.\<close>

lemma ordered_arrive:
  "primary_run nd params (map ConsensusOrdered xs) p = (Ok (), p\<lparr>rx_consensus := rx_consensus p @ xs\<rparr>, [])"
proof (induction xs arbitrary: p)
  case Nil
  then show ?case by (simp add: primary_run_def)
next
  case (Cons x xs)
  have "primary_run nd params (map ConsensusOrdered (x # xs)) p =
      op_then (op_modify (\<lambda>p. p\<lparr>rx_consensus := rx_consensus p @ [x]\<rparr>)) (primary_run nd params (map ConsensusOrdered xs)) p"
    by (simp add: primary_run_def)
  then show ?case using Cons by (simp add: op_then_def op_bind_def)
qed

text \<open>The events of the primary in a step of the composition.\<close>

lemma authority_step_primary:
  assumes "authority_step nd params env ev n = (r, n', out)"
  obtains events r' where "primary_run nd params events (an_primary n) = (r', an_primary n', primary_outs out)"
    "r = Ok () \<Longrightarrow> r' = Ok ()" "\<And>bs. PrimaryFrame bs \<in> set events \<Longrightarrow> ev = PrimaryEvent (PrimaryFrame bs)"
proof (cases "(nd, params, env, ev)" rule: authority_step.cases)
  case (1 _ _ _ pev)
  show ?thesis
  proof (cases "\<exists>x. pev = ConsensusOrdered x")
    case True
    then show ?thesis using assms 1 that [of "[]" "Ok ()"] by (auto simp: primary_run_def)
  next
    case False
    then have "primary_part nd params pev n = (r, n', out)" using assms 1 by (auto split: primary_event.splits)
    then obtain p acts where "primary_step nd params pev (an_primary n) = (r, p, acts)" "an_primary n' = p" "out = map PrimaryOutput acts"
      by (auto simp: primary_part_def split: prod.splits)
    then show ?thesis
      using that [of "[pev]" r] 1 by (cases r) (auto simp: primary_run_def op_then_def op_bind_def)
  qed
next
  case (2 _ _ _)
  then have "receive rx_new_certificates (\<lambda>q. rx_new_certificates_update (\<lambda>_. q)) (consensus_part (consensus_of nd env)) n = (r, n', out)"
    using assms by simp
  then show ?thesis
  proof (cases rule: receive_result)
    case 1
    then show ?thesis using that [of "[]" "Ok ()"] by (simp add: primary_run_def)
  next
    case (2 x rest)
    show ?thesis
    proof (cases "consensus_step (consensus_of nd env) x (an_consensus n)")
      case (Inl f)
      then show ?thesis using 2 that [of "[]" "Ok ()"] by (auto simp: consensus_part_def primary_run_def)
    next
      case (Inr res)
      then show ?thesis
        using 2 that [of "map ConsensusOrdered (map fst (snd res))" "Ok ()"]
        by (cases res) (fastforce simp: consensus_part_def ordered_arrive simp del: map_map)
    qed
  qed
next
  case (3 _ _ _)
  then have "receive rx_output (\<lambda>q. rx_output_update (\<lambda>_. q)) analyze_part n = (r, n', out)" using assms by simp
  then show ?thesis by (cases rule: receive_result) (use that [of "[]" "Ok ()"] in \<open>auto simp: primary_run_def analyze_part_def\<close>)
qed

lemma authority_run_primary:
  assumes "authority_run nd params env events n = (r, n', out)"
  shows "\<exists>pevents r'. primary_run nd params pevents (an_primary n) = (r', an_primary n', primary_outs out) \<and> (r = Ok () \<longrightarrow> r' = Ok ()) \<and>
    (\<forall>bs. PrimaryFrame bs \<in> set pevents \<longrightarrow> PrimaryEvent (PrimaryFrame bs) \<in> set events)"
  using assms
proof (induction events arbitrary: n out)
  case Nil
  then show ?case by (intro exI [of _ "[]"] exI [of _ "Ok ()"]) (simp add: primary_run_def authority_run_def)
next
  case (Cons ev events)
  obtain r1 t out1 where 1: "authority_step nd params env ev n = (r1, t, out1)" by (cases "authority_step nd params env ev n")
  obtain evs1 r1' where p1: "primary_run nd params evs1 (an_primary n) = (r1', an_primary t, primary_outs out1)" "r1 = Ok () \<Longrightarrow> r1' = Ok ()"
    "\<And>bs. PrimaryFrame bs \<in> set evs1 \<Longrightarrow> ev = PrimaryEvent (PrimaryFrame bs)"
    using authority_step_primary [OF 1] by metis
  show ?case
  proof (cases r1)
    case (Inl f)
    then have "n' = t" "out = out1" "r \<noteq> Ok ()" using Cons.prems 1 by (auto simp: authority_run_def op_then_def op_bind_def)
    then show ?thesis using p1 by (intro exI [of _ evs1] exI [of _ r1']) auto
  next
    case (Inr u)
    then obtain out2 where 2: "authority_run nd params env events t = (r, n', out2)" and out: "out = out1 @ out2"
      using Cons.prems 1 by (auto simp: authority_run_def op_then_def op_bind_def split: prod.splits)
    from Cons.IH [OF 2] obtain evs2 r' where p2: "primary_run nd params evs2 (an_primary t) = (r', an_primary n', primary_outs out2)"
      "r = Ok () \<longrightarrow> r' = Ok ()" "\<forall>bs. PrimaryFrame bs \<in> set evs2 \<longrightarrow> PrimaryEvent (PrimaryFrame bs) \<in> set events" by blast
    have "primary_run nd params (evs1 @ evs2) (an_primary n) = (r', an_primary n', primary_outs out)"
      using p1 p2 Inr out by (simp add: primary_run_def op_for_append op_then_def op_bind_def)
    then show ?thesis using p1(3) p2(2,3) by (intro exI [of _ "evs1 @ evs2"] exI [of _ r']) auto
  qed
qed

section \<open>The channels between the primary and consensus\<close>

lemma deliver_feedback:
  "rx_consensus (fold deliver_core cs p) = rx_consensus p" "rx_consensus (fold deliver_proposer ps p) = rx_consensus p"
  "rx_consensus (fold deliver_waiter ws p) = rx_consensus p" "rx_consensus (fold deliver_network ns p) = rx_consensus p"
proof -
  have "rx_consensus (deliver_core a p) = rx_consensus p" for a and p :: "'a primary" by (cases a) simp_all
  then show "rx_consensus (fold deliver_core cs p) = rx_consensus p" by (rule fold_frame)
  have "rx_consensus (deliver_proposer a p) = rx_consensus p" for a and p :: "'a primary" by (cases a) simp_all
  then show "rx_consensus (fold deliver_proposer ps p) = rx_consensus p" by (rule fold_frame)
  have "rx_consensus (deliver_waiter a p) = rx_consensus p" for a and p :: "'a primary" by (cases a) simp_all
  then show "rx_consensus (fold deliver_waiter ws p) = rx_consensus p" by (rule fold_frame)
  have "rx_consensus (deliver_network a p) = rx_consensus p" for a and p :: "'a primary" by (cases a) simp_all
  then show "rx_consensus (fold deliver_network ns p) = rx_consensus p" by (rule fold_frame)
qed

text \<open>The tasks other than the garbage collector take nothing from the feedback channel.\<close>

definition same_feedback :: "'db primary \<Rightarrow> 'db primary \<Rightarrow> bool" where
  "same_feedback p p' \<longleftrightarrow> rx_consensus p' = rx_consensus p \<and> pr_garbage_collector p' = pr_garbage_collector p"

lemma same_feedbackI:
  "rx_consensus p' = rx_consensus p \<Longrightarrow> pr_garbage_collector p' = pr_garbage_collector p \<Longrightarrow> same_feedback p p'"
  by (simp add: same_feedback_def)

lemma task_feedback:
  "core_task nd cev p = (r, p', out) \<Longrightarrow> same_feedback p p'"
  "proposer_task nd e p = (r, p', out) \<Longrightarrow> same_feedback p p'"
  "header_waiter_task nd params now hev p = (r, p', out) \<Longrightarrow> same_feedback p p'"
  "certificate_waiter_task nd wev p = (r, p', out) \<Longrightarrow> same_feedback p p'"
  "helper_task nd req p = (r, p', out) \<Longrightarrow> same_feedback p p'"
  "payload_task nd pair p = (r, p', out) \<Longrightarrow> same_feedback p p'"
  "network_task deliveries p = (r, p', out) \<Longrightarrow> same_feedback p p'"
  by (auto simp: core_task_def proposer_task_def header_waiter_task_def certificate_waiter_task_def helper_task_def
      payload_task_def network_task_def same_feedback_def deliver_feedback split: prod.splits)

lemma receive_feedback:
  assumes "receive channel set_channel handle p = (r, p', out)"
    and "\<And>m q r q' out. handle m q = (r, q', out) \<Longrightarrow> same_feedback q q'" and "\<And>rest q. same_feedback q (set_channel rest q)"
  shows "same_feedback p p'"
  using assms(1)
proof (cases rule: receive_result)
  case 1
  then show ?thesis by (simp add: same_feedback_def)
next
  case (2 m rest)
  show ?thesis using assms(2) [OF 2(2)] assms(3) [of p rest] by (simp add: same_feedback_def)
qed

lemma primary_step_feedback:
  assumes "primary_step nd params ev p = (r, p', out)" and "ev \<noteq> CollectGarbage" "\<And>x. ev \<noteq> ConsensusOrdered x"
  shows "same_feedback p p'"
  using assms
  by (cases ev) (auto intro: task_feedback same_feedbackI elim!: receive_feedback split: prod.splits)

text \<open>
  What a run of both tasks that succeeds has done: consensus has processed \<open>ys\<close> of the certificates sent to it, and the garbage
  collector has taken \<open>taken\<close> of the ordered ones.
\<close>

definition synced :: "'db primary \<Rightarrow> bool" where
  "synced p \<longleftrightarrow> consensus_round p = gc_last_committed (pr_garbage_collector p)"

definition joined :: "consensus \<Rightarrow> 'db authority_node \<Rightarrow> 'db authority_node \<Rightarrow> authority_output list \<Rightarrow> bool" where
  "joined co n n' out \<longleftrightarrow>
     (\<exists>ys sequence taken.
        rx_new_certificates n @ to_consensus (primary_outs out) = ys @ rx_new_certificates n' \<and>
        each (consensus_step co) ys (an_consensus n) = Ok (an_consensus n', sequence) \<and> ordered out = map fst sequence \<and>
        rx_consensus (an_primary n) @ ordered out = taken @ rx_consensus (an_primary n') \<and>
        (synced (an_primary n) \<longrightarrow> synced (an_primary n') \<and>
           consensus_round (an_primary n') = fold (\<lambda>x r. max (cert_round x) r) taken (consensus_round (an_primary n))))"

lemma each_append:
  assumes "each f xs s = Ok (t, out1)" and "each f ys t = Ok (u, out2)"
  shows "each f (xs @ ys) s = Ok (u, out1 @ out2)"
  using assms(1)
proof (induction xs arbitrary: s out1)
  case Nil
  then show ?case using assms(2) by simp
next
  case (Cons x xs)
  from Cons.prems obtain s1 o1 o2 where "f x s = Ok (s1, o1)" "each f xs s1 = Ok (t, o2)" "out1 = o1 @ o2"
    by (rule each_Cons_Ok)
  then show ?case using Cons.IH by simp
qed

lemma joined_trans:
  assumes "joined co n m out1" and "joined co m u out2"
  shows "joined co n u (out1 @ out2)"
proof -
  obtain ys1 seq1 taken1 where 1: "rx_new_certificates n @ to_consensus (primary_outs out1) = ys1 @ rx_new_certificates m"
    "each (consensus_step co) ys1 (an_consensus n) = Ok (an_consensus m, seq1)" "ordered out1 = map fst seq1"
    "rx_consensus (an_primary n) @ ordered out1 = taken1 @ rx_consensus (an_primary m)"
    "synced (an_primary n) \<longrightarrow> synced (an_primary m) \<and>
       consensus_round (an_primary m) = fold (\<lambda>x r. max (cert_round x) r) taken1 (consensus_round (an_primary n))"
    using assms(1) by (auto simp: joined_def)
  obtain ys2 seq2 taken2 where 2: "rx_new_certificates m @ to_consensus (primary_outs out2) = ys2 @ rx_new_certificates u"
    "each (consensus_step co) ys2 (an_consensus m) = Ok (an_consensus u, seq2)" "ordered out2 = map fst seq2"
    "rx_consensus (an_primary m) @ ordered out2 = taken2 @ rx_consensus (an_primary u)"
    "synced (an_primary m) \<longrightarrow> synced (an_primary u) \<and>
       consensus_round (an_primary u) = fold (\<lambda>x r. max (cert_round x) r) taken2 (consensus_round (an_primary m))"
    using assms(2) by (auto simp: joined_def)
  have "rx_new_certificates n @ to_consensus (primary_outs (out1 @ out2)) = (ys1 @ ys2) @ rx_new_certificates u"
    by (metis 1(1) 2(1) append_assoc outs_simps(2,10))
  moreover have "rx_consensus (an_primary n) @ ordered (out1 @ out2) = (taken1 @ taken2) @ rx_consensus (an_primary u)"
    by (metis 1(4) 2(4) append_assoc outs_simps(6))
  moreover have "each (consensus_step co) (ys1 @ ys2) (an_consensus n) = Ok (an_consensus u, seq1 @ seq2)"
    by (rule each_append [OF 1(2) 2(2)])
  moreover have "ordered (out1 @ out2) = map fst (seq1 @ seq2)" using 1(3) 2(3) by simp
  moreover have "synced (an_primary n) \<longrightarrow> synced (an_primary u) \<and>
      consensus_round (an_primary u) = fold (\<lambda>x r. max (cert_round x) r) (taken1 @ taken2) (consensus_round (an_primary n))"
    using 1(5) 2(5) by simp
  ultimately show ?thesis unfolding joined_def by blast
qed

lemma joined_quiet:
  assumes "rx_new_certificates n' = rx_new_certificates n" "an_consensus n' = an_consensus n" "same_feedback (an_primary n) (an_primary n')"
  shows "joined co n n' []"
  unfolding joined_def using assms by (intro exI [of _ "[]"]) (simp add: same_feedback_def synced_def)

lemma joined_refl: "joined co n n []"
  by (rule joined_quiet) (simp_all add: same_feedback_def)

lemma joined_primary:
  assumes "primary_part nd params ev n = (r, n', out)" and "\<And>x. ev \<noteq> ConsensusOrdered x"
  shows "joined co n n' out"
proof -
  obtain p acts where run: "primary_step nd params ev (an_primary n) = (r, p, acts)"
    and n': "n' = n\<lparr>an_primary := p, rx_new_certificates := rx_new_certificates n @ to_consensus acts\<rparr>" and out: "out = map PrimaryOutput acts"
    using assms(1) by (auto simp: primary_part_def split: prod.splits)
  have "\<exists>taken. rx_consensus (an_primary n) = taken @ rx_consensus p \<and>
      (synced (an_primary n) \<longrightarrow> synced p \<and> consensus_round p = fold (\<lambda>x r. max (cert_round x) r) taken (consensus_round (an_primary n)))"
  proof (cases "ev = CollectGarbage")
    case False
    have "same_feedback (an_primary n) p" by (rule primary_step_feedback [OF run False assms(2)])
    then show ?thesis by (intro exI [of _ "[]"]) (simp add: same_feedback_def synced_def)
  next
    case True
    then have "receive rx_consensus (\<lambda>q. rx_consensus_update (\<lambda>_. q)) (gc_task nd) (an_primary n) = (r, p, acts)" using run by simp
    then show ?thesis
    proof (cases rule: receive_result)
      case 1
      then show ?thesis by (intro exI [of _ "[]"]) simp
    next
      case (2 x rest)
      then show ?thesis
        by (intro exI [of _ "[x]"])
          (auto simp: gc_task_def garbage_collector_step_def synced_def Let_def max_def split: if_splits)
    qed
  qed
  then obtain taken where "rx_consensus (an_primary n) = taken @ rx_consensus p"
    "synced (an_primary n) \<longrightarrow> synced p \<and> consensus_round p = fold (\<lambda>x r. max (cert_round x) r) taken (consensus_round (an_primary n))"
    by blast
  then show ?thesis unfolding joined_def n' out by (intro exI [of _ "[]"] exI [of _ taken]) simp
qed

lemma joined_step:
  assumes "authority_step nd params env ev n = (Ok (), n', out)"
  shows "joined (consensus_of nd env) n n' out"
proof (cases "(nd, params, env, ev)" rule: authority_step.cases)
  case (1 _ _ _ pev)
  show ?thesis
  proof (cases "\<exists>x. pev = ConsensusOrdered x")
    case True
    then show ?thesis using assms 1 by (auto intro: joined_refl)
  next
    case False
    then have "primary_part nd params pev n = (Ok (), n', out)" using assms 1 by (auto split: primary_event.splits)
    then show ?thesis using False by (intro joined_primary) auto
  qed
next
  case (2 _ _ _)
  then have "receive rx_new_certificates (\<lambda>q. rx_new_certificates_update (\<lambda>_. q)) (consensus_part (consensus_of nd env)) n = (Ok (), n', out)"
    using assms by simp
  then show ?thesis
  proof (cases rule: receive_result)
    case 1
    then show ?thesis by (auto intro: joined_refl)
  next
    case (2 x rest)
    then obtain st sequence where step: "consensus_step (consensus_of nd env) x (an_consensus n) = Ok (st, sequence)"
      and n': "n' = n\<lparr>rx_new_certificates := rest, an_consensus := st,
        an_primary := (an_primary n)\<lparr>rx_consensus := rx_consensus (an_primary n) @ map fst sequence\<rparr>,
        rx_output := rx_output n @ map fst sequence\<rparr>" and out: "out = map (\<lambda>(x, _). OrderedCertificate x) sequence"
      by (auto simp: consensus_part_def split: sum.splits prod.splits)
    show ?thesis
      unfolding joined_def n' out using 2 step by (intro exI [of _ "[x]"] exI [of _ sequence] exI [of _ "[]"]) (simp add: synced_def)
  qed
next
  case (3 _ _ _)
  then have "receive rx_output (\<lambda>q. rx_output_update (\<lambda>_. q)) analyze_part n = (Ok (), n', out)" using assms by simp
  then show ?thesis
    by (cases rule: receive_result) (auto simp: analyze_part_def intro: joined_refl joined_quiet [OF _ _ same_feedbackI])
qed

lemma joined_run:
  "authority_run nd params env events n = (Ok (), n', out) \<Longrightarrow> joined (consensus_of nd env) n n' out"
proof (induction events arbitrary: n out)
  case Nil
  then show ?case by (auto simp: authority_run_def intro: joined_refl)
next
  case (Cons ev events)
  obtain t out1 out2 where "authority_step nd params env ev n = (Ok (), t, out1)"
    "authority_run nd params env events t = (Ok (), n', out2)" "out = out1 @ out2"
    using Cons.prems by (auto simp: authority_run_def op_then_def op_bind_def split: prod.splits sum.splits)
  then show ?case using joined_trans joined_step Cons.IH by blast
qed

section \<open>Rounds\<close>

text \<open>Nothing is committed above the last committed round.\<close>

definition committed_below :: "dalek \<Rightarrow> consensus_state \<Rightarrow> (certificate \<times> bool) list \<Rightarrow> bool" where
  "committed_below dk st sequence \<longleftrightarrow>
     state_wf dk st \<and> (\<forall>x \<in> fst ` set sequence. cert_round x \<le> last_committed_round st)"

lemma committed_below_leader:
  assumes "commit_leader co ldr st = Ok (st', sequence)" and "committed_below dk st acc"
  shows "committed_below dk st' (acc @ sequence)"
  using assms unfolding commit_leader_def
proof (rule each_invariant)
  fix x s acc s' out
  assume "committed_below dk s acc" and "commit_one co x s = Ok (s', out)"
  then show "committed_below dk s' (acc @ out)"
    unfolding committed_below_def
    by (auto simp: commit_one_def and_then_Ok_iff last_committed_round_update le_max_iff_disj intro!: wf_intros
        simp del: last_committed_update)
qed

lemma committed_below_step:
  assumes "consensus_step co x st = Ok (st', sequence)" and "committed_below (co_crypto co) st acc"
    and "state_wf (co_crypto co) (st\<lparr>dag := dag_insert (co_crypto co) x (dag st)\<rparr>)"
  shows "committed_below (co_crypto co) st' (acc @ sequence)"
proof -
  let ?st = "st\<lparr>dag := dag_insert (co_crypto co) x (dag st)\<rparr>"
  have st: "committed_below (co_crypto co) ?st acc" using assms(2,3) by (auto simp: committed_below_def)
  have run: "try_commit co (cert_round x) ?st = Ok (st', sequence)" using assms(1) by (simp add: consensus_step_def)
  show ?thesis
  proof (cases "sequence \<noteq> [] \<or> st' \<noteq> ?st")
    case True
    from try_commit_Ok [OF run this] obtain ls where "each (commit_leader co) (rev ls) ?st = Ok (st', sequence)" by metis
    then show ?thesis using st by (rule each_invariant) (rule committed_below_leader)
  next
    case False
    then show ?thesis using st by simp
  qed
qed

lemma committed_below_run:
  assumes "each (consensus_step co) xs st = Ok (st', sequence)" and "committed_below (co_crypto co) st acc"
  shows "committed_below (co_crypto co) st' (acc @ sequence)"
  using assms
proof (rule each_invariant)
  fix x s acc s' out
  assume "committed_below (co_crypto co) s acc" and "consensus_step co x s = Ok (s', out)"
  moreover from this have "state_wf (co_crypto co) (s\<lparr>dag := dag_insert (co_crypto co) x (dag s)\<rparr>)"
    by (intro wf_intros) (simp add: committed_below_def)
  ultimately show "committed_below (co_crypto co) s' (acc @ out)" by (intro committed_below_step)
qed

lemma consensus_of_simps [simp]:
  "co_crypto (consensus_of nd env) = nd_crypto nd" "co_committee (consensus_of nd env) = nd_committee nd"
  "co_gc_depth (consensus_of nd env) = nd_gc_depth nd" "co_genesis (consensus_of nd env) = genesis (nd_committee nd)"
  by (simp_all add: consensus_of_def consensus_new_simps)

lemma consensus_run_below:
  assumes "consensus_run (consensus_of nd env) xs = Ok (st, sequence)"
  shows "committed_below (nd_crypto nd) st sequence"
proof -
  have "state_wf (nd_crypto nd) (state_new (nd_crypto nd) (genesis (nd_committee nd)))"
    using commit_inv_start [of "nd_crypto nd" env "nd_committee nd" "nd_gc_depth nd"] by (simp add: commit_inv_def consensus_new_simps)
  then have "committed_below (nd_crypto nd) (state_new (nd_crypto nd) (genesis (nd_committee nd))) []"
    by (simp add: committed_below_def)
  then show ?thesis
    using committed_below_run [of "consensus_of nd env" xs _ st sequence "[]"] assms by (simp add: consensus_run_def)
qed

lemma fold_rounds_le: "fold (\<lambda>x r. max (cert_round x) r) xs r \<le> b \<longleftrightarrow> r \<le> b \<and> (\<forall>x \<in> set xs. cert_round x \<le> b)" for b :: round
  by (induction xs arbitrary: r) auto

lemma authority_spawned:
  assumes "authority_spawn nd params env d = Ok (n, begun)"
  obtains st where "primary_spawn nd params env d = Ok (an_primary n, st)"
    "an_consensus n = state_new (nd_crypto nd) (genesis (nd_committee nd))" "rx_new_certificates n = []" "rx_output n = []"
    "rx_consensus (an_primary n) = []" "synced (an_primary n)" "consensus_round (an_primary n) = 0"
proof -
  obtain p st where p: "primary_spawn nd params env d = Ok (p, st)"
    and n: "n = \<lparr>an_primary = p, an_consensus = state_new (nd_crypto nd) (genesis (nd_committee nd)), rx_new_certificates = [], rx_output = []\<rparr>"
    using assms by (auto simp: authority_spawn_def and_then_Ok_iff Let_def)
  have "rx_consensus p = []"
    using p by (auto simp: primary_spawn_def and_then_Ok_iff case_prod_unfold split: sum.splits)
  then show thesis using that [of st] p n primary_spawn_fields [OF p] by (simp add: synced_def)
qed

section \<open>Properties\<close>

text \<open>
  C5: The consensus of an authority is driven by its primary and by nothing else: however the tasks interleave, its state and the
  certificates it has ordered are those of running it on the certificates that the core task has sent, in that order, less
  those still in the channel. The counter by which the primary collects garbage is the highest round among the ordered
  certificates it has taken, so it never passes the last committed round of consensus.
\<close>

theorem authority_joins_tasks:
  assumes "authority_spawn nd params env d = Ok (n, begun)" and "authority_run nd params env events n = (Ok (), n', out)"
  shows "\<exists>xs sequence taken. to_consensus (primary_outs out) = xs @ rx_new_certificates n' \<and>
    consensus_run (consensus_of nd env) xs = Ok (an_consensus n', sequence) \<and> ordered out = map fst sequence \<and>
    ordered out = taken @ rx_consensus (an_primary n') \<and> consensus_round (an_primary n') = highest_round taken \<and>
    consensus_round (an_primary n') \<le> last_committed_round (an_consensus n')"
proof -
  from authority_spawned [OF assms(1)]
  have n: "an_consensus n = state_new (nd_crypto nd) (genesis (nd_committee nd))" "rx_new_certificates n = []"
    "rx_consensus (an_primary n) = []" "synced (an_primary n)" "consensus_round (an_primary n) = 0" by metis+
  obtain xs sequence taken where run: "to_consensus (primary_outs out) = xs @ rx_new_certificates n'"
    "each (consensus_step (consensus_of nd env)) xs (an_consensus n) = Ok (an_consensus n', sequence)" "ordered out = map fst sequence"
    "ordered out = taken @ rx_consensus (an_primary n')"
    "consensus_round (an_primary n') = fold (\<lambda>x r. max (cert_round x) r) taken 0"
    using joined_run [OF assms(2)] n by (auto simp: joined_def)
  have consensus: "consensus_run (consensus_of nd env) xs = Ok (an_consensus n', sequence)"
    using run(2) n(1) by (simp add: consensus_run_def)
  from consensus_run_below [OF this]
  have "\<forall>x \<in> set (taken @ rx_consensus (an_primary n')). cert_round x \<le> last_committed_round (an_consensus n')"
    unfolding run(4) [symmetric] run(3) by (simp add: committed_below_def)
  then have "consensus_round (an_primary n') \<le> last_committed_round (an_consensus n')"
    unfolding run(5) fold_rounds_le by simp
  then show ?thesis
    using run consensus by (intro exI [of _ xs] exI [of _ sequence] exI [of _ taken] conjI) (simp_all add: highest_round_def)
qed

section \<open>Agreement between authorities\<close>

text \<open>The certificates that the consensus of an authority has processed.\<close>

definition processed :: "'db authority_node \<Rightarrow> authority_output list \<Rightarrow> certificate list" where
  "processed n out =
     (let sent = to_consensus (primary_outs out) in take (length sent - length (rx_new_certificates n)) sent)"

text \<open>No stored header has the id of a parent of a certificate sent to consensus.\<close>

definition ids_apart :: "'db node \<Rightarrow> primary_output list \<Rightarrow> bool" where
  "ids_apart nd out \<longleftrightarrow>
     (\<forall>h x. StoreWrite (digest_to_vec (h_id h)) (ser_header (nd_codec nd) h) \<in> set (core_actions out) \<and> x \<in> set (to_consensus out) \<longrightarrow>
        h_id h \<notin> set (h_parents (c_header x)))"

lemma to_consensus_split:
  assumes "to_consensus out = pre @ x # post"
  obtains pre' post' where "core_actions out = pre' @ ToConsensus x # post'" "{z. ToConsensus z \<in> set pre'} = set pre"
proof -
  have "\<exists>pre' post'. core_actions out = pre' @ ToConsensus x # post' \<and> {z. ToConsensus z \<in> set pre'} = set pre"
    using assms
  proof (induction out arbitrary: pre)
    case Nil
    then show ?case by simp
  next
    case (Cons a out)
    show ?case
    proof (cases "\<exists>c. a = CoreAction c")
      case False
      then have "to_consensus (a # out) = to_consensus out" "core_actions (a # out) = core_actions out"
        by (auto simp: to_consensus_def core_actions_def split: primary_output.split)
      then show ?thesis using Cons by simp
    next
      case True
      then obtain c where c: "core_actions (a # out) = c # core_actions out" "a = CoreAction c" by (auto simp: core_actions_def)
      show ?thesis
      proof (cases "\<exists>y. c = ToConsensus y")
        case False
        then have "to_consensus out = pre @ x # post" using Cons.prems c(2) by (auto simp: to_consensus_def split: core_action.splits)
        from Cons.IH [OF this] obtain pre' post' where "core_actions out = pre' @ ToConsensus x # post'" "{z. ToConsensus z \<in> set pre'} = set pre"
          by blast
        then show ?thesis using c(1) False by (intro exI [of _ "c # pre'"] exI [of _ post']) auto
      next
        case True
        then obtain y where y: "c = ToConsensus y" "y # to_consensus out = pre @ x # post"
          using Cons.prems c(2) by (auto simp: to_consensus_def)
        show ?thesis
        proof (cases pre)
          case Nil
          then show ?thesis using c(1) y by (intro exI [of _ "[]"] exI [of _ "core_actions out"]) simp
        next
          case (Cons z zs)
          then have "to_consensus out = zs @ x # post" using y(2) by simp
          from Cons.IH [OF this] obtain pre' post' where "core_actions out = pre' @ ToConsensus x # post'" "{z. ToConsensus z \<in> set pre'} = set zs"
            by blast
          then show ?thesis using c(1) y Cons by (intro exI [of _ "c # pre'"] exI [of _ post']) auto
        qed
      qed
    qed
  qed
  then show thesis using that by blast
qed

lemma causally_delivered_prefixes:
  "(\<And>pre x post. xs = pre @ x # post \<Longrightarrow> set (h_parents (c_header x)) \<subseteq> known \<union> cert_digest dk ` set pre) \<Longrightarrow>
   causally_delivered dk known xs"
proof (induction xs arbitrary: known)
  case (Cons x xs)
  have "set (h_parents (c_header y)) \<subseteq> insert (cert_digest dk x) known \<union> cert_digest dk ` set pre"
    if "xs = pre @ y # post" for pre y post
    using Cons.prems [of "x # pre" y post] that by auto
  then show ?case using Cons.IH Cons.prems [of "[]" x xs] by simp
qed simp

text \<open>What a primary with an empty store sends to consensus is in causal order.\<close>

lemma sent_causally:
  assumes "rocksdb_ok (nd_rocksdb nd)" and "primary_spawn nd params env d = Ok (p, begun)" and "\<And>k. stored (nd_rocksdb nd) d k = None"
    and "primary_run nd params events p = (r, p', out)" and "ids_apart nd out" and "to_consensus out = xs @ ys"
  shows "causally_delivered (nd_crypto nd) (cert_digest (nd_crypto nd) ` set (genesis (nd_committee nd))) xs"
proof (rule causally_delivered_prefixes)
  fix pre x post
  assume "xs = pre @ x # post"
  then have split: "to_consensus out = pre @ x # (post @ ys)" using assms(6) by simp
  then obtain pre' post' where core: "core_actions out = pre' @ ToConsensus x # post'" "{z. ToConsensus z \<in> set pre'} = set pre"
    by (rule to_consensus_split)
  have "causal nd (core_new d) (pr_core p') (core_actions out)"
    using primary_causal.run_rel [OF assms(4), of "consensus_round p'"] primary_spawn_fields [OF assms(2)] by simp
  then have "known_parents nd (announced nd pre') x"
    using assms(1,3) core(1) by (simp add: causal_def keys_def has_key_def core_new_def)
  moreover have "x \<in> set (to_consensus out)" using split by simp
  ultimately show "set (h_parents (c_header x)) \<subseteq>
      cert_digest (nd_crypto nd) ` set (genesis (nd_committee nd)) \<union> cert_digest (nd_crypto nd) ` set pre"
    using assms(5) core
    by (fastforce simp: known_parents_def announced_def ids_apart_def is_genesis_digest_def sync_genesis_def)
qed

lemma processed_on_chain:
  assumes "rocksdb_ok (nd_rocksdb nd)" and "authority_spawn nd params env d = Ok (n, begun)" and "\<And>k. stored (nd_rocksdb nd) d k = None"
    and "authority_run nd params env events n = (Ok (), n', out)" and "ids_apart nd (primary_outs out)"
    and "certified (nd_crypto nd) (nd_committee nd) G" and "set (to_consensus (primary_outs out)) \<subseteq> G" and "unat (nd_gc_depth nd) < 2 ^ 63"
  shows "\<exists>st. on_chain (nd_crypto nd) (nd_committee nd) G st (map outline (committed_leaders (consensus_of nd env) (processed n' out)))"
proof -
  from authority_spawned [OF assms(2)] obtain begun' where n: "primary_spawn nd params env d = Ok (an_primary n, begun')"
    "an_consensus n = state_new (nd_crypto nd) (genesis (nd_committee nd))" "rx_new_certificates n = []" by metis
  obtain xs st sequence where xs: "to_consensus (primary_outs out) = xs @ rx_new_certificates n'"
    "consensus_run (consensus_of nd env) xs = Ok (st, sequence)"
    using joined_run [OF assms(4)] n(2,3) by (auto simp: joined_def consensus_run_def)
  obtain pevents r' where run: "primary_run nd params pevents (an_primary n) = (r', an_primary n', primary_outs out)"
    using authority_run_primary [OF assms(4)] by blast
  have "causally_delivered (nd_crypto nd) (cert_digest (nd_crypto nd) ` set (genesis (nd_committee nd))) xs"
    by (rule sent_causally [OF assms(1) n(1) assms(3) run assms(5) xs(1)])
  moreover have "set xs \<subseteq> G" using assms(7) xs(1) by auto
  moreover have "processed n' out = xs" using xs(1) by (simp add: processed_def)
  ultimately show ?thesis
    using committed_leaders_on_chain [OF assms(6,8), of xs env st sequence] xs(2) unfolding consensus_of_def by blast
qed

text \<open>
  The authorities commit the same leaders: two authorities that start from empty stores, each with its own schedule, its own
  environment and its own garbage collection depth, have committed leaders of which one sequence is a prefix of the
  other, as long as what their primaries sent to consensus is a certified DAG.
  The order in which consensus must receive the certificates is not a hypothesis: the primaries guarantee it.
\<close>

theorem authorities_agree:
  assumes "nd_crypto nd' = nd_crypto nd" "nd_committee nd' = nd_committee nd"
    and "rocksdb_ok (nd_rocksdb nd)" "rocksdb_ok (nd_rocksdb nd')"
    and "unat (nd_gc_depth nd) < 2 ^ 63" "unat (nd_gc_depth nd') < 2 ^ 63"
    and "authority_spawn nd params env d = Ok (n, begun)" "\<And>k. stored (nd_rocksdb nd) d k = None"
    and "authority_spawn nd' params' env' d' = Ok (m, begun')" "\<And>k. stored (nd_rocksdb nd') d' k = None"
    and "authority_run nd params env events n = (Ok (), n', out)" "authority_run nd' params' env' events' m = (Ok (), m', out')"
    and "certified (nd_crypto nd) (nd_committee nd) (set (to_consensus (primary_outs out)) \<union> set (to_consensus (primary_outs out')))"
    and "ids_apart nd (primary_outs out)" "ids_apart nd' (primary_outs out')"
  shows "prefix (map outline (committed_leaders (consensus_of nd env) (processed n' out)))
      (map outline (committed_leaders (consensus_of nd' env') (processed m' out'))) \<or>
    prefix (map outline (committed_leaders (consensus_of nd' env') (processed m' out')))
      (map outline (committed_leaders (consensus_of nd env) (processed n' out)))"
proof -
  let ?G = "set (to_consensus (primary_outs out)) \<union> set (to_consensus (primary_outs out'))"
  obtain st where one: "on_chain (nd_crypto nd) (nd_committee nd) ?G st (map outline (committed_leaders (consensus_of nd env) (processed n' out)))"
    using processed_on_chain [OF assms(3,7,8,11,14,13) _ assms(5)] by blast
  obtain st' where two: "on_chain (nd_crypto nd) (nd_committee nd) ?G st' (map outline (committed_leaders (consensus_of nd' env') (processed m' out')))"
    using processed_on_chain [OF assms(4,9,10,12,15) _ _ assms(6), of ?G] assms(1,2,13) by auto
  show ?thesis by (rule on_chain_agree [OF assms(13) one two])
qed

section \<open>Concrete authorities\<close>

lemma ex_causal_actions:
  assumes "pr_core p = core_new []" and "consensus_round p = 0" and "rx_primary_messages p = []"
  shows "\<exists>p' out. primary_run ex_node parameters_default ex_causal_flow p = (Ok (), p', out) \<and>
    to_consensus out = [ex_certified_block] \<and>
    (\<forall>k v. StoreWrite k v \<in> set (core_actions out) \<longrightarrow>
      k \<in> {digest_to_vec (Digest 259), digest_to_vec (cert_digest ex_dalek ex_certified_block)})"
  using assms ex_appended
  by (auto simp add: ex_causal_flow_def primary_run_def network_task_def dispatch_primary_def ex_bincode_def receive_def core_task_def
      core_eval ex_block_sane ex_certified_sane ex_deliver acks_sent_def core_actions_def to_consensus_def is_processing_def
      simp del: header_with_fuel.simps cong: op_congs)

lemma authority_run_primary_events:
  assumes "primary_run nd params events (an_primary n) = (Ok (), p, out)" and "\<And>x. ConsensusOrdered x \<notin> set events"
  shows "authority_run nd params env (map PrimaryEvent events) n =
    (Ok (), n\<lparr>an_primary := p, rx_new_certificates := rx_new_certificates n @ to_consensus out\<rparr>, map PrimaryOutput out)"
  using assms
proof (induction events arbitrary: n out)
  case Nil
  then show ?case by (simp add: authority_run_def primary_run_def)
next
  case (Cons ev events)
  obtain q out1 out2 where 1: "primary_step nd params ev (an_primary n) = (Ok (), q, out1)"
    and 2: "primary_run nd params events q = (Ok (), p, out2)" and out: "out = out1 @ out2"
    using Cons.prems(1) by (auto simp: primary_run_def op_then_def op_bind_def split: prod.splits sum.splits)
  let ?n = "n\<lparr>an_primary := q, rx_new_certificates := rx_new_certificates n @ to_consensus out1\<rparr>"
  have "authority_step nd params env (PrimaryEvent ev) n = primary_part nd params ev n"
    using Cons.prems(2) [of "case ev of ConsensusOrdered x \<Rightarrow> x"] by (auto split: primary_event.split)
  then have "authority_step nd params env (PrimaryEvent ev) n = (Ok (), ?n, map PrimaryOutput out1)"
    by (simp add: primary_part_def 1)
  moreover have "authority_run nd params env (map PrimaryEvent events) ?n =
      (Ok (), ?n\<lparr>an_primary := p, rx_new_certificates := rx_new_certificates ?n @ to_consensus out2\<rparr>, map PrimaryOutput out2)"
    using 2 Cons.prems(2) by (intro Cons.IH) auto
  ultimately show ?case by (simp add: authority_run_def op_then_def op_bind_def out)
qed

lemma ex_certified_digest: "cert_digest ex_dalek ex_certified_block = Digest 258"
  by (simp add: cert_digest_def ex_hash32 vote_bytes_nth cert_round_def cert_origin_def ex_block_def)

definition ex_authority_events :: "authority_event list" where
  "ex_authority_events = map PrimaryEvent ex_causal_flow @ [ConsensusReceives]"

lemma ex_authority_run:
  obtains n begun n' out where "authority_spawn ex_node parameters_default Map.empty [] = Ok (n, begun)"
    "authority_run ex_node parameters_default Map.empty ex_authority_events n = (Ok (), n', out)"
    "to_consensus (primary_outs out) = [ex_certified_block]" "rx_new_certificates n' = []" "ids_apart ex_node (primary_outs out)"
proof -
  obtain p begun where p: "primary_spawn ex_node parameters_default Map.empty [] = Ok (p, begun)" by (rule ex_primary_spawn)
  define n where "n = \<lparr>an_primary = p, an_consensus = state_new ex_dalek (genesis ex_committee), rx_new_certificates = [], rx_output = []\<rparr>"
  have spawn: "authority_spawn ex_node parameters_default Map.empty [] = Ok (n, map PrimaryOutput begun)"
    by (simp add: authority_spawn_def p n_def)
  obtain p' out where run: "primary_run ex_node parameters_default ex_causal_flow (an_primary n) = (Ok (), p', out)"
    and sent: "to_consensus out = [ex_certified_block]"
    and writes: "\<forall>k v. StoreWrite k v \<in> set (core_actions out) \<longrightarrow>
      k \<in> {digest_to_vec (Digest 259), digest_to_vec (cert_digest ex_dalek ex_certified_block)}"
    using ex_causal_actions [of p] primary_spawn_fields [OF p] by (auto simp: n_def)
  let ?n = "n\<lparr>an_primary := p', rx_new_certificates := [ex_certified_block]\<rparr>"
  have "authority_run ex_node parameters_default Map.empty (map PrimaryEvent ex_causal_flow) n = (Ok (), ?n, map PrimaryOutput out)"
    using authority_run_primary_events [OF run, of Map.empty] sent by (simp add: ex_causal_flow_def n_def)
  moreover obtain st where "consensus_step (consensus_of ex_node Map.empty) ex_certified_block (an_consensus n) = Ok (st, [])"
    by (simp add: consensus_step_def try_commit_def cert_round_def)
  then have "authority_run ex_node parameters_default Map.empty [ConsensusReceives] ?n =
      (Ok (), ?n\<lparr>rx_new_certificates := [], an_consensus := st\<rparr>, [])"
    by (simp add: authority_run_def receive_def consensus_part_def op_then_def op_bind_def n_def)
  ultimately have "authority_run ex_node parameters_default Map.empty ex_authority_events n =
      (Ok (), ?n\<lparr>rx_new_certificates := [], an_consensus := st\<rparr>, map PrimaryOutput out)"
    by (simp add: ex_authority_events_def authority_run_def op_for_append op_then_def op_bind_def)
  moreover have "ids_apart ex_node out"
    using writes sent ex_certified_digest by (fastforce simp: ids_apart_def ex_block_def)
  ultimately show thesis using that [OF spawn] sent by simp
qed

theorem authority_joins_tasks_witness:
  "\<exists>n begun n' out sequence. authority_spawn ex_node parameters_default Map.empty [] = Ok (n, begun) \<and>
     authority_run ex_node parameters_default Map.empty ex_authority_events n = (Ok (), n', out) \<and>
     consensus_run (consensus_of ex_node Map.empty) [ex_certified_block] = Ok (an_consensus n', sequence) \<and>
     consensus_round (an_primary n') \<le> last_committed_round (an_consensus n')"
proof -
  obtain n begun n' out where run: "authority_spawn ex_node parameters_default Map.empty [] = Ok (n, begun)"
    "authority_run ex_node parameters_default Map.empty ex_authority_events n = (Ok (), n', out)"
    "to_consensus (primary_outs out) = [ex_certified_block]" "rx_new_certificates n' = []"
    by (rule ex_authority_run)
  from authority_joins_tasks [OF run(1,2)] run show ?thesis by auto
qed

theorem authorities_agree_witness:
  "\<exists>n begun n' out m'. authority_spawn ex_node parameters_default Map.empty [] = Ok (n, begun) \<and>
     authority_run ex_node parameters_default Map.empty ex_authority_events n = (Ok (), n', out) \<and>
     authority_run ex_node parameters_default Map.empty [] n = (Ok (), m', []) \<and>
     processed n' out = [ex_certified_block] \<and>
     (prefix (map outline (committed_leaders (consensus_of ex_node Map.empty) (processed n' out)))
        (map outline (committed_leaders (consensus_of ex_node Map.empty) (processed m' []))) \<or>
      prefix (map outline (committed_leaders (consensus_of ex_node Map.empty) (processed m' [])))
        (map outline (committed_leaders (consensus_of ex_node Map.empty) (processed n' out))))"
proof -
  obtain n begun n' out where run: "authority_spawn ex_node parameters_default Map.empty [] = Ok (n, begun)"
    "authority_run ex_node parameters_default Map.empty ex_authority_events n = (Ok (), n', out)"
    "to_consensus (primary_outs out) = [ex_certified_block]" "rx_new_certificates n' = []" "ids_apart ex_node (primary_outs out)"
    by (rule ex_authority_run)
  have empty: "stored ex_rocksdb [] k = None" for k by (simp add: stored_def ex_rocksdb_def)
  have idle: "authority_run ex_node parameters_default Map.empty [] n = (Ok (), n, [])" by (simp add: authority_run_def)
  have "cert_digest ex_dalek ex_certified_block \<noteq> cert_digest ex_dalek y" if "y \<in> set (genesis ex_committee)" for y
  proof -
    have "cert_digest ex_dalek y \<in> fst ` set (sync_genesis ex_node)" using that by (auto simp: sync_genesis_def image_image)
    then show ?thesis unfolding ex_certified_digest ex_sync_genesis by auto
  qed
  then have "certified ex_dalek ex_committee {ex_certified_block}"
    using ex_committee_ok by (auto simp: certified_def cert_round_def ex_block_def)
  then show ?thesis
    using authorities_agree [of ex_node ex_node parameters_default Map.empty "[]" n begun parameters_default Map.empty "[]" n begun
        ex_authority_events n' out "[]" n "[]"] run idle empty
    by (auto simp: processed_def ids_apart_def core_actions_def)
qed

end
