(* ===== verification/Network.thy ===== *)
theory Network
  imports PrimaryNode "HOL-Library.Sublist"
begin

text \<open>
  The crate \<open>network\<close>: the reliable sender and its connections, the best-effort sender, and the receiver.
  TCP is the environment: a connection takes events (connected, failed, acknowledged) in any order the
  code can receive them. A cancel handler is a number, and a handler is closed when its owner dropped it.
\<close>

section \<open>Errors\<close>

text \<open>The I/O error inside some constructors is only logged and is left out.\<close>

datatype network_error =
  FailedToConnect socket_addr u16
| FailedToListen
| FailedToSendMessage socket_addr
| FailedToReceiveMessage socket_addr
| FailedToReceiveAck socket_addr
| UnexpectedAck socket_addr

section \<open>Reliable sender\<close>

record inner_message =
  im_data :: bytes
  im_handler :: nat

text \<open>The channel of each connection, with the messages that wait in it.\<close>

record reliable_sender =
  rs_connections :: "socket_addr \<Rightarrow> inner_message list option"
  rs_next_handler :: nat

definition reliable_sender_new :: reliable_sender where
  "reliable_sender_new = \<lparr>rs_connections = Map.empty, rs_next_handler = 0\<rparr>"

definition reliable_send :: "socket_addr \<Rightarrow> bytes \<Rightarrow> reliable_sender \<Rightarrow> nat \<times> reliable_sender" where
  "reliable_send a bs s =
     (let n = rs_next_handler s;
          queue = (case rs_connections s a of None \<Rightarrow> [] | Some ms \<Rightarrow> ms)
      in (n, s\<lparr>rs_connections := (rs_connections s)(a \<mapsto> queue @ [\<lparr>im_data = bs, im_handler = n\<rparr>]),
               rs_next_handler := Suc n\<rparr>))"

fun reliable_broadcast :: "socket_addr list \<Rightarrow> bytes \<Rightarrow> reliable_sender \<Rightarrow> nat list \<times> reliable_sender" where
  "reliable_broadcast [] bs s = ([], s)"
| "reliable_broadcast (a # addresses) bs s =
     (case reliable_send a bs s of (h, s1) \<Rightarrow>
        (case reliable_broadcast addresses bs s1 of (hs, s2) \<Rightarrow> (h # hs, s2)))"

text \<open>Shuffling with the random generator is a parameter.\<close>

definition reliable_lucky_broadcast ::
  "(socket_addr list \<Rightarrow> socket_addr list) \<Rightarrow> socket_addr list \<Rightarrow> bytes \<Rightarrow> usize \<Rightarrow> reliable_sender
   \<Rightarrow> nat list \<times> reliable_sender" where
  "reliable_lucky_broadcast shuffle addresses bs nodes = reliable_broadcast (take (unat nodes) (shuffle addresses)) bs"

section \<open>Connections of the reliable sender\<close>

text \<open>
  The places where the task of a connection stops: connecting, waiting to reconnect, emptying its
  buffer, and listening. The last two hold the messages sent but not acknowledged.
\<close>

datatype connection_phase =
  Connecting
| Waiting
| Flushing "inner_message list"
| Listening "inner_message list"

record connection =
  cn_address :: socket_addr
  cn_buffer :: "inner_message list"
  cn_delay :: u64
  cn_retry :: u16
  cn_phase :: connection_phase

definition retry_delay :: u64 where
  "retry_delay = 200"

definition connection_new :: "socket_addr \<Rightarrow> connection" where
  "connection_new a = \<lparr>cn_address = a, cn_buffer = [], cn_delay = retry_delay, cn_retry = 0, cn_phase = Connecting\<rparr>"

datatype connection_event =
  Connected
| ConnectFailed
| TimerElapsed
| Receive inner_message
| Flush "nat option"
| Response "bytes option"

datatype connection_action =
  SentMessage inner_message
| Notified inner_message bytes
| Failed network_error

text \<open>
  The inner loop of \<open>keep_alive\<close>: cancelled messages are skipped, the others sent until a send fails
  (after \<open>n\<close> sends, when \<open>fails = Some n\<close>). The results are the buffer, the unacknowledged messages, those
  sent, and whether all went well.
\<close>

fun flush_buffer :: "(nat \<Rightarrow> bool) \<Rightarrow> nat option \<Rightarrow> inner_message list \<Rightarrow> inner_message list
    \<Rightarrow> inner_message list \<times> inner_message list \<times> inner_message list \<times> bool" where
  "flush_buffer closed fails [] pending = ([], pending, [], True)"
| "flush_buffer closed fails (m # buffer) pending =
     (if closed (im_handler m) then flush_buffer closed fails buffer pending
      else if fails = Some 0 then (m # buffer, pending, [], False)
      else
        (case flush_buffer closed (map_option (\<lambda>n. n - 1) fails) buffer (pending @ [m]) of
           (buffer', pending', sent, ok) \<Rightarrow> (buffer', pending', m # sent, ok)))"

text \<open>Leaving \<open>keep_alive\<close>: the unacknowledged messages go back to the front of the buffer.\<close>

definition drop_connection :: "inner_message list \<Rightarrow> network_error \<Rightarrow> connection \<Rightarrow> connection \<times> connection_action list" where
  "drop_connection pending e c = (c\<lparr>cn_buffer := pending @ cn_buffer c, cn_phase := Connecting\<rparr>, [Failed e])"

text \<open>One step of the task, for the handlers closed at that moment; \<open>None\<close> where the event cannot occur.\<close>

fun connection_step ::
  "(nat \<Rightarrow> bool) \<Rightarrow> connection_event \<Rightarrow> connection \<Rightarrow> (connection \<times> connection_action list) option" where
  "connection_step closed ev c =
     (case cn_phase c of
        Connecting \<Rightarrow>
          (case ev of
             Connected \<Rightarrow> Some (c\<lparr>cn_delay := retry_delay, cn_retry := 0, cn_phase := Flushing []\<rparr>, [])
           | ConnectFailed \<Rightarrow> Some (c\<lparr>cn_phase := Waiting\<rparr>, [Failed (FailedToConnect (cn_address c) (cn_retry c))])
           | _ \<Rightarrow> None)
      | Waiting \<Rightarrow>
          (case ev of
             TimerElapsed \<Rightarrow>
               Some (c\<lparr>cn_delay := min (2 * cn_delay c) 60000, cn_retry := cn_retry c + 1, cn_phase := Connecting\<rparr>, [])
           | Receive m \<Rightarrow>
               Some (c\<lparr>cn_buffer := filter (\<lambda>m. \<not> closed (im_handler m)) (cn_buffer c @ [m])\<rparr>, [])
           | _ \<Rightarrow> None)
      | Flushing pending \<Rightarrow>
          (case ev of
             Flush fails \<Rightarrow>
               (case flush_buffer closed fails (cn_buffer c) pending of (buffer, pending', sent, ok) \<Rightarrow>
                  if ok then Some (c\<lparr>cn_buffer := buffer, cn_phase := Listening pending'\<rparr>, map SentMessage sent)
                  else (case drop_connection pending' (FailedToSendMessage (cn_address c)) (c\<lparr>cn_buffer := buffer\<rparr>) of
                          (c', out) \<Rightarrow> Some (c', map SentMessage sent @ out)))
           | _ \<Rightarrow> None)
      | Listening pending \<Rightarrow>
          (case ev of
             Receive m \<Rightarrow> Some (c\<lparr>cn_buffer := cn_buffer c @ [m], cn_phase := Flushing pending\<rparr>, [])
           | Response reply \<Rightarrow>
               (case pending of
                  [] \<Rightarrow> Some (drop_connection [] (UnexpectedAck (cn_address c)) c)
                | m # rest \<Rightarrow>
                    (case reply of
                       Some bs \<Rightarrow> Some (c\<lparr>cn_phase := Flushing rest\<rparr>, [Notified m bs])
                     | None \<Rightarrow> Some (drop_connection (m # rest) (FailedToReceiveAck (cn_address c)) c)))
           | _ \<Rightarrow> None))"

declare connection_step.simps [simp del]

text \<open>
  Histories of a connection: the messages submitted to it, the handlers seen closed so far, its state
  and its outputs.
\<close>

definition submits :: "connection_event \<Rightarrow> inner_message list" where
  "submits ev = (case ev of Receive m \<Rightarrow> [m] | _ \<Rightarrow> [])"

inductive connection_run ::
  "socket_addr \<Rightarrow> inner_message list \<Rightarrow> nat set \<Rightarrow> connection \<Rightarrow> connection_action list \<Rightarrow> bool" for a where
  run_start: "connection_run a [] {} (connection_new a) []"
| run_step: "connection_run a submitted gone c out \<Longrightarrow> connection_step closed ev c = Some (c', out') \<Longrightarrow>
    connection_run a (submitted @ submits ev) (gone \<union> Collect closed) c' (out @ out')"

inductive_cases connection_runE: "connection_run a submitted gone c out"

section \<open>Nothing is lost, and order is kept\<close>

definition unacknowledged :: "connection \<Rightarrow> inner_message list" where
  "unacknowledged c = (case cn_phase c of Flushing p \<Rightarrow> p | Listening p \<Rightarrow> p | _ \<Rightarrow> [])"

definition outstanding :: "connection \<Rightarrow> inner_message list" where
  "outstanding c = unacknowledged c @ cn_buffer c"

definition notified :: "connection_action list \<Rightarrow> inner_message list" where
  "notified out = concat (map (\<lambda>a. case a of Notified m _ \<Rightarrow> [m] | _ \<Rightarrow> []) out)"

definition sent_messages :: "connection_action list \<Rightarrow> inner_message set" where
  "sent_messages out = {m. SentMessage m \<in> set out}"

lemma notified_simps [simp]:
  "notified [] = []"
  "notified (a # out) = (case a of Notified m _ \<Rightarrow> m # notified out | _ \<Rightarrow> notified out)"
  "notified (out1 @ out2) = notified out1 @ notified out2"
  "notified (map SentMessage ms) = []"
  by (auto simp: notified_def split: connection_action.split)

lemma sent_messages_append [simp]: "sent_messages (out1 @ out2) = sent_messages out1 \<union> sent_messages out2"
  by (auto simp: sent_messages_def)

lemma flush_buffer_result:
  assumes "flush_buffer closed fails buffer pending = (buffer', pending', sent, ok)"
  shows "pending' = pending @ sent \<and> subseq (sent @ buffer') buffer \<and>
    (\<forall>m \<in> set buffer. closed (im_handler m) \<or> m \<in> set sent \<or> m \<in> set buffer') \<and> (ok \<longrightarrow> buffer' = [])"
  using assms
proof (induction buffer arbitrary: fails pending sent)
  case Nil
  then show ?case by simp
next
  case (Cons m buffer)
  consider (skipped) "closed (im_handler m)" | (failed) "\<not> closed (im_handler m)" "fails = Some 0"
    | (sent) "\<not> closed (im_handler m)" "fails \<noteq> Some 0" by blast
  then show ?case
  proof cases
    case skipped
    then show ?thesis using Cons by (auto intro: list_emb_Cons)
  next
    case failed
    then show ?thesis using Cons.prems by auto
  next
    case sent
    then obtain sent1 where rest: "flush_buffer closed (map_option (\<lambda>n. n - 1) fails) buffer (pending @ [m]) =
        (buffer', pending', sent1, ok)" "sent = m # sent1"
      using Cons.prems by (auto split: prod.splits)
    with Cons.IH [OF rest(1)] show ?thesis by auto
  qed
qed

text \<open>The invariant of a history.\<close>

definition connection_inv :: "inner_message list \<Rightarrow> nat set \<Rightarrow> connection \<Rightarrow> connection_action list \<Rightarrow> bool" where
  "connection_inv submitted gone c out \<longleftrightarrow>
     subseq (notified out @ outstanding c) submitted \<and>
     (\<forall>m \<in> set submitted. im_handler m \<in> gone \<or> m \<in> set (notified out) \<or> m \<in> set (outstanding c)) \<and>
     set (unacknowledged c) \<union> set (notified out) \<subseteq> sent_messages out \<and>
     200 \<le> cn_delay c \<and> cn_delay c \<le> 60000"

lemma delay_bounds:
  fixes d :: u64
  assumes "200 \<le> d" "d \<le> 60000"
  shows "200 \<le> min (2 * d) 60000" "min (2 * d) 60000 \<le> 60000"
proof -
  have "unat (2 * d) = 2 * unat d"
    using assms(2) by (simp add: unat_word_ariths word_le_nat_alt)
  then show "200 \<le> min (2 * d) 60000" using assms by (simp add: min_def word_le_nat_alt)
  show "min (2 * d) 60000 \<le> 60000" by simp
qed

lemma connection_inv_flush:
  assumes inv: "connection_inv submitted gone c out" and c: "cn_phase c = Flushing pending"
    and fl: "flush_buffer closed fails (cn_buffer c) pending = (buffer, pending', sent, ok)"
    and c': "unacknowledged c' @ cn_buffer c' = pending' @ buffer" "set (unacknowledged c') \<subseteq> set pending'"
      "cn_delay c' = cn_delay c"
    and out': "notified out' = []" "set sent \<subseteq> sent_messages out'"
  shows "connection_inv submitted (gone \<union> Collect closed) c' (out @ out')"
proof -
  have f: "pending' = pending @ sent" "subseq (sent @ buffer) (cn_buffer c)"
    "\<forall>m \<in> set (cn_buffer c). closed (im_handler m) \<or> m \<in> set sent \<or> m \<in> set buffer"
    using flush_buffer_result [OF fl] by auto
  have o: "outstanding c = pending @ cn_buffer c" "outstanding c' = pending @ sent @ buffer"
    using c c'(1) f(1) by (simp_all add: outstanding_def unacknowledged_def)
  have "subseq (notified out @ pending @ sent @ buffer) (notified out @ pending @ cn_buffer c)"
    by (intro list_emb_append_mono subseq_order.order_refl f(2))
  then have "subseq (notified (out @ out') @ outstanding c') submitted"
    using inv o out'(1) unfolding connection_inv_def by (simp add: subseq_order.order_trans)
  moreover have "\<forall>m \<in> set submitted. im_handler m \<in> gone \<union> Collect closed \<or> m \<in> set (notified (out @ out')) \<or> m \<in> set (outstanding c')"
    using inv f(3) o unfolding connection_inv_def by auto
  moreover have "set (unacknowledged c') \<union> set (notified (out @ out')) \<subseteq> sent_messages (out @ out')"
    using inv c c'(2) f(1) out' unfolding connection_inv_def by (auto simp: unacknowledged_def sent_messages_def)
  ultimately show ?thesis using inv c'(3) unfolding connection_inv_def by simp
qed

lemma connection_inv_quiet:
  assumes "connection_inv submitted gone c out" and "outstanding c' = outstanding c"
    and "unacknowledged c' = unacknowledged c \<or> unacknowledged c' = []"
    and "200 \<le> cn_delay c'" "cn_delay c' \<le> 60000" and "notified out' = []"
  shows "connection_inv submitted (gone \<union> G) c' (out @ out')"
  using assms unfolding connection_inv_def by (auto simp: sent_messages_def)

lemma connection_inv_step:
  assumes inv: "connection_inv submitted gone c out" and step: "connection_step closed ev c = Some (c', out')"
  shows "connection_inv (submitted @ submits ev) (gone \<union> Collect closed) c' (out @ out')"
proof (cases "cn_phase c")
  case Connecting
  then show ?thesis
    using inv step
    by (cases ev) (auto simp: connection_step.simps submits_def retry_delay_def outstanding_def unacknowledged_def
        connection_inv_def intro!: connection_inv_quiet [OF inv])
next
  case Waiting
  then consider "ev = TimerElapsed" "c' = c\<lparr>cn_delay := min (2 * cn_delay c) 60000, cn_retry := cn_retry c + 1, cn_phase := Connecting\<rparr>" "out' = []"
    | m where "ev = Receive m" "c' = c\<lparr>cn_buffer := filter (\<lambda>m. \<not> closed (im_handler m)) (cn_buffer c @ [m])\<rparr>" "out' = []"
    using step by (cases ev) (auto simp: connection_step.simps)
  then show ?thesis
  proof cases
    case 1
    then show ?thesis
      using inv delay_bounds [of "cn_delay c"] Waiting
      by (auto simp: submits_def connection_inv_def outstanding_def unacknowledged_def sent_messages_def)
  next
    case (2 m)
    let ?buffer = "filter (\<lambda>m. \<not> closed (im_handler m)) (cn_buffer c @ [m])"
    have o: "outstanding c = cn_buffer c" "outstanding c' = ?buffer" "unacknowledged c' = []"
      using Waiting 2 by (simp_all add: outstanding_def unacknowledged_def)
    have "subseq (notified out @ ?buffer) (notified out @ cn_buffer c @ [m])"
      by (intro list_emb_append_mono subseq_order.order_refl subseq_filter_left)
    moreover have "subseq (notified out @ cn_buffer c @ [m]) (submitted @ [m])"
      using inv o(1) list_emb_append_mono [of "(=)" "notified out @ cn_buffer c" submitted "[m]" "[m]"]
      unfolding connection_inv_def by simp
    ultimately have "subseq (notified out @ outstanding c') (submitted @ [m])"
      unfolding o(2) by (rule subseq_order.order_trans)
    then show ?thesis
      using inv 2 o unfolding connection_inv_def by (auto simp: submits_def sent_messages_def)
  qed
next
  case (Flushing pending)
  then obtain fails where ev: "ev = Flush fails" using step by (cases ev) (auto simp: connection_step.simps)
  obtain buffer pending' sent ok where fl: "flush_buffer closed fails (cn_buffer c) pending = (buffer, pending', sent, ok)"
    by (metis prod_cases4)
  have "connection_inv submitted (gone \<union> Collect closed) c' (out @ out')"
    by (rule connection_inv_flush [OF inv Flushing fl])
      (use step Flushing ev fl in \<open>auto simp: connection_step.simps drop_connection_def unacknowledged_def
        sent_messages_def split: if_splits\<close>)
  then show ?thesis using ev by (simp add: submits_def)
next
  case (Listening pending)
  then have o: "outstanding c = pending @ cn_buffer c" by (simp add: outstanding_def unacknowledged_def)
  consider m where "ev = Receive m" "c' = c\<lparr>cn_buffer := cn_buffer c @ [m], cn_phase := Flushing pending\<rparr>" "out' = []"
    | m rest bs where "ev = Response (Some bs)" "pending = m # rest" "c' = c\<lparr>cn_phase := Flushing rest\<rparr>" "out' = [Notified m bs]"
    | e where "submits ev = []" "drop_connection pending e c = (c', out')"
    using step Listening
    by (cases ev; cases pending) (auto simp: connection_step.simps submits_def split: option.splits)
  then show ?thesis
  proof cases
    case (1 m)
    have "subseq ((notified out @ pending @ cn_buffer c) @ [m]) (submitted @ [m])"
      using inv o unfolding connection_inv_def by (intro list_emb_append_mono) auto
    then show ?thesis
      using inv 1 o Listening unfolding connection_inv_def
      by (auto simp: submits_def outstanding_def unacknowledged_def sent_messages_def)
  next
    case (2 m rest bs)
    then show ?thesis
      using inv o Listening unfolding connection_inv_def
      by (auto simp: submits_def outstanding_def unacknowledged_def sent_messages_def)
  next
    case (3 e)
    then show ?thesis
      using inv Listening
      by (auto simp: drop_connection_def outstanding_def unacknowledged_def connection_inv_def
          intro!: connection_inv_quiet [OF inv])
  qed
qed

lemma connection_run_inv: "connection_run a submitted gone c out \<Longrightarrow> connection_inv submitted gone c out"
proof (induction rule: connection_run.induct)
  case run_start
  show ?case
    by (simp add: connection_inv_def connection_new_def outstanding_def unacknowledged_def retry_delay_def word_le_nat_alt)
next
  case (run_step submitted gone c out closed ev c' out')
  then show ?case by (blast intro: connection_inv_step)
qed

section \<open>Best-effort sender\<close>

text \<open>
  The addresses with a connection. A connection whose task has ended refuses the message (\<open>alive\<close> is
  false), and a new one is made; the channel of a new connection takes the message.
\<close>

record simple_sender =
  ss_connections :: "socket_addr set"

datatype simple_action =
  OpenConnection socket_addr
| Enqueue socket_addr bytes

definition simple_sender_new :: simple_sender where
  "simple_sender_new = \<lparr>ss_connections = {}\<rparr>"

definition simple_send :: "(socket_addr \<Rightarrow> bool) \<Rightarrow> socket_addr \<Rightarrow> bytes \<Rightarrow> simple_sender \<Rightarrow> simple_sender \<times> simple_action list" where
  "simple_send alive a bs s =
     (if a \<in> ss_connections s \<and> alive a then (s, [Enqueue a bs])
      else (s\<lparr>ss_connections := insert a (ss_connections s)\<rparr>, [OpenConnection a, Enqueue a bs]))"

fun simple_broadcast :: "(socket_addr \<Rightarrow> bool) \<Rightarrow> socket_addr list \<Rightarrow> bytes \<Rightarrow> simple_sender \<Rightarrow> simple_sender \<times> simple_action list" where
  "simple_broadcast alive [] bs s = (s, [])"
| "simple_broadcast alive (a # addresses) bs s =
     (case simple_send alive a bs s of (s1, out1) \<Rightarrow>
        (case simple_broadcast alive addresses bs s1 of (s2, out2) \<Rightarrow> (s2, out1 @ out2)))"

definition simple_lucky_broadcast ::
  "(socket_addr list \<Rightarrow> socket_addr list) \<Rightarrow> (socket_addr \<Rightarrow> bool) \<Rightarrow> socket_addr list \<Rightarrow> bytes \<Rightarrow> usize \<Rightarrow> simple_sender
   \<Rightarrow> simple_sender \<times> simple_action list" where
  "simple_lucky_broadcast shuffle alive addresses bs nodes =
     simple_broadcast alive (take (unat nodes) (shuffle addresses)) bs"

text \<open>A connection of the best-effort sender: it ends at the first failure, with what it sent so far.\<close>

datatype simple_event =
  Transmitted bytes bool
| Reply bool

fun simple_connection :: "simple_event list \<Rightarrow> bytes list \<times> bool" where
  "simple_connection [] = ([], True)"
| "simple_connection (Transmitted bs ok # events) =
     (if ok then case simple_connection events of (sent, up) \<Rightarrow> (bs # sent, up) else ([], False))"
| "simple_connection (Reply ok # events) = (if ok then simple_connection events else ([], False))"

definition simple_connection_run :: "bool \<Rightarrow> simple_event list \<Rightarrow> bytes list \<times> bool" where
  "simple_connection_run connected events = (if connected then simple_connection events else ([], False))"

section \<open>Receiver\<close>

text \<open>
  What a handler does with a message: its outputs, its result, and the state it shares with the handlers of the other
  connections (it is cloned for each). \<open>unshared\<close> is for handlers without such a state.
\<close>

type_synonym ('w, 'o, 'e) handler = "bytes \<Rightarrow> 'w \<Rightarrow> ('o list \<times> ('e, unit) result) \<times> 'w"

definition unshared :: "(bytes \<Rightarrow> 'o list \<times> ('e, unit) result) \<Rightarrow> ('w, 'o, 'e) handler" where
  "unshared dispatch bs w = (dispatch bs, w)"

text \<open>
  The loop of a runner over the frames of a connection (\<open>None\<close> for a frame that failed), when there is no other connection: it hands
  each message to the handler and ends at the first failure.
\<close>

fun runner :: "('w, 'o, 'e) handler \<Rightarrow> bytes option list \<Rightarrow> 'w \<Rightarrow> 'o list \<times> 'w" where
  "runner handle [] w = ([], w)"
| "runner handle (None # frames) w = ([], w)"
| "runner handle (Some bs # frames) w =
     (case handle bs w of ((out, r), w') \<Rightarrow>
        (case r of
           Inl _ \<Rightarrow> (out, w')
         | Inr _ \<Rightarrow> (case runner handle frames w' of (out', w'') \<Rightarrow> (out @ out', w''))))"

text \<open>
  What the receivers rely on in a handler (\<open>MessageHandler\<close>): it takes each message it accepts to exactly
  one task, after an acknowledgement where the sender waits for one.
\<close>

locale message_handler =
  fixes dispatch :: "'c \<Rightarrow> bytes \<Rightarrow> 'o list \<times> ('e, unit) result"
    and decode :: "'c \<Rightarrow> bytes \<Rightarrow> 'm option"
    and route :: "'m \<Rightarrow> 'o"
    and acks :: "'o list"
  assumes accepted: "decode c bs = Some m \<Longrightarrow> dispatch c bs = (acks @ [route m], Ok ())"
    and rejected: "decode c bs = None \<Longrightarrow> \<exists>f. dispatch c bs = (acks, Inl f)"
begin

text \<open>The frames up to the first that fails or does not decode are delivered in order.\<close>

lemma runner_delivers:
  "list_all (\<lambda>bs. decode c bs \<noteq> None) messages \<Longrightarrow>
   fst (runner (unshared (dispatch c)) (map Some messages @ frames) w) =
     concat (map (\<lambda>bs. acks @ [route (the (decode c bs))]) messages) @ fst (runner (unshared (dispatch c)) frames w)"
  by (induction messages) (auto simp: accepted unshared_def split: prod.splits)

lemma runner_stops:
  "list_all (\<lambda>bs. decode c bs \<noteq> None) messages \<Longrightarrow> bad = None \<or> (\<exists>bs. bad = Some bs \<and> decode c bs = None) \<Longrightarrow>
   fst (runner (unshared (dispatch c)) (map Some messages @ bad # frames) w) =
     concat (map (\<lambda>bs. acks @ [route (the (decode c bs))]) messages) @ (if bad = None then [] else acks)"
proof -
  assume "list_all (\<lambda>bs. decode c bs \<noteq> None) messages" and bad: "bad = None \<or> (\<exists>bs. bad = Some bs \<and> decode c bs = None)"
  note ok = runner_delivers [OF this(1), of "bad # frames"]
  show ?thesis
  proof (cases bad)
    case None
    then show ?thesis using ok by simp
  next
    case (Some bs)
    then obtain f where "dispatch c bs = (acks, Inl f)" using bad rejected by blast
    then show ?thesis using ok Some by (simp add: unshared_def)
  qed
qed

end

fun route_primary :: "primary_message \<Rightarrow> primary_delivery" where
  "route_primary (CertificatesRequest missing requestor) = ToHelper missing requestor"
| "route_primary m = ToCore m"

fun route_worker :: "worker_primary_message \<Rightarrow> primary_delivery" where
  "route_worker (OurBatch d wid) = ToProposerDigest d wid"
| "route_worker (OthersBatch d wid) = ToPayloadReceiver d wid"

interpretation primary_handler: message_handler dispatch_primary de_primary_message route_primary "[Ack ack_bytes]"
  by unfold_locales (auto simp: dispatch_primary_def split: primary_message.split)

interpretation worker_handler: message_handler dispatch_worker de_worker_message route_worker "[]"
  by unfold_locales (auto simp: dispatch_worker_def split: worker_primary_message.split)

section \<open>Properties\<close>

text \<open>
  C13: A connection of the reliable sender loses nothing and keeps the order: whatever happens on the
  network, the messages acknowledged to their owners followed by those still to be sent or acknowledged
  are a subsequence of the messages submitted, every message submitted is acknowledged, outstanding or
  cancelled, none is acknowledged that was not transmitted, and the delay before reconnecting stays between
  200 ms and a minute.
\<close>

theorem reliable_connection_keeps_messages:
  assumes "connection_run a submitted gone c out"
  shows "subseq (notified out @ outstanding c) submitted \<and>
    (\<forall>m \<in> set submitted. im_handler m \<in> gone \<or> m \<in> set (notified out) \<or> m \<in> set (outstanding c)) \<and>
    set (notified out) \<subseteq> sent_messages out \<and> 200 \<le> cn_delay c \<and> cn_delay c \<le> 60000"
  using connection_run_inv [OF assms] by (auto simp: connection_inv_def)

definition ex_message :: inner_message where
  "ex_message = \<lparr>im_data = [7], im_handler = 0\<rparr>"

lemma ex_connection_run:
  "\<exists>c. connection_run a [ex_message] {} c
     [Failed (FailedToConnect a 0), SentMessage ex_message, Notified ex_message [65]]"
proof -
  let ?none = "\<lambda>_ :: nat. False"
  have 1: "connection_run a [] {} ((connection_new a)\<lparr>cn_phase := Waiting\<rparr>) [Failed (FailedToConnect a 0)]"
    using run_step [OF run_start, of ?none ConnectFailed a]
    by (simp add: connection_step.simps connection_new_def submits_def)
  have 2: "connection_run a [ex_message] {} ((connection_new a)\<lparr>cn_phase := Waiting, cn_buffer := [ex_message]\<rparr>)
      [Failed (FailedToConnect a 0)]"
    using run_step [OF 1, of ?none "Receive ex_message"]
    by (simp add: connection_step.simps connection_new_def submits_def)
  obtain d r where 3: "connection_run a [ex_message] {} \<lparr>cn_address = a, cn_buffer = [ex_message], cn_delay = d, cn_retry = r,
      cn_phase = Connecting\<rparr> [Failed (FailedToConnect a 0)]"
    using run_step [OF 2, of ?none TimerElapsed]
    by (simp add: connection_step.simps connection_new_def submits_def)
  obtain d r where 4: "connection_run a [ex_message] {} \<lparr>cn_address = a, cn_buffer = [ex_message], cn_delay = d, cn_retry = r,
      cn_phase = Flushing []\<rparr> [Failed (FailedToConnect a 0)]"
    using run_step [OF 3, of ?none Connected] by (simp add: connection_step.simps submits_def)
  have 5: "connection_run a [ex_message] {} \<lparr>cn_address = a, cn_buffer = [], cn_delay = d, cn_retry = r,
      cn_phase = Listening [ex_message]\<rparr> [Failed (FailedToConnect a 0), SentMessage ex_message]"
    using run_step [OF 4, of ?none "Flush None"] by (simp add: connection_step.simps submits_def)
  show ?thesis
    using run_step [OF 5, of ?none "Response (Some [65])"] by (auto simp: connection_step.simps submits_def)
qed

theorem reliable_connection_keeps_messages_witness:
  "\<exists>c out. connection_run (ex_addr 1) [ex_message] {} c out \<and> notified out = [ex_message] \<and>
     set (notified out) \<subseteq> sent_messages out \<and> 200 \<le> cn_delay c"
proof -
  obtain c where run: "connection_run (ex_addr 1) [ex_message] {} c
      [Failed (FailedToConnect (ex_addr 1) 0), SentMessage ex_message, Notified ex_message [65]]"
    using ex_connection_run by blast
  from reliable_connection_keeps_messages [OF run] show ?thesis using run by fastforce
qed

text \<open>
  A runner of the primary's receiver delivers the messages of a connection in order, each after its
  acknowledgement, and stops at the first frame that fails or does not decode, which is acknowledged but
  reaches no task.
\<close>

theorem primary_runner_delivers:
  assumes "list_all (\<lambda>bs. de_primary_message b bs \<noteq> None) messages"
    and "bad = None \<or> (\<exists>bs. bad = Some bs \<and> de_primary_message b bs = None)"
  shows "fst (runner (unshared (dispatch_primary b)) (map Some messages @ bad # frames) w) =
    concat (map (\<lambda>bs. [Ack ack_bytes, route_primary (the (de_primary_message b bs))]) messages) @
    (if bad = None then [] else [Ack ack_bytes])"
  using primary_handler.runner_stops [OF assms, of frames w] by simp

theorem primary_runner_delivers_witness:
  "fst (runner (unshared (dispatch_primary ex_bincode)) (map Some [] @ Some [7] # [Some [8]]) ()) = [Ack ack_bytes]"
  using primary_runner_delivers [of ex_bincode "[]" "Some [7]" "[Some [8]]" "()"] by (simp add: ex_bincode_def)

end
