(* ===== verification/Worker.thy ===== *)
theory Worker
  imports PrimaryTasks Network
begin

text \<open>
  The crate \<open>worker\<close>: transactions are assembled into batches, broadcast to the other workers, and
  reported to the primary once a quorum has acknowledged them; batches of others are stored and
  reported too. One section per task; \<open>WorkerSync\<close> holds the synchronizer.
\<close>

section \<open>Messages and a worker\<close>

type_synonym transaction = bytes

datatype worker_message =
  BatchMsg "transaction list"
| BatchRequest "digest list" public_key

text \<open>The \<open>bincode\<close> functions of the worker, and its constant data.\<close>

record worker_codec =
  ser_batch_message :: "worker_message \<Rightarrow> bytes"
  de_batch_message :: "bytes \<Rightarrow> worker_message option"
  ser_digest_message :: "worker_primary_message \<Rightarrow> bytes"
  de_primary_command :: "bytes \<Rightarrow> primary_worker_message option"

record 'db worker =
  wk_crypto :: dalek
  wk_codec :: worker_codec
  wk_rocksdb :: "'db rocksdb"
  wk_name :: public_key
  wk_id :: worker_id
  wk_committee :: committee
  wk_parameters :: parameters

section \<open>Batch maker\<close>

text \<open>
  The watched pair of round and pause flag and the channel of transactions are part of the state;
  \<open>bm_benchmark\<close> is the compile-time feature of that name. The sums of sizes wrap, as in a release build.
\<close>

record batch_maker =
  bm_benchmark :: bool
  bm_batch_size :: usize
  bm_workers :: "(public_key \<times> socket_addr) list"
  bm_silent :: "round \<times> bool"
  bm_channel :: "transaction list"
  bm_current_batch :: "transaction list"
  bm_current_batch_size :: usize
  bm_network :: reliable_sender

datatype batch_action =
  LogBatch digest "u64 list" usize
| ToQuorumWaiter bytes "(public_key \<times> nat) list"

type_synonym batch_maker_op = "(batch_maker, batch_action, dag_error, unit) op"

definition batch_maker_spawn :: "bool \<Rightarrow> usize \<Rightarrow> (public_key \<times> socket_addr) list \<Rightarrow> batch_maker" where
  "batch_maker_spawn benchmark bsize addresses =
     \<lparr>bm_benchmark = benchmark, bm_batch_size = bsize, bm_workers = addresses, bm_silent = (0, False),
      bm_channel = [], bm_current_batch = [], bm_current_batch_size = 0, bm_network = reliable_sender_new\<rparr>"

text \<open>
  With the feature \<open>benchmark\<close>, sealing reads the first byte of every transaction, which panics on an
  empty one, and the numbers of the sample transactions: the eight bytes after a zero.
\<close>

definition sample_ids :: "transaction list \<Rightarrow> u64 list" where
  "sample_ids batch = map (\<lambda>tx. be_word (take 8 (drop 1 tx))) (filter (\<lambda>tx. tx ! 0 = 0 \<and> 8 < length tx) batch)"

definition batch_digest :: "dalek \<Rightarrow> bytes \<Rightarrow> digest" where
  "batch_digest dk batch = hash32 dk batch"

definition seal :: "'db worker \<Rightarrow> batch_maker_op" where
  "seal wk s =
     (if bm_benchmark s \<and> [] \<in> set (bm_current_batch s) then (Panicked, s, [])
      else
        let serialized = ser_batch_message (wk_codec wk) (BatchMsg (bm_current_batch s))
        in case reliable_broadcast (map snd (bm_workers s)) serialized (bm_network s) of
             (handlers, network) \<Rightarrow>
               (Ok (), s\<lparr>bm_current_batch_size := 0, bm_current_batch := [], bm_network := network\<rparr>,
                (if bm_benchmark s
                 then [LogBatch (batch_digest (wk_crypto wk) serialized) (sample_ids (bm_current_batch s)) (bm_current_batch_size s)]
                 else []) @
                [ToQuorumWaiter serialized (zip (map fst (bm_workers s)) handlers)]))"

datatype batch_maker_event =
  TransactionArrives transaction
| SilentChanged round bool
| TakeTransaction
| BatchTimer

fun batch_maker_step :: "'db worker \<Rightarrow> batch_maker_event \<Rightarrow> batch_maker_op" where
  "batch_maker_step wk (TransactionArrives tx) = op_modify (\<lambda>s. s\<lparr>bm_channel := bm_channel s @ [tx]\<rparr>)"
| "batch_maker_step wk (SilentChanged r paused) = op_modify (\<lambda>s. s\<lparr>bm_silent := (r, paused)\<rparr>)"
| "batch_maker_step wk TakeTransaction =
     op_bind (op_get (\<lambda>s. s)) (\<lambda>s.
     if snd (bm_silent s) then op_return ()
     else case bm_channel s of
            [] \<Rightarrow> op_return ()
          | tx # rest \<Rightarrow>
              op_then (op_modify (\<lambda>s. s\<lparr>bm_channel := rest,
                  bm_current_batch_size := bm_current_batch_size s + word_of_nat (length tx),
                  bm_current_batch := bm_current_batch s @ [tx]\<rparr>))
              (op_bind (op_get (\<lambda>s. bm_batch_size s \<le> bm_current_batch_size s)) (\<lambda>full.
               if full then seal wk else op_return ())))"
| "batch_maker_step wk BatchTimer =
     op_bind (op_get (\<lambda>s. s)) (\<lambda>s.
     if snd (bm_silent s) \<or> bm_current_batch s = [] then op_return () else seal wk)"

definition batch_maker_run :: "'db worker \<Rightarrow> batch_maker_event list \<Rightarrow> batch_maker_op" where
  "batch_maker_run wk events = op_for events (batch_maker_step wk)"

section \<open>Quorum waiter\<close>

text \<open>
  The stakes of the handlers in the order in which they complete, whether with an acknowledgement or
  because the sender dropped them; the result says whether the batch is delivered.
\<close>

fun wait_for_quorum :: "committee \<Rightarrow> stake \<Rightarrow> stake list \<Rightarrow> bool" where
  "wait_for_quorum c acked [] = False"
| "wait_for_quorum c acked (stake # stakes) =
     (if quorum_threshold c \<le> acked + stake then True
      else wait_for_quorum c (acked + stake) stakes)"

text \<open>One message: a batch and its handlers, with the handlers listed in the order of their completion.\<close>

definition quorum_waiter_step :: "committee \<Rightarrow> stake \<Rightarrow> nat list \<Rightarrow> bytes \<times> (public_key \<times> nat) list \<Rightarrow> bytes list" where
  "quorum_waiter_step c stake order = (\<lambda>(batch, handlers).
     let wait_for = map (\<lambda>(name, handler). (handler, stake_of c name)) handlers in
     if wait_for_quorum c stake (List.map_filter (map_of wait_for) order) then [batch] else [])"

section \<open>Processor and primary connector\<close>

definition digest_message :: "'db worker \<Rightarrow> bool \<Rightarrow> bytes \<Rightarrow> worker_primary_message" where
  "digest_message wk own_digest batch =
     (if own_digest then OurBatch (batch_digest (wk_crypto wk) batch) (wk_id wk) else OthersBatch (batch_digest (wk_crypto wk) batch) (wk_id wk))"

definition processor_step :: "'db worker \<Rightarrow> bool \<Rightarrow> bytes \<Rightarrow> 'db \<Rightarrow> 'db \<times> bytes" where
  "processor_step wk own_digest batch d =
     (db_put (wk_rocksdb wk) d (digest_to_vec (batch_digest (wk_crypto wk) batch)) batch,
      ser_digest_message (wk_codec wk) (digest_message wk own_digest batch))"

definition processor_run :: "'db worker \<Rightarrow> bool \<Rightarrow> bytes list \<Rightarrow> 'db \<Rightarrow> 'db \<times> bytes list" where
  "processor_run wk own_digest = run_steps (processor_step wk own_digest)"

definition primary_connector_spawn :: "'db worker \<Rightarrow> (dag_error, socket_addr) result" where
  "primary_connector_spawn wk =
     (case primary_of (wk_committee wk) (wk_name wk) of Inl _ \<Rightarrow> Panicked | Inr a \<Rightarrow> Ok (worker_to_primary a))"

definition primary_connector_step ::
  "(socket_addr \<Rightarrow> bool) \<Rightarrow> socket_addr \<Rightarrow> bytes \<Rightarrow> simple_sender \<Rightarrow> simple_sender \<times> simple_action list" where
  "primary_connector_step alive primary_address message = simple_send alive primary_address message"

section \<open>Helper\<close>

fun batch_replies :: "'db worker \<Rightarrow> 'db \<Rightarrow> socket_addr \<Rightarrow> digest list \<Rightarrow> (socket_addr \<times> bytes) list" where
  "batch_replies wk d address [] = []"
| "batch_replies wk d address (x # digests) =
     (case db_get (wk_rocksdb wk) d (digest_to_vec x) of
        Inr (Some batch) \<Rightarrow> (address, batch) # batch_replies wk d address digests
      | _ \<Rightarrow> batch_replies wk d address digests)"

definition worker_helper_step :: "'db worker \<Rightarrow> 'db \<Rightarrow> digest list \<times> public_key \<Rightarrow> (socket_addr \<times> bytes) list" where
  "worker_helper_step wk d = (\<lambda>(digests, origin).
     case worker_of (wk_committee wk) origin (wk_id wk) of
       Inl _ \<Rightarrow> []
     | Inr w \<Rightarrow> batch_replies wk d (worker_to_worker w) digests)"

section \<open>Network handlers\<close>

datatype worker_delivery =
  WorkerAck bytes
| ToBatchMaker transaction
| ToProcessor bytes
| ToWorkerHelper "digest list" public_key
| ToSynchronizer primary_worker_message
| SetBatchSilent round bool

definition dispatch_transaction :: "bytes \<Rightarrow> worker_delivery list" where
  "dispatch_transaction message = [ToBatchMaker message]"

definition dispatch_batch :: "worker_codec \<Rightarrow> bytes \<Rightarrow> worker_delivery list" where
  "dispatch_batch codec serialized =
     WorkerAck ack_bytes #
     (case de_batch_message codec serialized of
        Some (BatchMsg _) \<Rightarrow> [ToProcessor serialized]
      | Some (BatchRequest missing requestor) \<Rightarrow> [ToWorkerHelper missing requestor]
      | None \<Rightarrow> [])"

text \<open>The watched pair is compared before it is replaced: a pause flag of an older round is dropped.\<close>

definition dispatch_command :: "worker_codec \<Rightarrow> bytes \<Rightarrow> round \<times> bool \<Rightarrow> worker_delivery list" where
  "dispatch_command codec serialized watched =
     WorkerAck ack_bytes #
     (case de_primary_command codec serialized of
        None \<Rightarrow> []
      | Some (BatchSilent r silent) \<Rightarrow> if fst watched \<le> r then [SetBatchSilent r silent] else []
      | Some message \<Rightarrow> [ToSynchronizer message])"

section \<open>Spawning\<close>

record clients_tasks =
  ct_address :: socket_addr
  ct_batch_maker :: batch_maker
  ct_stake :: stake

definition handle_clients_transactions :: "'db worker \<Rightarrow> bool \<Rightarrow> (dag_error, clients_tasks) result" where
  "handle_clients_transactions wk benchmark =
     (case worker_of (wk_committee wk) (wk_name wk) (wk_id wk) of
        Inl _ \<Rightarrow> Panicked
      | Inr w \<Rightarrow>
          Ok \<lparr>ct_address = listen_on (transactions w),
              ct_batch_maker = batch_maker_spawn benchmark (batch_size (wk_parameters wk))
                (map (\<lambda>(name, addresses). (name, worker_to_worker addresses))
                   (others_workers (wk_committee wk) (wk_name wk) (wk_id wk))),
              ct_stake = stake_of (wk_committee wk) (wk_name wk)\<rparr>)"

definition handle_workers_messages :: "'db worker \<Rightarrow> (dag_error, socket_addr) result" where
  "handle_workers_messages wk =
     (case worker_of (wk_committee wk) (wk_name wk) (wk_id wk) of
        Inl _ \<Rightarrow> Panicked
      | Inr w \<Rightarrow> Ok (listen_on (worker_to_worker w)))"

section \<open>Batches: nothing lost, order kept\<close>

lemma reliable_broadcast_handlers:
  "reliable_broadcast addresses bs s = (hs, s') \<Longrightarrow>
   hs = [rs_next_handler s..<rs_next_handler s + length addresses] \<and> rs_next_handler s' = rs_next_handler s + length addresses"
proof (induction addresses arbitrary: s hs)
  case Nil
  then show ?case by simp
next
  case (Cons a addresses)
  from Cons.prems obtain s1 hs1 where 1: "reliable_send a bs s = (rs_next_handler s, s1)"
    "rs_next_handler s1 = Suc (rs_next_handler s)" "reliable_broadcast addresses bs s1 = (hs1, s')"
    "hs = rs_next_handler s # hs1"
    by (auto simp: reliable_send_def Let_def split: prod.splits)
  then show ?case using Cons.IH [OF 1(3)] by (simp add: upt_conv_Cons del: upt_Suc)
qed

definition arrived :: "batch_maker_event list \<Rightarrow> transaction list" where
  "arrived events = concat (map (\<lambda>ev. case ev of TransactionArrives tx \<Rightarrow> [tx] | _ \<Rightarrow> []) events)"

definition broadcasts :: "batch_action list \<Rightarrow> (bytes \<times> (public_key \<times> nat) list) list" where
  "broadcasts out = concat (map (\<lambda>a. case a of ToQuorumWaiter bs hs \<Rightarrow> [(bs, hs)] | _ \<Rightarrow> []) out)"

lemma arrived_simps [simp]:
  "arrived [] = []" "arrived (ev # events) = (case ev of TransactionArrives tx \<Rightarrow> tx # arrived events | _ \<Rightarrow> arrived events)"
  by (auto simp: arrived_def split: batch_maker_event.split)

lemma broadcasts_simps [simp]:
  "broadcasts [] = []" "broadcasts (a # out) = (case a of ToQuorumWaiter bs hs \<Rightarrow> (bs, hs) # broadcasts out | _ \<Rightarrow> broadcasts out)"
  "broadcasts (out1 @ out2) = broadcasts out1 @ broadcasts out2"
  by (auto simp: broadcasts_def split: batch_action.split)

text \<open>The size of the current batch is counted, and a batch that has reached the preset size is gone.\<close>

definition batch_inv :: "batch_maker \<Rightarrow> bool" where
  "batch_inv s \<longleftrightarrow>
     bm_current_batch_size s = word_of_nat (length (concat (bm_current_batch s))) \<and>
     (bm_batch_size s \<le> bm_current_batch_size s \<longrightarrow> bm_current_batch s = [])"

text \<open>What a run of the batch maker has done with the transactions \<open>txs\<close> that arrived meanwhile.\<close>

definition batched :: "'db worker \<Rightarrow> batch_maker \<Rightarrow> transaction list \<Rightarrow> batch_maker \<Rightarrow> batch_action list \<Rightarrow> bool" where
  "batched wk s txs s' out \<longleftrightarrow>
     bm_workers s' = bm_workers s \<and> bm_batch_size s' = bm_batch_size s \<and>
     (\<exists>batches. map fst (broadcasts out) = map (\<lambda>b. ser_batch_message (wk_codec wk) (BatchMsg b)) batches \<and>
        [] \<notin> set batches \<and>
        bm_current_batch s @ bm_channel s @ txs = concat batches @ bm_current_batch s' @ bm_channel s') \<and>
     (\<forall>(bs, hs) \<in> set (broadcasts out). \<exists>n. hs = zip (map fst (bm_workers s)) [n..<n + length (bm_workers s)])"

lemma batched_quiet:
  "bm_workers s' = bm_workers s \<Longrightarrow> bm_batch_size s' = bm_batch_size s \<Longrightarrow> broadcasts out = [] \<Longrightarrow>
   bm_current_batch s @ bm_channel s @ txs = bm_current_batch s' @ bm_channel s' \<Longrightarrow> batched wk s txs s' out"
  by (auto simp: batched_def intro!: exI [of _ "[]"])

lemma batched_trans:
  assumes "batched wk s txs1 t out1" and "batched wk t txs2 u out2"
  shows "batched wk s (txs1 @ txs2) u (out1 @ out2)"
proof -
  obtain b1 b2 where b: "map fst (broadcasts out1) = map (\<lambda>b. ser_batch_message (wk_codec wk) (BatchMsg b)) b1" "[] \<notin> set b1"
    "bm_current_batch s @ bm_channel s @ txs1 = concat b1 @ bm_current_batch t @ bm_channel t"
    "map fst (broadcasts out2) = map (\<lambda>b. ser_batch_message (wk_codec wk) (BatchMsg b)) b2" "[] \<notin> set b2"
    "bm_current_batch t @ bm_channel t @ txs2 = concat b2 @ bm_current_batch u @ bm_channel u"
    using assms unfolding batched_def by blast
  have "bm_current_batch s @ bm_channel s @ txs1 @ txs2 = concat (b1 @ b2) @ bm_current_batch u @ bm_channel u"
    using arg_cong [OF b(3), of "\<lambda>xs. xs @ txs2"] b(6) by simp
  then show ?thesis
    using assms b by (auto simp: batched_def intro!: exI [of _ "b1 @ b2"])
qed

lemma seal_run:
  assumes "seal wk s = (Ok (), s', out)" and "bm_current_batch s \<noteq> []"
  shows "batched wk s [] s' out \<and> batch_inv s'"
proof -
  let ?bs = "ser_batch_message (wk_codec wk) (BatchMsg (bm_current_batch s))"
  obtain hs network where bc: "reliable_broadcast (map snd (bm_workers s)) ?bs (bm_network s) = (hs, network)"
    by fastforce
  have hs: "hs = [rs_next_handler (bm_network s)..<rs_next_handler (bm_network s) + length (bm_workers s)]"
    using reliable_broadcast_handlers [OF bc] by simp
  have s': "s' = s\<lparr>bm_current_batch_size := 0, bm_current_batch := [], bm_network := network\<rparr>"
    and out: "broadcasts out = [(?bs, zip (map fst (bm_workers s)) hs)]"
    using assms(1) bc by (auto simp: seal_def Let_def split: if_splits)
  have "batched wk s [] s' out"
    unfolding batched_def using s' out hs assms(2) by (auto intro!: exI [of _ "[bm_current_batch s]"])
  then show ?thesis using s' by (simp add: batch_inv_def)
qed

lemma batch_maker_step_batched:
  assumes "batch_maker_step wk ev s = (Ok (), s', out)" and "batch_inv s"
  shows "batched wk s (arrived [ev]) s' out \<and> batch_inv s'"
proof (cases ev)
  case (TransactionArrives tx)
  then show ?thesis using assms by (auto simp: batch_inv_def intro: batched_quiet)
next
  case (SilentChanged r paused)
  then show ?thesis using assms by (auto simp: batch_inv_def intro: batched_quiet)
next
  case TakeTransaction
  show ?thesis
  proof (cases "snd (bm_silent s) \<or> bm_channel s = []")
    case True
    then have "s' = s \<and> out = []" using assms(1) TakeTransaction by (auto simp: op_bind_def split: if_splits)
    then show ?thesis using assms(2) TakeTransaction by (auto intro: batched_quiet)
  next
    case False
    then obtain tx rest where ch: "bm_channel s = tx # rest" by (cases "bm_channel s") auto
    let ?t = "s\<lparr>bm_channel := rest, bm_current_batch_size := bm_current_batch_size s + word_of_nat (length tx),
        bm_current_batch := bm_current_batch s @ [tx]\<rparr>"
    have t: "batched wk s [] ?t []" using ch by (auto intro: batched_quiet)
    have size: "bm_current_batch_size ?t = word_of_nat (length (concat (bm_current_batch ?t)))"
      using assms(2) by (simp add: batch_inv_def)
    show ?thesis
    proof (cases "bm_batch_size ?t \<le> bm_current_batch_size ?t")
      case full: True
      then have "seal wk ?t = (Ok (), s', out)"
        using assms(1) TakeTransaction False ch by (simp add: op_bind_def op_then_def split: prod.splits sum.splits)
      then show ?thesis using seal_run [of wk ?t s' out] batched_trans [OF t] TakeTransaction by fastforce
    next
      case short: False
      then have "s' = ?t \<and> out = []" using assms(1) TakeTransaction False ch by (simp add: op_bind_def op_then_def)
      then show ?thesis using t size short TakeTransaction by (auto simp: batch_inv_def)
    qed
  qed
next
  case BatchTimer
  then show ?thesis
    using assms seal_run [of wk s s' out] by (auto simp: op_bind_def intro: batched_quiet split: if_splits prod.splits sum.splits)
qed

lemma batch_maker_run_batched:
  assumes "batch_maker_run wk events s = (Ok (), s', out)" and "batch_inv s"
  shows "batched wk s (arrived events) s' out \<and> batch_inv s'"
  using assms
proof (induction events arbitrary: s out)
  case Nil
  then show ?case by (auto simp: batch_maker_run_def intro: batched_quiet)
next
  case (Cons ev events)
  obtain t out1 out2 where 1: "batch_maker_step wk ev s = (Ok (), t, out1)"
    and 2: "batch_maker_run wk events t = (Ok (), s', out2)" and out: "out = out1 @ out2"
    using Cons.prems(1) by (auto simp: batch_maker_run_def op_then_def op_bind_def split: prod.splits sum.splits)
  have "arrived (ev # events) = arrived [ev] @ arrived events" by (simp split: batch_maker_event.split)
  then show ?case
    using batched_trans batch_maker_step_batched [OF 1 Cons.prems(2)] Cons.IH [OF 2] out by metis
qed

section \<open>Acknowledged batches\<close>

lemma wait_for_quorum_iff:
  assumes "unat acked + sum_list (map unat stakes) < 2 ^ 32"
  shows "wait_for_quorum c acked stakes \<longleftrightarrow>
    stakes \<noteq> [] \<and> unat (quorum_threshold c) \<le> unat acked + sum_list (map unat stakes)"
  using assms
proof (induction stakes arbitrary: acked)
  case Nil
  then show ?case by simp
next
  case (Cons x stakes)
  then have "unat (acked + x) = unat acked + unat x" by (simp add: unat_word_ariths)
  then show ?case using Cons.IH [of "acked + x"] Cons.prems by (auto simp: word_le_nat_alt)
qed

text \<open>The authorities whose handlers are among the completed ones.\<close>

definition acknowledged :: "(public_key \<times> nat) list \<Rightarrow> nat list \<Rightarrow> public_key set" where
  "acknowledged handlers order = {name. \<exists>h \<in> set order. (name, h) \<in> set handlers}"

lemma quorum_waiter_delivers:
  assumes c: "committee_ok c" and hs: "distinct (me # map fst handlers)" "distinct (map snd handlers)"
    and order: "distinct order" "set order \<subseteq> snd ` set handlers"
  shows "quorum_waiter_step c (stake_of c me) order (batch, handlers) =
    (if order \<noteq> [] \<and> unat (quorum_threshold c) \<le> stake_nat c me + sum (stake_nat c) (acknowledged handlers order)
     then [batch] else [])"
proof -
  define name where "name h = the (map_of (map prod.swap handlers) h)" for h
  have d: "distinct (map fst (map prod.swap handlers))" using hs(2) by (simp add: comp_def)
  have name: "name h = k" if "(k, h) \<in> set handlers" for k h
    using that d by (force simp: name_def map_of_eq_Some_iff)
  have in_hs: "(name h, h) \<in> set handlers" if "h \<in> set order" for h
  proof -
    obtain k where "(k, h) \<in> set handlers" using order(2) \<open>h \<in> set order\<close> by auto
    then show ?thesis using name by metis
  qed
  have "map_of (map (\<lambda>(name, handler). (handler, stake_of c name)) handlers) h = Some (stake_of c (name h))"
    if "h \<in> set order" for h
    using in_hs [OF that] d by (intro map_of_is_SomeI) (force simp: comp_def case_prod_unfold)+
  then have stakes: "List.map_filter (map_of (map (\<lambda>(name, handler). (handler, stake_of c name)) handlers)) order =
      map (stake_of c) (map name order)"
    by (induction order) (simp_all add: List.map_filter_simps)
  have inj: "inj_on name (set order)"
    using in_hs hs(1) by (intro inj_onI) (metis distinct.simps(2) eq_key_imp_eq_value)
  have ack: "acknowledged handlers order = set (map name order)"
    using in_hs name unfolding acknowledged_def by force
  have "me \<notin> set (map name order)" using in_hs hs(1) by force
  then have dist: "distinct (me # map name order)" using inj order(1) by (simp add: distinct_map)
  have sum_ord: "sum_list (map unat (map (stake_of c) (map name order))) = sum (stake_nat c) (acknowledged handlers order)"
    unfolding ack using dist sum_list_distinct_conv_sum_set [of "map name order" "stake_nat c"]
    by (simp add: comp_def stake_nat_def)
  have "stake_nat c me + sum (stake_nat c) (acknowledged handlers order) < 2 ^ 32"
    using sum_stake_names_le [OF committee_ok_wf [OF c] dist] c sum_ord
    by (simp add: committee_ok_def comp_def stake_nat_def)
  then show ?thesis
    using wait_for_quorum_iff [of "stake_of c me" "map (stake_of c) (map name order)" c] sum_ord
    by (simp only: quorum_waiter_step_def stakes prod.case Let_def stake_nat_def map_is_Nil_conv)
qed

section \<open>Announced pauses\<close>

definition watch_update :: "worker_codec \<Rightarrow> bytes \<Rightarrow> round \<times> bool \<Rightarrow> round \<times> bool" where
  "watch_update codec serialized watched =
     fold (\<lambda>a w. case a of SetBatchSilent r silent \<Rightarrow> (r, silent) | _ \<Rightarrow> w) (dispatch_command codec serialized watched) watched"

definition silence_announced :: "worker_codec \<Rightarrow> bytes list \<Rightarrow> (round \<times> bool) list" where
  "silence_announced codec messages =
     List.map_filter (\<lambda>m. case de_primary_command codec m of Some (BatchSilent r silent) \<Rightarrow> Some (r, silent) | _ \<Rightarrow> None) messages"

lemma silence_announced_simps [simp]:
  "silence_announced codec [] = []"
  "silence_announced codec (m # messages) =
     (case de_primary_command codec m of Some (BatchSilent r silent) \<Rightarrow> (r, silent) # silence_announced codec messages
      | _ \<Rightarrow> silence_announced codec messages)"
  by (auto simp: silence_announced_def List.map_filter_simps split: option.splits primary_worker_message.splits)

lemma watch_update_eq:
  "watch_update codec m watched =
     (case silence_announced codec [m] of [] \<Rightarrow> watched | p # _ \<Rightarrow> if fst watched \<le> fst p then p else watched)"
  by (auto simp: watch_update_def dispatch_command_def split: option.split primary_worker_message.split)

text \<open>The last pair among those with the highest key.\<close>

definition latest :: "('k::linorder \<times> 'v) list \<Rightarrow> 'k \<times> 'v" where
  "latest ps = last (filter (\<lambda>p. fst p = Max (fst ` set ps)) ps)"

lemma latest_fst: "ps \<noteq> [] \<Longrightarrow> fst (latest ps) = Max (fst ` set ps)"
proof -
  assume "ps \<noteq> []"
  then have "Max (fst ` set ps) \<in> fst ` set ps" by (intro Max_in) auto
  then have "filter (\<lambda>p. fst p = Max (fst ` set ps)) ps \<noteq> []" by (force simp: filter_empty_conv)
  from last_in_set [OF this] show ?thesis unfolding latest_def by simp
qed

lemma latest_snoc:
  assumes "ps \<noteq> []"
  shows "latest (ps @ [p]) = (if fst (latest ps) \<le> fst p then p else latest ps)"
proof -
  have "Max (fst ` set (ps @ [p])) = max (fst p) (Max (fst ` set ps))" using assms by simp
  then show ?thesis
    using latest_fst [OF assms] by (auto simp: latest_def max_def)
qed

lemma watch_run: "fold (watch_update codec) messages w = latest (w # silence_announced codec messages)"
proof (induction messages rule: rev_induct)
  case Nil
  then show ?case by (simp add: latest_def)
next
  case (snoc m messages)
  have app: "silence_announced codec (messages @ [m]) = silence_announced codec messages @ silence_announced codec [m]"
    by (simp add: silence_announced_def List.map_filter_def)
  show ?case
  proof (cases "silence_announced codec [m]")
    case Nil
    then show ?thesis using snoc app by (simp add: watch_update_eq)
  next
    case (Cons p rest)
    then have "silence_announced codec [m] = [p]" by (auto split: option.splits primary_worker_message.splits)
    then show ?thesis
      using snoc app latest_snoc [of "w # silence_announced codec messages" p] by (simp add: watch_update_eq)
  qed
qed

section \<open>Stored batches\<close>

text \<open>The processor keeps batches under their digests.\<close>

lemma processor_run_stored:
  assumes "rocksdb_ok (wk_rocksdb wk)"
  shows "stored (wk_rocksdb wk) (fst (processor_run wk own_digest batches d)) k =
    (case map_of (rev (map (\<lambda>b. (digest_to_vec (batch_digest (wk_crypto wk) b), b)) batches)) k of
       None \<Rightarrow> stored (wk_rocksdb wk) d k | Some b \<Rightarrow> Some b)"
proof -
  have "fst (processor_run wk own_digest batches d) =
      database.write_list (wk_rocksdb wk) (map (\<lambda>b. (digest_to_vec (batch_digest (wk_crypto wk) b), b)) batches) d"
    unfolding processor_run_def
    by (induction batches arbitrary: d) (simp_all add: processor_step_def database.write_list_def del: run_steps.simps(2))
  then show ?thesis using database.read_write_list [OF assms] by simp
qed

lemma processor_run_found:
  assumes "rocksdb_ok (wk_rocksdb wk)" and "x \<in> batch_digest (wk_crypto wk) ` set batches"
  obtains b where "b \<in> set batches" "batch_digest (wk_crypto wk) b = x"
    "stored (wk_rocksdb wk) (fst (processor_run wk own_digest batches d)) (digest_to_vec x) = Some b"
proof -
  let ?kvs = "rev (map (\<lambda>b. (digest_to_vec (batch_digest (wk_crypto wk) b), b)) batches)"
  have "map_of ?kvs (digest_to_vec x) \<noteq> None"
    using assms(2) by (auto simp: map_of_eq_None_iff image_image)
  then obtain b where b: "map_of ?kvs (digest_to_vec x) = Some b" by auto
  then have "(digest_to_vec x, b) \<in> set ?kvs" by (rule map_of_SomeD)
  then show thesis
    using that [of b] b processor_run_stored [OF assms(1), of own_digest batches d "digest_to_vec x"] by auto
qed

lemma others_workers_names:
  "\<exists>P. map fst (others_workers c me wid) = map fst (filter P (filter (\<lambda>(name, _). name \<noteq> me) (authorities c)))"
proof -
  have "map fst (List.map_filter (\<lambda>(name, a). map_option (\<lambda>(_, addresses). (name, addresses))
      (find (\<lambda>(worker_id, _). worker_id = wid) (workers a))) xs) =
    map fst (filter (\<lambda>x. find (\<lambda>(worker_id, _). worker_id = wid) (workers (snd x)) \<noteq> None) xs)" for xs
    by (induction xs) (auto simp: List.map_filter_simps split: option.splits)
  then show ?thesis unfolding others_workers_def by (intro exI)
qed

lemma others_workers_distinct:
  assumes "committee_wf c"
  shows "distinct (me # map fst (others_workers c me wid))"
proof -
  obtain P where P: "map fst (others_workers c me wid) = map fst (filter P (filter (\<lambda>(name, _). name \<noteq> me) (authorities c)))"
    using others_workers_names by blast
  have "distinct (map fst (authorities c))" using assms unfolding committee_wf_def by (rule btree_wf_distinct)
  then show ?thesis unfolding distinct.simps P by (intro conjI distinct_map_filter) auto
qed

section \<open>A concrete worker\<close>

fun ex_ser_batch :: "worker_message \<Rightarrow> bytes" where
  "ex_ser_batch (BatchMsg txs) = 0 # concat (map (\<lambda>tx. word_of_nat (length tx) # tx) txs)"
| "ex_ser_batch (BatchRequest ds k) = 1 # concat (map digest_to_vec ds) @ key_as_ref k"

definition ex_de_batch :: "bytes \<Rightarrow> worker_message option" where
  "ex_de_batch bs = (case bs of t # n # tx \<Rightarrow> if t = 0 \<and> n = word_of_nat (length tx) then Some (BatchMsg [tx]) else None | _ \<Rightarrow> None)"

fun ex_ser_digest :: "worker_primary_message \<Rightarrow> bytes" where
  "ex_ser_digest (OurBatch x wid) = 0 # digest_to_vec x @ le_bytes 4 wid"
| "ex_ser_digest (OthersBatch x wid) = 1 # digest_to_vec x @ le_bytes 4 wid"

fun ex_de_digest :: "bytes \<Rightarrow> worker_primary_message option" where
  "ex_de_digest [] = None"
| "ex_de_digest (t # bs) =
     (let x = Digest (be_word (take 32 bs)); wid = le_word (drop 32 bs)
      in Some (if t = 0 then OurBatch x wid else OthersBatch x wid))"

definition ex_codec :: worker_codec where
  "ex_codec = \<lparr>ser_batch_message = ex_ser_batch, de_batch_message = ex_de_batch, ser_digest_message = ex_ser_digest,
     de_primary_command = (\<lambda>bs. Some (BatchSilent (le_word bs) True))\<rparr>"

definition ex_worker :: "(bytes \<times> bytes) list worker" where
  "ex_worker = \<lparr>wk_crypto = ex_dalek, wk_codec = ex_codec, wk_rocksdb = ex_rocksdb, wk_name = PublicKey 1, wk_id = 0,
     wk_committee = ex_committee, wk_parameters = parameters_default\<rparr>"

lemma ex_worker_simps [simp]:
  "wk_crypto ex_worker = ex_dalek" "wk_codec ex_worker = ex_codec" "wk_rocksdb ex_worker = ex_rocksdb"
  "wk_name ex_worker = PublicKey 1" "wk_id ex_worker = 0" "wk_committee ex_worker = ex_committee"
  "wk_parameters ex_worker = parameters_default"
  by (simp_all add: ex_worker_def)

lemma ex_de_ser_digest [simp]: "ex_de_digest (ex_ser_digest m) = Some m"
proof (cases m)
  case (OurBatch x wid)
  then show ?thesis by (cases x) (simp add: digest_to_vec_def)
next
  case (OthersBatch x wid)
  then show ?thesis by (cases x) (simp add: digest_to_vec_def)
qed

section \<open>Properties\<close>

text \<open>
  No transaction is lost, duplicated or reordered: the transactions that arrived at a worker are, in
  their order, those of the batches it has broadcast, those of the batch being assembled, and those not
  yet taken from the channel. Batches are never empty, and none waits that has reached the preset size.
\<close>

theorem batch_maker_conserves:
  assumes "handle_clients_transactions wk benchmark = Ok t"
    and "batch_maker_run wk events (ct_batch_maker t) = (Ok (), s, out)"
  shows "(\<exists>batches. map fst (broadcasts out) = map (\<lambda>b. ser_batch_message (wk_codec wk) (BatchMsg b)) batches \<and>
      [] \<notin> set batches \<and> arrived events = concat batches @ bm_current_batch s @ bm_channel s) \<and>
    (batch_size (wk_parameters wk) \<le> word_of_nat (length (concat (bm_current_batch s))) \<longrightarrow> bm_current_batch s = [])"
proof -
  let ?bm = "ct_batch_maker t"
  have t: "bm_current_batch ?bm = []" "bm_channel ?bm = []" "batch_inv ?bm" "bm_batch_size ?bm = batch_size (wk_parameters wk)"
    using assms(1) by (auto simp: handle_clients_transactions_def batch_maker_spawn_def batch_inv_def split: sum.splits)
  from batch_maker_run_batched [OF assms(2) t(3)] have b: "batched wk ?bm (arrived events) s out" "batch_inv s" by auto
  have "\<exists>batches. map fst (broadcasts out) = map (\<lambda>b. ser_batch_message (wk_codec wk) (BatchMsg b)) batches \<and>
      [] \<notin> set batches \<and> arrived events = concat batches @ bm_current_batch s @ bm_channel s"
    using b(1) t(1,2) by (simp add: batched_def)
  moreover have "bm_batch_size s = batch_size (wk_parameters wk)" using b(1) t(4) by (simp add: batched_def)
  ultimately show ?thesis using b(2) by (auto simp: batch_inv_def)
qed

lemma ex_clients:
  obtains t where "handle_clients_transactions ex_worker False = Ok t"
    "map fst (bm_workers (ct_batch_maker t)) = [PublicKey 2, PublicKey 3, PublicKey 4]"
    "rs_next_handler (bm_network (ct_batch_maker t)) = 0" "bm_batch_size (ct_batch_maker t) = 500000"
    "\<not> snd (bm_silent (ct_batch_maker t))" "bm_channel (ct_batch_maker t) = []" "bm_current_batch (ct_batch_maker t) = []"
    "\<not> bm_benchmark (ct_batch_maker t)"
proof -
  obtain w where w: "worker_of ex_committee (PublicKey 1) 0 = Ok w" using ex_worker_of [of "PublicKey 1"] by auto
  show thesis
    using w by (intro that [OF handle_clients_transactions_def [of ex_worker False, simplified, simplified w, simplified]])
      (simp_all add: batch_maker_spawn_def parameters_default_def others_workers_def ex_committee_def ex_authority_def
        List.map_filter_simps reliable_sender_new_def)
qed

theorem batch_maker_conserves_witness:
  "\<exists>t s out. handle_clients_transactions ex_worker False = Ok t \<and>
     batch_maker_run ex_worker [TransactionArrives [7], TakeTransaction, TransactionArrives [8], BatchTimer] (ct_batch_maker t) =
       (Ok (), s, out) \<and>
     (\<exists>batches. [] \<notin> set batches \<and> [[7], [8]] = concat batches @ bm_current_batch s @ bm_channel s)"
proof -
  let ?events = "[TransactionArrives [7], TakeTransaction, TransactionArrives [8], BatchTimer]"
  obtain t where t: "handle_clients_transactions ex_worker False = Ok t"
    "map fst (bm_workers (ct_batch_maker t)) = [PublicKey 2, PublicKey 3, PublicKey 4]"
    "rs_next_handler (bm_network (ct_batch_maker t)) = 0" "bm_batch_size (ct_batch_maker t) = 500000"
    "\<not> snd (bm_silent (ct_batch_maker t))" "bm_channel (ct_batch_maker t) = []" "bm_current_batch (ct_batch_maker t) = []"
    "\<not> bm_benchmark (ct_batch_maker t)"
    by (rule ex_clients)
  have "\<exists>s out. batch_maker_run ex_worker ?events (ct_batch_maker t) = (Ok (), s, out)"
    using t by (simp add: batch_maker_run_def op_then_def op_bind_def seal_def Let_def cong: op_congs split: prod.split)
  then obtain s out where run: "batch_maker_run ex_worker ?events (ct_batch_maker t) = (Ok (), s, out)" by blast
  have "arrived ?events = [[7], [8]]" by simp
  with batch_maker_conserves [OF t(1) run] t(1) run show ?thesis by metis
qed

text \<open>
  C17: A worker reports a batch exactly when the authorities whose handlers completed, with its own, have the
  stake of a quorum, and at least one handler completed: the check is made after each acknowledgement,
  so that a worker whose own stake is a quorum but that has no other worker to send to reports nothing.
\<close>

theorem batch_delivered_iff_quorum:
  assumes "committee_ok (wk_committee wk)" and "handle_clients_transactions wk benchmark = Ok t"
    and "batch_maker_run wk events (ct_batch_maker t) = (Ok (), s, out)" and "(batch, handlers) \<in> set (broadcasts out)"
    and "distinct order" "set order \<subseteq> snd ` set handlers"
  shows "quorum_waiter_step (wk_committee wk) (ct_stake t) order (batch, handlers) =
    (if order \<noteq> [] \<and> unat (quorum_threshold (wk_committee wk)) \<le>
          stake_nat (wk_committee wk) (wk_name wk) + sum (stake_nat (wk_committee wk)) (acknowledged handlers order)
     then [batch] else [])"
proof -
  let ?bm = "ct_batch_maker t" and ?others = "others_workers (wk_committee wk) (wk_name wk) (wk_id wk)"
  have t: "batch_inv ?bm" "bm_workers ?bm = map (\<lambda>(name, addresses). (name, worker_to_worker addresses)) ?others"
    "ct_stake t = stake_of (wk_committee wk) (wk_name wk)"
    using assms(2) by (auto simp: handle_clients_transactions_def batch_maker_spawn_def batch_inv_def split: sum.splits)
  have names: "map fst (bm_workers ?bm) = map fst ?others" using t(2) by (simp add: comp_def case_prod_unfold)
  from batch_maker_run_batched [OF assms(3) t(1)]
  obtain n where "handlers = zip (map fst ?others) [n..<n + length (bm_workers ?bm)]"
    using assms(4) names by (force simp: batched_def)
  then have hs: "map fst handlers = map fst ?others" "distinct (map snd handlers)" using t(2) by simp_all
  show ?thesis
    unfolding t(3) using others_workers_distinct [OF committee_ok_wf [OF assms(1)]] hs assms
    by (intro quorum_waiter_delivers) simp_all
qed

theorem batch_delivered_iff_quorum_witness:
  "\<exists>t s out batch handlers. handle_clients_transactions ex_worker False = Ok t \<and>
     batch_maker_run ex_worker [TransactionArrives [7], TakeTransaction, BatchTimer] (ct_batch_maker t) = (Ok (), s, out) \<and>
     broadcasts out = [(batch, handlers)] \<and>
     quorum_waiter_step ex_committee (ct_stake t) [2] (batch, handlers) = [] \<and>
     quorum_waiter_step ex_committee (ct_stake t) [2, 0] (batch, handlers) = [batch]"
proof -
  let ?events = "[TransactionArrives [7], TakeTransaction, BatchTimer]"
    and ?hs = "[(PublicKey 2, 0), (PublicKey 3, 1), (PublicKey 4, 2)]"
  obtain t where t: "handle_clients_transactions ex_worker False = Ok t"
    "map fst (bm_workers (ct_batch_maker t)) = [PublicKey 2, PublicKey 3, PublicKey 4]"
    "rs_next_handler (bm_network (ct_batch_maker t)) = 0" "bm_batch_size (ct_batch_maker t) = 500000"
    "\<not> snd (bm_silent (ct_batch_maker t))" "bm_channel (ct_batch_maker t) = []" "bm_current_batch (ct_batch_maker t) = []"
    "\<not> bm_benchmark (ct_batch_maker t)"
    by (rule ex_clients)
  have len: "length (bm_workers (ct_batch_maker t)) = 3" using arg_cong [OF t(2), of length] by simp
  define batch where "batch = ex_ser_batch (BatchMsg [[7]])"
  obtain hs network where bc: "reliable_broadcast (map snd (bm_workers (ct_batch_maker t))) batch (bm_network (ct_batch_maker t)) = (hs, network)"
    by fastforce
  have hs: "hs = [0, 1, 2]" using reliable_broadcast_handlers [OF bc] t(3) len by (simp add: upt_rec)
  have "\<exists>s out. batch_maker_run ex_worker ?events (ct_batch_maker t) = (Ok (), s, out) \<and> broadcasts out = [(batch, ?hs)]"
    using t bc hs by (simp add: batch_maker_run_def op_then_def op_bind_def seal_def Let_def ex_codec_def batch_def cong: op_congs)
  then obtain s out where run: "batch_maker_run ex_worker ?events (ct_batch_maker t) = (Ok (), s, out)"
    "broadcasts out = [(batch, ?hs)]" by (elim exE conjE)
  have ack: "acknowledged ?hs [2] = {PublicKey 4}" "acknowledged ?hs [2, 0] = {PublicKey 2, PublicKey 4}"
    by (auto simp: acknowledged_def)
  have "quorum_waiter_step ex_committee (ct_stake t) [2] (batch, ?hs) = []"
    using batch_delivered_iff_quorum [OF _ t(1) run(1), of batch ?hs "[2]"] run(2) by (simp add: ack [simplified] stake_nat_def)
  moreover have "quorum_waiter_step ex_committee (ct_stake t) [2, 0] (batch, ?hs) = [batch]"
    using batch_delivered_iff_quorum [OF _ t(1) run(1), of batch ?hs "[2, 0]"] run(2) by (simp add: ack [simplified] stake_nat_def)
  ultimately show ?thesis using t(1) run by (intro exI conjI)
qed

text \<open>
  With the feature \<open>benchmark\<close>, one empty transaction from a client stops the batch maker: it is
  taken into a batch, and sealing the batch panics.
\<close>

theorem empty_transaction_stops_batch_maker:
  "fst (batch_maker_run wk (map TransactionArrives (case dispatch_transaction [] of [ToBatchMaker tx] \<Rightarrow> [tx] | _ \<Rightarrow> []) @
      [TakeTransaction, BatchTimer]) (batch_maker_spawn True n addresses)) = Panicked"
  by (simp add: dispatch_transaction_def batch_maker_run_def batch_maker_spawn_def op_then_def op_bind_def seal_def)

text \<open>
  A worker follows the pause flag of the highest round its primary has announced, and the last one of
  that round: messages of earlier rounds that arrive late are dropped.
\<close>

theorem pause_flag_of_latest_round:
  "fold (watch_update codec) messages (0, False) = latest ((0, False) # silence_announced codec messages) \<and>
   fst (fold (watch_update codec) messages (0, False)) = Max (insert 0 (fst ` set (silence_announced codec messages)))"
  using watch_run [of codec messages "(0, False)"] latest_fst [of "(0, False) # silence_announced codec messages"] by simp

text \<open>
  C18: Batches can be fetched by digest: when a worker has stored batches, asking it for the digest of one of them
  yields exactly one reply with that digest, the requesting worker takes the reply for a batch and stores
  it under the digest asked for, and once the report has reached the primary, a header with this batch
  does not wait for it.
\<close>

theorem batch_fetched_by_digest:
  assumes "rocksdb_ok (wk_rocksdb wk')" "rocksdb_ok (wk_rocksdb wk)" "rocksdb_ok (nd_rocksdb nd)"
    and "wk_crypto wk' = wk_crypto wk"
    and "\<And>b. b \<in> set batches \<Longrightarrow> \<exists>txs. de_batch_message (wk_codec wk) b = Some (BatchMsg txs)"
    and "\<And>m. de_worker_message (nd_codec nd) (ser_digest_message (wk_codec wk) m) = Some m"
    and "x \<in> batch_digest (wk_crypto wk) ` set batches"
    and "worker_of (wk_committee wk') origin (wk_id wk') = Ok w"
  shows "\<exists>b. worker_helper_step wk' (fst (processor_run wk' own_digest batches d)) ([x], origin) = [(worker_to_worker w, b)] \<and>
    dispatch_batch (wk_codec wk) b = [WorkerAck ack_bytes, ToProcessor b] \<and>
    (case processor_step wk False b e of (e', report) \<Rightarrow>
       stored (wk_rocksdb wk) e' (digest_to_vec x) = Some b \<and>
       dispatch_worker (nd_codec nd) report = ([ToPayloadReceiver x (wk_id wk)], Ok ())) \<and>
    missing_payload nd (payload_receiver_step nd (x, wk_id wk) pd) (h\<lparr>h_payload := [(x, wk_id wk)]\<rparr>) = (Ok False, [])"
proof -
  obtain b where b: "b \<in> set batches" "batch_digest (wk_crypto wk) b = x"
    "stored (wk_rocksdb wk') (fst (processor_run wk' own_digest batches d)) (digest_to_vec x) = Some b"
    using processor_run_found [OF assms(1), of x batches own_digest d] assms(4,7) by metis
  obtain txs where "de_batch_message (wk_codec wk) b = Some (BatchMsg txs)" using assms(5) b(1) by blast
  moreover have "missing_payload nd (payload_receiver_step nd (x, wk_id wk) pd) (h\<lparr>h_payload := [(x, wk_id wk)]\<rparr>) = (Ok False, [])"
    by (simp add: missing_payload_def read_store_ok [OF assms(3)] payload_receiver_step_def
        database.read_write [OF assms(3)])
  ultimately show ?thesis
    using b assms(6,8) get_stored [OF assms(1)] database.read_write [OF assms(2)]
    by (intro exI [of _ b]) (simp add: worker_helper_step_def dispatch_batch_def processor_step_def digest_message_def dispatch_worker_def)
qed

theorem batch_fetched_by_digest_witness:
  "\<exists>b w. worker_of ex_committee (PublicKey 2) 0 = Ok w \<and>
     worker_helper_step ex_worker (fst (processor_run ex_worker True [[0, 1, 5]] []))
       ([batch_digest ex_dalek [0, 1, 5]], PublicKey 2) = [(worker_to_worker w, b)]"
proof -
  obtain w where w: "worker_of ex_committee (PublicKey 2) 0 = Ok w" using ex_worker_of [of "PublicKey 2"] by auto
  show ?thesis
    using batch_fetched_by_digest [of ex_worker ex_worker "ex_node\<lparr>nd_codec := ex_bincode\<lparr>de_worker_message := ex_de_digest\<rparr>\<rparr>"
        "[[0, 1, 5]]" "batch_digest ex_dalek [0, 1, 5]" "PublicKey 2" w True "[]" "[]" "[]" ex_header] w
    by (auto simp: ex_codec_def ex_de_batch_def)
qed

end
