(* ===== verification/WorkerSync.thy ===== *)
theory WorkerSync
  imports Worker
begin

text \<open>
  \<open>worker/src/synchronizer.rs\<close>: batches the primary misses are asked from other workers until the store
  has them. The futures, their cancel channels and the hash map \<open>pending\<close> are modelled as in the header
  waiter. Then the spawning of a worker, and how the requests of a primary's header waiter travel.
\<close>

section \<open>State\<close>

record worker_sync =
  ws_round :: round
  ws_pending :: "(digest \<times> round \<times> nat \<times> millis) list"
  ws_waiting :: "(digest \<times> nat) list"
  ws_next_channel :: nat

definition worker_sync_new :: worker_sync where
  "worker_sync_new = \<lparr>ws_round = 0, ws_pending = [], ws_waiting = [], ws_next_channel = 0\<rparr>"

datatype worker_sync_action =
  SendBatchRequest socket_addr bytes
| LuckyBatchRequest "socket_addr list" bytes usize

section \<open>Futures\<close>

definition batch_closed :: "nat \<Rightarrow> worker_sync \<Rightarrow> bool" where
  "batch_closed ch s \<longleftrightarrow> ch \<notin> (\<lambda>(_, _, ch, _). ch) ` set (ws_pending s)"

text \<open>\<open>None\<close> while the future is not ready; \<open>first\<close> is the choice of \<open>select!\<close> when both branches are.\<close>

definition batch_waiter :: "'db worker \<Rightarrow> 'db \<Rightarrow> bool \<Rightarrow> bool \<Rightarrow> digest \<Rightarrow> (rocksdb_error, digest option) result option" where
  "batch_waiter wk d cancelled first deliver =
     (if cancelled \<and> \<not> first then Some (Ok None)
      else case db_get (wk_rocksdb wk) d (digest_to_vec deliver) of
             Inl f \<Rightarrow> Some (Inl f)
           | Inr (Some _) \<Rightarrow> Some (Ok (Some deliver))
           | Inr None \<Rightarrow> if cancelled then Some (Ok None) else None)"

section \<open>Handlers\<close>

text \<open>The loop over the digests of a request: the missing ones, and the state with the new futures.\<close>

fun collect_missing :: "'db worker \<Rightarrow> 'db \<Rightarrow> millis \<Rightarrow> digest list \<Rightarrow> worker_sync \<Rightarrow> digest list \<times> worker_sync" where
  "collect_missing wk d now [] s = ([], s)"
| "collect_missing wk d now (x # digests) s =
     (if map_of (ws_pending s) x \<noteq> None then collect_missing wk d now digests s
      else case db_get (wk_rocksdb wk) d (digest_to_vec x) of
             Inl _ \<Rightarrow> collect_missing wk d now digests s
           | Inr found \<Rightarrow>
               (case collect_missing wk d now digests
                   (s\<lparr>ws_pending := ws_pending s @ [(x, ws_round s, ws_next_channel s, now)],
                      ws_waiting := ws_waiting s @ [(x, ws_next_channel s)],
                      ws_next_channel := Suc (ws_next_channel s)\<rparr>) of
                  (missing, s') \<Rightarrow> (if found = None then x # missing else missing, s')))"

fun sync_command ::
  "'db worker \<Rightarrow> 'db \<Rightarrow> millis \<Rightarrow> primary_worker_message \<Rightarrow> worker_sync \<Rightarrow> worker_sync \<times> worker_sync_action list" where
  "sync_command wk d now (Synchronize digests target) s =
     (case collect_missing wk d now digests s of (missing, s') \<Rightarrow>
        (s', case worker_of (wk_committee wk) target (wk_id wk) of
               Inl _ \<Rightarrow> []
             | Inr address \<Rightarrow> [SendBatchRequest (worker_to_worker address)
                 (ser_batch_message (wk_codec wk) (BatchRequest missing (wk_name wk)))]))"
| "sync_command wk d now (Cleanup r) s =
     (let s1 = s\<lparr>ws_round := r\<rparr> in
      if r < gc_depth (wk_parameters wk) then (s1, [])
      else let gc_round = r - gc_depth (wk_parameters wk) in
           (s1\<lparr>ws_pending := filter (\<lambda>(_, r', _, _). gc_round < r') (ws_pending s)\<rparr>, []))"
| "sync_command wk d now (BatchSilent _ _) s = (s, [])"

fun batch_completed :: "(rocksdb_error, digest option) result \<Rightarrow> worker_sync \<Rightarrow> worker_sync" where
  "batch_completed (Inr (Some x)) s = s\<lparr>ws_pending := filter (\<lambda>(y, _). y \<noteq> x) (ws_pending s)\<rparr>"
| "batch_completed (Inr None) s = s"
| "batch_completed (Inl _) s = s"

definition poll_batch :: "'db worker \<Rightarrow> 'db \<Rightarrow> nat \<Rightarrow> bool \<Rightarrow> worker_sync \<Rightarrow> worker_sync" where
  "poll_batch wk d i first s =
     (if length (ws_waiting s) \<le> i then s
      else case ws_waiting s ! i of (x, ch) \<Rightarrow>
        (case batch_waiter wk d (batch_closed ch s) first x of
           None \<Rightarrow> s
         | Some r \<Rightarrow> batch_completed r (s\<lparr>ws_waiting := take i (ws_waiting s) @ drop (Suc i) (ws_waiting s)\<rparr>)))"

definition retry_batches :: "'db worker \<Rightarrow> millis \<Rightarrow> worker_sync \<Rightarrow> worker_sync_action list" where
  "retry_batches wk now s =
     (let retry = map fst (filter (\<lambda>(_, _, _, timestamp). timestamp + ucast (sync_retry_delay (wk_parameters wk)) < now)
            (ws_pending s))
      in if retry = [] then []
         else [LuckyBatchRequest (map (\<lambda>(_, address). worker_to_worker address)
                 (others_workers (wk_committee wk) (wk_name wk) (wk_id wk)))
               (ser_batch_message (wk_codec wk) (BatchRequest retry (wk_name wk)))
               (sync_retry_nodes (wk_parameters wk))])"

section \<open>The run loop\<close>

datatype worker_sync_event =
  PrimaryCommand primary_worker_message
| BatchNext nat bool
| BatchRetryTimer

fun worker_sync_step ::
  "'db worker \<Rightarrow> 'db \<times> millis \<times> worker_sync_event \<Rightarrow> worker_sync \<Rightarrow> worker_sync \<times> worker_sync_action list" where
  "worker_sync_step wk (d, now, PrimaryCommand m) s = sync_command wk d now m s"
| "worker_sync_step wk (d, now, BatchNext i first) s = (poll_batch wk d i first s, [])"
| "worker_sync_step wk (d, now, BatchRetryTimer) s = (s, retry_batches wk now s)"

definition worker_sync_run ::
  "'db worker \<Rightarrow> ('db \<times> millis \<times> worker_sync_event) list \<Rightarrow> worker_sync \<Rightarrow> worker_sync \<times> worker_sync_action list list" where
  "worker_sync_run wk = run_steps (worker_sync_step wk)"

section \<open>Spawning a worker\<close>

definition handle_primary_messages :: "'db worker \<Rightarrow> (dag_error, socket_addr \<times> worker_sync) result" where
  "handle_primary_messages wk =
     (case worker_of (wk_committee wk) (wk_name wk) (wk_id wk) of
        Inl _ \<Rightarrow> Panicked
      | Inr w \<Rightarrow> Ok (listen_on (primary_to_worker w), worker_sync_new))"

record worker_tasks =
  wt_primary_messages :: "socket_addr \<times> worker_sync"
  wt_clients :: clients_tasks
  wt_workers_messages :: socket_addr
  wt_primary_address :: socket_addr

definition worker_spawn :: "'db worker \<Rightarrow> bool \<Rightarrow> (dag_error, worker_tasks) result" where
  "worker_spawn wk benchmark =
     and_then (handle_primary_messages wk) (\<lambda>pm.
     and_then (handle_clients_transactions wk benchmark) (\<lambda>ct.
     and_then (handle_workers_messages wk) (\<lambda>wm.
     and_then (primary_connector_spawn wk) (\<lambda>primary_address.
     case worker_of (wk_committee wk) (wk_name wk) (wk_id wk) of
       Inl _ \<Rightarrow> Panicked
     | Inr _ \<Rightarrow> Ok \<lparr>wt_primary_messages = pm, wt_clients = ct, wt_workers_messages = wm,
                     wt_primary_address = primary_address\<rparr>))))"

section \<open>Every pending digest has its future\<close>

definition worker_sync_inv :: "worker_sync \<Rightarrow> bool" where
  "worker_sync_inv s \<longleftrightarrow> (\<forall>(x, r, ch, timestamp) \<in> set (ws_pending s). (x, ch) \<in> set (ws_waiting s))"

lemma collect_missing_inv:
  "worker_sync_inv s \<Longrightarrow> worker_sync_inv (snd (collect_missing wk d now digests s))"
proof (induction digests arbitrary: s)
  case Nil
  then show ?case by simp
next
  case (Cons x digests)
  let ?s = "s\<lparr>ws_pending := ws_pending s @ [(x, ws_round s, ws_next_channel s, now)],
    ws_waiting := ws_waiting s @ [(x, ws_next_channel s)], ws_next_channel := Suc (ws_next_channel s)\<rparr>"
  have "worker_sync_inv ?s" using Cons.prems by (auto simp: worker_sync_inv_def)
  then show ?case
    using Cons.IH [OF Cons.prems] Cons.IH [of ?s] by (auto split: sum.split prod.split)
qed

lemma poll_batch_cases:
  assumes ok: "rocksdb_ok (wk_rocksdb wk)"
  obtains "poll_batch wk d i first s = s"
  | x ch where "i < length (ws_waiting s)" "ws_waiting s ! i = (x, ch)" "batch_closed ch s"
      "poll_batch wk d i first s = s\<lparr>ws_waiting := take i (ws_waiting s) @ drop (Suc i) (ws_waiting s)\<rparr>"
  | x ch where "i < length (ws_waiting s)" "ws_waiting s ! i = (x, ch)" "stored (wk_rocksdb wk) d (digest_to_vec x) \<noteq> None"
      "poll_batch wk d i first s = s\<lparr>ws_waiting := take i (ws_waiting s) @ drop (Suc i) (ws_waiting s),
         ws_pending := filter (\<lambda>(y, _). y \<noteq> x) (ws_pending s)\<rparr>"
proof (cases "i < length (ws_waiting s)")
  case True
  obtain x ch where w: "ws_waiting s ! i = (x, ch)" by (cases "ws_waiting s ! i")
  show thesis
    using that(1) that(2,3) [OF True w] True w
    by (cases "batch_closed ch s"; cases "stored (wk_rocksdb wk) d (digest_to_vec x)"; cases first)
      (simp_all add: poll_batch_def batch_waiter_def get_stored [OF ok])
next
  case False
  then show thesis using that(1) by (simp add: poll_batch_def)
qed

lemma set_take_nth_drop: "i < length xs \<Longrightarrow> set xs = insert (xs ! i) (set (take i xs) \<union> set (drop (Suc i) xs))"
  using arg_cong [OF id_take_nth_drop [of i xs], of set] by simp

lemma poll_batch_inv:
  assumes "rocksdb_ok (wk_rocksdb wk)" and "worker_sync_inv s"
  shows "worker_sync_inv (poll_batch wk d i first s)"
proof (cases rule: poll_batch_cases [OF assms(1), of d i first s])
  case 1
  then show ?thesis using assms(2) by simp
next
  case (2 x ch)
  then show ?thesis
    using assms(2) set_take_nth_drop [OF 2(1)] by (force simp: worker_sync_inv_def batch_closed_def)
next
  case (3 x ch)
  then show ?thesis using assms(2) set_take_nth_drop [OF 3(1)] by (auto simp: worker_sync_inv_def)
qed

lemma sync_command_inv:
  assumes "worker_sync_inv s"
  shows "worker_sync_inv (fst (sync_command wk d now m s))"
proof (cases m)
  case (Synchronize digests target)
  then show ?thesis using collect_missing_inv [OF assms] by (simp add: case_prod_unfold)
next
  case (Cleanup r)
  then show ?thesis using assms by (auto simp: worker_sync_inv_def Let_def)
next
  case (BatchSilent r silent)
  then show ?thesis using assms by simp
qed

lemma worker_sync_step_inv:
  assumes "rocksdb_ok (wk_rocksdb wk)" and "worker_sync_inv s"
  shows "worker_sync_inv (fst (worker_sync_step wk ev s))"
proof (cases "(wk, ev, s)" rule: worker_sync_step.cases)
  case (1 wk d now m s)
  then show ?thesis using assms sync_command_inv by simp
next
  case (2 wk d now i first s)
  then show ?thesis using poll_batch_inv assms by simp
next
  case (3 wk d now s)
  then show ?thesis using assms by simp
qed

lemma worker_sync_run_inv:
  "rocksdb_ok (wk_rocksdb wk) \<Longrightarrow> worker_sync_inv (fst (worker_sync_run wk events worker_sync_new))"
  unfolding worker_sync_run_def
  by (rule run_steps_invariant [where P = worker_sync_inv])
    (simp add: worker_sync_inv_def worker_sync_new_def, rule worker_sync_step_inv)

text \<open>A request: what is pending afterwards and what is asked for.\<close>

lemma collect_missing_result:
  assumes ok: "rocksdb_ok (wk_rocksdb wk)" and "collect_missing wk d now digests s = (missing, s')"
  shows "fst ` set (ws_pending s') = fst ` set (ws_pending s) \<union> set digests \<and>
    set missing = {x \<in> set digests. x \<notin> fst ` set (ws_pending s) \<and> stored (wk_rocksdb wk) d (digest_to_vec x) = None}"
  using assms(2)
proof (induction digests arbitrary: s missing)
  case Nil
  then show ?case by simp
next
  case (Cons x digests)
  show ?case
  proof (cases "map_of (ws_pending s) x = None")
    case False
    then have "x \<in> fst ` set (ws_pending s)" by (simp add: map_of_eq_None_iff)
    then show ?thesis using Cons.IH [of s missing] Cons.prems False by auto
  next
    case True
    then have new: "x \<notin> fst ` set (ws_pending s)" by (simp add: map_of_eq_None_iff)
    obtain missing' where 1: "collect_missing wk d now digests
        (s\<lparr>ws_pending := ws_pending s @ [(x, ws_round s, ws_next_channel s, now)],
           ws_waiting := ws_waiting s @ [(x, ws_next_channel s)],
           ws_next_channel := Suc (ws_next_channel s)\<rparr>) = (missing', s')"
      "missing = (if stored (wk_rocksdb wk) d (digest_to_vec x) = None then x # missing' else missing')"
      using Cons.prems True by (auto simp: get_stored [OF ok] split: prod.splits)
    show ?thesis using Cons.IH [OF 1(1)] 1(2) new by auto
  qed
qed

section \<open>Properties\<close>

text \<open>
  C29: A batch the primary misses is followed up: after any run, a digest that is pending has a future that,
  once the batch is in the store, ends the wait whenever it is polled; and until then every retry timer after
  the delay asks other workers for it. A request makes each of its digests pending, and asks the target
  for exactly those that were neither pending nor stored.
\<close>

theorem pending_batch_followed_up:
  assumes "rocksdb_ok (wk_rocksdb wk)" and "worker_sync_run wk events worker_sync_new = (s, out)"
  shows "(\<forall>x r ch timestamp. (x, r, ch, timestamp) \<in> set (ws_pending s) \<longrightarrow>
      (\<forall>d. stored (wk_rocksdb wk) d (digest_to_vec x) \<noteq> None \<longrightarrow>
        (\<exists>i < length (ws_waiting s). \<forall>first. x \<notin> fst ` set (ws_pending (poll_batch wk d i first s)))) \<and>
      (\<forall>now. timestamp + ucast (sync_retry_delay (wk_parameters wk)) < now \<longrightarrow>
        (\<exists>retry addresses. x \<in> set retry \<and> retry_batches wk now s =
           [LuckyBatchRequest addresses (ser_batch_message (wk_codec wk) (BatchRequest retry (wk_name wk)))
              (sync_retry_nodes (wk_parameters wk))]))) \<and>
    (\<forall>d now digests target address. worker_of (wk_committee wk) target (wk_id wk) = Ok address \<longrightarrow>
      (\<exists>missing s'. sync_command wk d now (Synchronize digests target) s =
         (s', [SendBatchRequest (worker_to_worker address) (ser_batch_message (wk_codec wk) (BatchRequest missing (wk_name wk)))]) \<and>
       set digests \<subseteq> fst ` set (ws_pending s') \<and>
       set missing = {x \<in> set digests. x \<notin> fst ` set (ws_pending s) \<and> stored (wk_rocksdb wk) d (digest_to_vec x) = None}))"
proof -
  have inv: "worker_sync_inv s" using worker_sync_run_inv [OF assms(1), of events] assms(2) by simp
  have poll: "\<exists>i < length (ws_waiting s). \<forall>first. x \<notin> fst ` set (ws_pending (poll_batch wk d i first s))"
    if p: "(x, r, ch, timestamp) \<in> set (ws_pending s)" and st: "stored (wk_rocksdb wk) d (digest_to_vec x) \<noteq> None"
    for x r ch timestamp d
  proof -
    have "(x, ch) \<in> set (ws_waiting s)" using inv p by (auto simp: worker_sync_inv_def)
    then obtain i where i: "i < length (ws_waiting s)" "ws_waiting s ! i = (x, ch)" by (auto simp: in_set_conv_nth)
    have "\<not> batch_closed ch s" using p by (force simp: batch_closed_def)
    then show ?thesis
      using i st by (intro exI [of _ i]) (auto simp: poll_batch_def batch_waiter_def get_stored [OF assms(1)])
  qed
  have retry: "\<exists>retry addresses. x \<in> set retry \<and> retry_batches wk now s =
      [LuckyBatchRequest addresses (ser_batch_message (wk_codec wk) (BatchRequest retry (wk_name wk))) (sync_retry_nodes (wk_parameters wk))]"
    if "(x, r, ch, timestamp) \<in> set (ws_pending s)" "timestamp + ucast (sync_retry_delay (wk_parameters wk)) < now"
    for x r ch timestamp now
  proof -
    let ?retry = "map fst (filter (\<lambda>(_, _, _, timestamp). timestamp + ucast (sync_retry_delay (wk_parameters wk)) < now) (ws_pending s))"
    have "x \<in> set ?retry" using that by force
    moreover from this have "?retry \<noteq> []" by (metis empty_iff empty_set)
    ultimately show ?thesis unfolding retry_batches_def Let_def by (intro exI [of _ ?retry]) (simp only: if_False, simp)
  qed
  have request: "\<exists>missing s'. sync_command wk d now (Synchronize digests target) s =
      (s', [SendBatchRequest (worker_to_worker address) (ser_batch_message (wk_codec wk) (BatchRequest missing (wk_name wk)))]) \<and>
    set digests \<subseteq> fst ` set (ws_pending s') \<and>
    set missing = {x \<in> set digests. x \<notin> fst ` set (ws_pending s) \<and> stored (wk_rocksdb wk) d (digest_to_vec x) = None}"
    if "worker_of (wk_committee wk) target (wk_id wk) = Ok address" for d now digests target address
    using that collect_missing_result [OF assms(1), of d now digests s] by (cases "collect_missing wk d now digests s") auto
  show ?thesis by (intro conjI allI impI) (erule poll retry request, assumption?)+
qed

theorem pending_batch_followed_up_witness:
  "\<exists>s out. worker_sync_run ex_worker [([], 0, PrimaryCommand (Synchronize [Digest 5] (PublicKey 2)))] worker_sync_new = (s, out) \<and>
     (Digest 5, 0, 0, 0) \<in> set (ws_pending s) \<and>
     (\<exists>i < length (ws_waiting s). \<forall>first.
        Digest 5 \<notin> fst ` set (ws_pending (poll_batch ex_worker [(digest_to_vec (Digest 5), [0])] i first s)))"
proof -
  let ?events = "[([], 0, PrimaryCommand (Synchronize [Digest 5] (PublicKey 2)))]"
  obtain s out where run: "worker_sync_run ex_worker ?events worker_sync_new = (s, out)" by fastforce
  have p: "(Digest 5, 0, 0, 0) \<in> set (ws_pending s)"
    using run by (auto simp: worker_sync_run_def worker_sync_new_def ex_rocksdb_def split: sum.splits)
  have "stored ex_rocksdb [(digest_to_vec (Digest 5), [0])] (digest_to_vec (Digest 5)) \<noteq> None"
    by (simp add: stored_def ex_rocksdb_def)
  with pending_batch_followed_up [OF _ run] p run show ?thesis by fastforce
qed

section \<open>Requests of the header waiter\<close>

lemma send_synchronize_all:
  "op_for syncs (send_synchronize nd author) s = (Ok (), s', out) \<Longrightarrow> SendSync address bs \<in> set out \<Longrightarrow>
   \<exists>wid w digests. worker_of (nd_committee nd) author wid = Ok w \<and> address = primary_to_worker w \<and>
     bs = ser_worker_message (nd_codec nd) (Synchronize digests author)"
proof (induction syncs arbitrary: s out)
  case Nil
  then show ?case by simp
next
  case (Cons sync syncs)
  obtain wid digests where sync: "sync = (wid, digests)" by (cases sync)
  show ?case
  proof (cases "worker_of (nd_committee nd) author wid")
    case (Inl e)
    then show ?thesis using Cons.prems(1) sync by (simp add: send_synchronize_def op_then_def op_bind_def)
  next
    case (Inr w)
    then obtain out2 where "op_for syncs (send_synchronize nd author) s = (Ok (), s', out2)"
      "out = SendSync (primary_to_worker w) (ser_worker_message (nd_codec nd) (Synchronize digests author)) # out2"
      using Cons.prems(1) sync by (auto simp: send_synchronize_def op_then_def op_bind_def split: prod.splits sum.splits)
    then show ?thesis using Cons.IH [of s out2] Cons.prems(2) Inr by auto
  qed
qed

text \<open>
  C36: The batches of another authority are never fetched through the header waiter: its requests go to workers
  of the author of the header and not to ours, and such a worker, which has the batches, answers by
  asking itself for nothing.
\<close>

theorem batch_request_misdirected:
  assumes "sync_message nd now (SyncBatches missing h) s = (Ok b, s', out)" and "SendSync address bs \<in> set out"
  shows "\<exists>wid w digests. worker_of (nd_committee nd) (h_author h) wid = Ok w \<and> address = primary_to_worker w \<and>
    bs = ser_worker_message (nd_codec nd) (Synchronize digests (h_author h)) \<and>
    (\<forall>(wk :: 'w worker) d now t. rocksdb_ok (wk_rocksdb wk) \<and> wk_committee wk = nd_committee nd \<and> wk_name wk = h_author h \<and> wk_id wk = wid \<and>
       (\<forall>x \<in> set digests. stored (wk_rocksdb wk) d (digest_to_vec x) \<noteq> None) \<longrightarrow>
       snd (sync_command wk d now (Synchronize digests (h_author h)) t) =
         [SendBatchRequest (worker_to_worker w) (ser_batch_message (wk_codec wk) (BatchRequest [] (wk_name wk)))])"
proof -
  obtain syncs t t' out' where "op_for syncs (send_synchronize nd (h_author h)) t = (Ok (), t', out')" "SendSync address bs \<in> set out'"
    using assms by (auto simp: op_bind_def op_then_def await_header_def split: if_splits prod.splits sum.splits)
  from send_synchronize_all [OF this] obtain wid w digests where
    w: "worker_of (nd_committee nd) (h_author h) wid = Ok w" "address = primary_to_worker w"
      "bs = ser_worker_message (nd_codec nd) (Synchronize digests (h_author h))" by blast
  have "snd (sync_command wk d now (Synchronize digests (h_author h)) t) =
      [SendBatchRequest (worker_to_worker w) (ser_batch_message (wk_codec wk) (BatchRequest [] (wk_name wk)))]"
    if "rocksdb_ok (wk_rocksdb wk)" "wk_committee wk = nd_committee nd" "wk_name wk = h_author h" "wk_id wk = wid"
      "\<forall>x \<in> set digests. stored (wk_rocksdb wk) d (digest_to_vec x) \<noteq> None" for wk :: "'w worker" and d now t
  proof -
    obtain ms t' where ms: "collect_missing wk d now digests t = (ms, t')" by fastforce
    have "ms = []" using collect_missing_result [OF that(1) ms] that(5) by (auto simp flip: set_empty)
    then show ?thesis using ms that(2,4) w(1) by simp
  qed
  with w show ?thesis by blast
qed

theorem batch_request_misdirected_witness:
  "\<exists>s' address bs w. sync_message ex_node 0 (SyncBatches [(Digest 6, 0)] (ex_header\<lparr>h_author := PublicKey 2\<rparr>)) header_waiter_new =
     (Ok True, s', [SendSync address bs]) \<and> address \<noteq> primary_to_worker w \<and> worker_of ex_committee (PublicKey 1) 0 = Ok w"
proof -
  let ?h = "ex_header\<lparr>h_author := PublicKey 2\<rparr>"
  have "\<exists>s' address bs. sync_message ex_node 0 (SyncBatches [(Digest 6, 0)] ?h) header_waiter_new =
      (Ok True, s', [SendSync address bs]) \<and> address = ex_addr 2004"
    by (simp add: op_bind_def op_then_def header_waiter_new_def await_header_def send_synchronize_def worker_of_def
        ex_committee_def ex_authority_def cong: op_congs)
  then obtain s' address bs where run: "sync_message ex_node 0 (SyncBatches [(Digest 6, 0)] ?h) header_waiter_new =
      (Ok True, s', [SendSync address bs])" by (elim exE conjE)
  obtain wid w where "worker_of ex_committee (PublicKey 2) wid = Ok w" "address = primary_to_worker w"
    using batch_request_misdirected [OF run, of address bs] by auto
  then have "address = ex_addr 2004"
    by (auto simp: worker_of_def ex_committee_def ex_authority_def split: if_splits)
  moreover have "\<exists>w. worker_of ex_committee (PublicKey 1) 0 = Ok w \<and> primary_to_worker w = ex_addr 1004"
    by (simp add: worker_of_def ex_committee_def ex_authority_def)
  ultimately show ?thesis using run by (auto simp: ex_addr_def)
qed

end
