(* ===== verification/WorkerNode.thy ===== *)
theory WorkerNode
  imports WorkerSync
begin

text \<open>
  A whole worker (\<open>Worker::spawn\<close> of \<open>worker/src/worker.rs\<close>): its tasks, the channels between them and the store
  they share as one state machine, in the manner of \<open>Primary\<close>. A run is any interleaving of the tasks.
\<close>

section \<open>Tasks and channels\<close>

text \<open>The channel of transactions and the watched pause flag are in the state of the batch maker.\<close>

record 'db worker_node =
  wn_db :: 'db
  wn_batch_maker :: batch_maker
  wn_stake :: stake
  wn_sync :: worker_sync
  wn_connector :: simple_sender
  wn_primary_address :: socket_addr
  rx_quorum_waiter :: "(bytes \<times> (public_key \<times> nat) list) list"
  rx_own_batches :: "bytes list"
  rx_others_batches :: "bytes list"
  rx_helper :: "(digest list \<times> public_key) list"
  rx_synchronizer :: "primary_worker_message list"
  rx_primary :: "bytes list"

datatype worker_output =
  BatchOutput batch_action
| WorkerAckSent bytes
| BatchReply socket_addr bytes
| SyncOutput worker_sync_action
| ReportOutput simple_action

type_synonym 'db worker_op = "('db worker_node, worker_output, dag_error, unit) op"

definition worker_node_spawn :: "'db worker \<Rightarrow> bool \<Rightarrow> 'db \<Rightarrow> (dag_error, 'db worker_node) result" where
  "worker_node_spawn wk benchmark d =
     and_then (worker_spawn wk benchmark) (\<lambda>t.
       Ok \<lparr>wn_db = d, wn_batch_maker = ct_batch_maker (wt_clients t), wn_stake = ct_stake (wt_clients t),
           wn_sync = snd (wt_primary_messages t), wn_connector = simple_sender_new, wn_primary_address = wt_primary_address t,
           rx_quorum_waiter = [], rx_own_batches = [], rx_others_batches = [], rx_helper = [], rx_synchronizer = [],
           rx_primary = []\<rparr>)"

section \<open>Steps of the tasks\<close>

text \<open>What a handler of the network puts into the channels, and the acknowledgements it writes back.\<close>

fun deliver_worker :: "worker_delivery \<Rightarrow> 'db worker_node \<Rightarrow> 'db worker_node" where
  "deliver_worker (ToBatchMaker tx) n =
     n\<lparr>wn_batch_maker := (wn_batch_maker n)\<lparr>bm_channel := bm_channel (wn_batch_maker n) @ [tx]\<rparr>\<rparr>"
| "deliver_worker (SetBatchSilent r paused) n = n\<lparr>wn_batch_maker := (wn_batch_maker n)\<lparr>bm_silent := (r, paused)\<rparr>\<rparr>"
| "deliver_worker (ToProcessor batch) n = n\<lparr>rx_others_batches := rx_others_batches n @ [batch]\<rparr>"
| "deliver_worker (ToWorkerHelper missing origin) n = n\<lparr>rx_helper := rx_helper n @ [(missing, origin)]\<rparr>"
| "deliver_worker (ToSynchronizer m) n = n\<lparr>rx_synchronizer := rx_synchronizer n @ [m]\<rparr>"
| "deliver_worker (WorkerAck _) n = n"

definition worker_acks :: "worker_delivery list \<Rightarrow> worker_output list" where
  "worker_acks deliveries = concat (map (\<lambda>a. case a of WorkerAck bs \<Rightarrow> [WorkerAckSent bs] | _ \<Rightarrow> []) deliveries)"

definition frame_task :: "worker_delivery list \<Rightarrow> 'db worker_op" where
  "frame_task deliveries n = (Ok (), fold deliver_worker deliveries n, worker_acks deliveries)"

definition batch_maker_task :: "'db worker \<Rightarrow> batch_maker_event \<Rightarrow> 'db worker_op" where
  "batch_maker_task wk ev n =
     (case batch_maker_step wk ev (wn_batch_maker n) of (r, m, out) \<Rightarrow>
        (r, n\<lparr>wn_batch_maker := m, rx_quorum_waiter := rx_quorum_waiter n @ broadcasts out\<rparr>, map BatchOutput out))"

text \<open>
  The handlers of a batch complete in the given order. The quorum waiter goes on to the next batch when it has a quorum or
  every handler has completed; until then it still waits.
\<close>

definition quorum_waiter_task :: "'db worker \<Rightarrow> nat list \<Rightarrow> bytes \<times> (public_key \<times> nat) list \<Rightarrow> 'db worker_op" where
  "quorum_waiter_task wk order message n =
     (let batches = quorum_waiter_step (wk_committee wk) (wn_stake n) order message in
      if batches = [] \<and> \<not> snd ` set (snd message) \<subseteq> set order
      then (Ok (), n\<lparr>rx_quorum_waiter := message # rx_quorum_waiter n\<rparr>, [])
      else (Ok (), n\<lparr>rx_own_batches := rx_own_batches n @ batches\<rparr>, []))"

definition processor_task :: "'db worker \<Rightarrow> bool \<Rightarrow> bytes \<Rightarrow> 'db worker_op" where
  "processor_task wk own_digest batch n =
     (case processor_step wk own_digest batch (wn_db n) of (d, message) \<Rightarrow>
        (Ok (), n\<lparr>wn_db := d, rx_primary := rx_primary n @ [message]\<rparr>, []))"

definition worker_helper_task :: "'db worker \<Rightarrow> digest list \<times> public_key \<Rightarrow> 'db worker_op" where
  "worker_helper_task wk request n =
     (Ok (), n, map (\<lambda>(a, bs). BatchReply a bs) (worker_helper_step wk (wn_db n) request))"

definition worker_sync_task :: "'db worker \<Rightarrow> millis \<Rightarrow> worker_sync_event \<Rightarrow> 'db worker_op" where
  "worker_sync_task wk now ev n =
     (case worker_sync_step wk (wn_db n, now, ev) (wn_sync n) of (s, out) \<Rightarrow>
        (Ok (), n\<lparr>wn_sync := s\<rparr>, map SyncOutput out))"

definition connector_task :: "bool \<Rightarrow> bytes \<Rightarrow> 'db worker_op" where
  "connector_task alive message n =
     (case primary_connector_step (\<lambda>_. alive) (wn_primary_address n) message (wn_connector n) of (c, out) \<Rightarrow>
        (Ok (), n\<lparr>wn_connector := c\<rparr>, map ReportOutput out))"

datatype worker_event =
  ClientFrame bytes
| BatchFrame bytes
| CommandFrame bytes
| MakerTransaction
| MakerTimer
| QuorumWait "nat list"
| ProcessOwn
| ProcessOthers
| HelperRequest
| SyncRequested millis
| SyncFuture millis nat bool
| SyncTimer millis
| ReportDigest bool

fun worker_step :: "'db worker \<Rightarrow> worker_event \<Rightarrow> 'db worker_op" where
  "worker_step wk (ClientFrame bs) = frame_task (dispatch_transaction bs)"
| "worker_step wk (BatchFrame bs) = frame_task (dispatch_batch (wk_codec wk) bs)"
| "worker_step wk (CommandFrame bs) =
     op_bind (op_get (\<lambda>n. bm_silent (wn_batch_maker n))) (\<lambda>watched. frame_task (dispatch_command (wk_codec wk) bs watched))"
| "worker_step wk MakerTransaction = batch_maker_task wk TakeTransaction"
| "worker_step wk MakerTimer = batch_maker_task wk BatchTimer"
| "worker_step wk (QuorumWait order) =
     receive rx_quorum_waiter (\<lambda>q. rx_quorum_waiter_update (\<lambda>_. q)) (quorum_waiter_task wk order)"
| "worker_step wk ProcessOwn = receive rx_own_batches (\<lambda>q. rx_own_batches_update (\<lambda>_. q)) (processor_task wk True)"
| "worker_step wk ProcessOthers = receive rx_others_batches (\<lambda>q. rx_others_batches_update (\<lambda>_. q)) (processor_task wk False)"
| "worker_step wk HelperRequest = receive rx_helper (\<lambda>q. rx_helper_update (\<lambda>_. q)) (worker_helper_task wk)"
| "worker_step wk (SyncRequested now) =
     receive rx_synchronizer (\<lambda>q. rx_synchronizer_update (\<lambda>_. q)) (\<lambda>m. worker_sync_task wk now (PrimaryCommand m))"
| "worker_step wk (SyncFuture now i first) = worker_sync_task wk now (BatchNext i first)"
| "worker_step wk (SyncTimer now) = worker_sync_task wk now BatchRetryTimer"
| "worker_step wk (ReportDigest alive) = receive rx_primary (\<lambda>q. rx_primary_update (\<lambda>_. q)) (connector_task alive)"

definition worker_run :: "'db worker \<Rightarrow> worker_event list \<Rightarrow> 'db worker_op" where
  "worker_run wk events = op_for events (worker_step wk)"

section \<open>What a worker reports\<close>

definition batch_outputs :: "worker_output list \<Rightarrow> batch_action list" where
  "batch_outputs out = concat (map (\<lambda>a. case a of BatchOutput b \<Rightarrow> [b] | _ \<Rightarrow> []) out)"

definition reports :: "worker_output list \<Rightarrow> bytes list" where
  "reports out = concat (map (\<lambda>a. case a of ReportOutput (Enqueue _ m) \<Rightarrow> [m] | _ \<Rightarrow> []) out)"

lemma batch_outputs_simps [simp]:
  "batch_outputs [] = []" "batch_outputs (out1 @ out2) = batch_outputs out1 @ batch_outputs out2"
  "batch_outputs (map BatchOutput acts) = acts" "batch_outputs (worker_acks deliveries) = []"
  "batch_outputs (map SyncOutput sacts) = []" "batch_outputs (map ReportOutput racts) = []"
  "batch_outputs (map (\<lambda>(a, bs). BatchReply a bs) replies) = []"
  by (induction acts)
    (auto simp: batch_outputs_def worker_acks_def concat_eq_Nil_conv split: worker_delivery.splits)

lemma reports_simps [simp]:
  "reports [] = []" "reports (out1 @ out2) = reports out1 @ reports out2"
  "reports (map BatchOutput acts) = []" "reports (worker_acks deliveries) = []"
  "reports (map SyncOutput sacts) = []" "reports (map (\<lambda>(a, bs). BatchReply a bs) replies) = []"
  by (auto simp: reports_def worker_acks_def concat_eq_Nil_conv split: worker_delivery.splits)

text \<open>A batch with the digest of \<open>b\<close> is in the store.\<close>

definition available :: "'db worker \<Rightarrow> 'db \<Rightarrow> bytes \<Rightarrow> bool" where
  "available wk d b \<longleftrightarrow>
     (\<exists>b'. stored (wk_rocksdb wk) d (digest_to_vec (batch_digest (wk_crypto wk) b)) = Some b' \<and>
        batch_digest (wk_crypto wk) b' = batch_digest (wk_crypto wk) b)"

lemma available_put:
  assumes "rocksdb_ok (wk_rocksdb wk)"
  shows "available wk d b \<Longrightarrow> available wk (db_put (wk_rocksdb wk) d (digest_to_vec (batch_digest (wk_crypto wk) b')) b') b"
    and "available wk (db_put (wk_rocksdb wk) d (digest_to_vec (batch_digest (wk_crypto wk) b)) b) b"
  using assms by (auto simp: available_def database.read_write dest: digest_to_vec_inject [THEN iffD1])

text \<open>
  The batches in the channels: \<open>mine\<close> are the ones with a quorum among the \<open>sealed\<close>, \<open>others\<close> the ones received; a
  message for the primary is about one of them that is in the store.
\<close>

definition reported :: "'db worker \<Rightarrow> bytes set \<Rightarrow> bytes set \<Rightarrow> 'db \<Rightarrow> bytes \<Rightarrow> bool" where
  "reported wk mine others d m \<longleftrightarrow>
     (\<exists>b. available wk d b \<and>
        (b \<in> mine \<and> m = ser_digest_message (wk_codec wk) (digest_message wk True b) \<or>
         b \<in> others \<and> m = ser_digest_message (wk_codec wk) (digest_message wk False b)))"

definition worker_inv ::
  "'db worker \<Rightarrow> (bytes \<times> (public_key \<times> nat) list) set \<Rightarrow> bytes set \<Rightarrow> bytes set \<Rightarrow> 'db worker_node \<Rightarrow> bool" where
  "worker_inv wk sealed mine others n \<longleftrightarrow>
     wn_stake n = stake_of (wk_committee wk) (wk_name wk) \<and> set (rx_quorum_waiter n) \<subseteq> sealed \<and>
     set (rx_own_batches n) \<subseteq> mine \<and> set (rx_others_batches n) \<subseteq> others \<and>
     (\<forall>m \<in> set (rx_primary n). reported wk mine others (wn_db n) m)"

definition quorum_of :: "'db worker \<Rightarrow> (bytes \<times> (public_key \<times> nat) list) set \<Rightarrow> worker_event list \<Rightarrow> bytes set" where
  "quorum_of wk sealed events =
     {b. \<exists>handlers order. (b, handlers) \<in> sealed \<and> QuorumWait order \<in> set events \<and>
        quorum_waiter_step (wk_committee wk) (stake_of (wk_committee wk) (wk_name wk)) order (b, handlers) = [b]}"

definition received_batches :: "'db worker \<Rightarrow> worker_event list \<Rightarrow> bytes set" where
  "received_batches wk events =
     {b. BatchFrame b \<in> set events \<and> (\<exists>txs. de_batch_message (wk_codec wk) b = Some (BatchMsg txs))}"

lemma deliver_worker_same:
  "wn_db (fold deliver_worker deliveries n) = wn_db n" "wn_stake (fold deliver_worker deliveries n) = wn_stake n"
  "rx_quorum_waiter (fold deliver_worker deliveries n) = rx_quorum_waiter n"
  "rx_own_batches (fold deliver_worker deliveries n) = rx_own_batches n"
  "rx_primary (fold deliver_worker deliveries n) = rx_primary n"
proof -
  have one: "wn_db (deliver_worker a n) = wn_db n \<and> wn_stake (deliver_worker a n) = wn_stake n \<and>
      rx_quorum_waiter (deliver_worker a n) = rx_quorum_waiter n \<and> rx_own_batches (deliver_worker a n) = rx_own_batches n \<and>
      rx_primary (deliver_worker a n) = rx_primary n" for a and n :: "'a worker_node"
    by (cases a) simp_all
  show "wn_db (fold deliver_worker deliveries n) = wn_db n" "wn_stake (fold deliver_worker deliveries n) = wn_stake n"
    "rx_quorum_waiter (fold deliver_worker deliveries n) = rx_quorum_waiter n"
    "rx_own_batches (fold deliver_worker deliveries n) = rx_own_batches n"
    "rx_primary (fold deliver_worker deliveries n) = rx_primary n"
    by (induction deliveries arbitrary: n) (simp_all add: one)
qed

lemma deliver_worker_others:
  "set (rx_others_batches (fold deliver_worker deliveries n)) = set (rx_others_batches n) \<union> {b. ToProcessor b \<in> set deliveries}"
proof (induction deliveries arbitrary: n)
  case (Cons a deliveries)
  then show ?case by (cases a) auto
qed simp

lemma dispatched_batches:
  "ToProcessor b \<in> set (dispatch_batch codec bs) \<longleftrightarrow> b = bs \<and> (\<exists>txs. de_batch_message codec bs = Some (BatchMsg txs))"
  "ToProcessor b \<notin> set (dispatch_transaction bs)" "ToProcessor b \<notin> set (dispatch_command codec bs watched)"
proof -
  show "ToProcessor b \<in> set (dispatch_batch codec bs) \<longleftrightarrow> b = bs \<and> (\<exists>txs. de_batch_message codec bs = Some (BatchMsg txs))"
    by (cases "de_batch_message codec bs"; cases "the (de_batch_message codec bs)") (auto simp: dispatch_batch_def)
  show "ToProcessor b \<notin> set (dispatch_transaction bs)" "ToProcessor b \<notin> set (dispatch_command codec bs watched)"
    by (auto simp: dispatch_transaction_def dispatch_command_def split: option.split primary_worker_message.split)
qed

lemma worker_inv_frame:
  assumes "worker_inv wk sealed mine others n" and "\<And>b. ToProcessor b \<in> set deliveries \<Longrightarrow> b \<in> others"
  shows "worker_inv wk sealed mine others (fold deliver_worker deliveries n)"
  using assms unfolding worker_inv_def deliver_worker_same deliver_worker_others by blast

lemma reported_put:
  "rocksdb_ok (wk_rocksdb wk) \<Longrightarrow> reported wk mine others d m \<Longrightarrow>
   reported wk mine others (db_put (wk_rocksdb wk) d (digest_to_vec (batch_digest (wk_crypto wk) b)) b) m"
  unfolding reported_def by (elim exE conjE) (intro exI conjI available_put(1); assumption)

lemma quorum_waiter_own:
  assumes "m \<in> sealed" and "quorum_of wk sealed events \<subseteq> mine" and "QuorumWait order \<in> set events"
  shows "set (quorum_waiter_step (wk_committee wk) (stake_of (wk_committee wk) (wk_name wk)) order m) \<subseteq> mine"
proof
  fix b
  assume b: "b \<in> set (quorum_waiter_step (wk_committee wk) (stake_of (wk_committee wk) (wk_name wk)) order m)"
  obtain b' handlers where m: "m = (b', handlers)" by (cases m)
  then have "quorum_waiter_step (wk_committee wk) (stake_of (wk_committee wk) (wk_name wk)) order (b', handlers) = [b']" "b' = b"
    using b by (auto simp: quorum_waiter_step_def Let_def split: if_splits)
  then show "b \<in> mine" using assms m by (auto simp: quorum_of_def)
qed

text \<open>One step keeps the invariant for the final sets, and reports only what it allows.\<close>

lemma worker_step_inv:
  assumes db: "rocksdb_ok (wk_rocksdb wk)" and inv: "worker_inv wk sealed mine others n"
    and run: "worker_step wk ev n = (r, n', out)" and ev: "ev \<in> set events"
    and sets: "set (broadcasts (batch_outputs out)) \<subseteq> sealed" "quorum_of wk sealed events \<subseteq> mine" "received_batches wk events \<subseteq> others"
  shows "worker_inv wk sealed mine others n' \<and> (\<forall>m \<in> set (reports out). reported wk mine others (wn_db n') m) \<and>
    (\<forall>m. reported wk mine others (wn_db n) m \<longrightarrow> reported wk mine others (wn_db n') m)"
proof (cases ev)
  case (ClientFrame bs)
  then show ?thesis
    using run inv by (auto simp: frame_task_def deliver_worker_same dispatched_batches intro: worker_inv_frame)
next
  case (BatchFrame bs)
  then have "ToProcessor b \<in> set (dispatch_batch (wk_codec wk) bs) \<Longrightarrow> b \<in> others" for b
    using ev sets(3) by (auto simp: dispatched_batches received_batches_def)
  then show ?thesis
    using BatchFrame run inv by (auto simp: frame_task_def deliver_worker_same intro: worker_inv_frame)
next
  case (CommandFrame bs)
  then show ?thesis
    using run inv by (auto simp: op_bind_def frame_task_def deliver_worker_same dispatched_batches intro: worker_inv_frame)
next
  case MakerTransaction
  then show ?thesis
    using run inv sets(1) by (auto simp: batch_maker_task_def worker_inv_def split: prod.splits)
next
  case MakerTimer
  then show ?thesis
    using run inv sets(1) by (auto simp: batch_maker_task_def worker_inv_def split: prod.splits)
next
  case (QuorumWait order)
  have stake: "wn_stake n = stake_of (wk_committee wk) (wk_name wk)" using inv by (simp add: worker_inv_def)
  show ?thesis
  proof (cases "rx_quorum_waiter n")
    case Nil
    then show ?thesis using run inv QuorumWait by (auto simp: receive_def)
  next
    case (Cons m rest)
    then have "m \<in> sealed" using inv by (simp add: worker_inv_def)
    from quorum_waiter_own [OF this sets(2), of order] ev QuorumWait
    have "set (quorum_waiter_step (wk_committee wk) (wn_stake n) order m) \<subseteq> mine" using stake by simp
    then show ?thesis
      using Cons run inv QuorumWait
      by (auto simp: receive_def quorum_waiter_task_def worker_inv_def Let_def split: if_splits)
  qed
next
  case ProcessOwn
  show ?thesis
  proof (cases "rx_own_batches n")
    case Nil
    then show ?thesis using run inv ProcessOwn by (auto simp: receive_def)
  next
    case (Cons b rest)
    then have b: "b \<in> mine" using inv by (simp add: worker_inv_def)
    have "reported wk mine others (db_put (wk_rocksdb wk) (wn_db n) (digest_to_vec (batch_digest (wk_crypto wk) b)) b)
        (ser_digest_message (wk_codec wk) (digest_message wk True b))"
      using b available_put(2) [OF db] by (auto simp: reported_def)
    then show ?thesis
      using Cons run inv ProcessOwn reported_put [OF db]
      by (auto simp: receive_def processor_task_def processor_step_def worker_inv_def)
  qed
next
  case ProcessOthers
  show ?thesis
  proof (cases "rx_others_batches n")
    case Nil
    then show ?thesis using run inv ProcessOthers by (auto simp: receive_def)
  next
    case (Cons b rest)
    then have b: "b \<in> others" using inv by (simp add: worker_inv_def)
    have "reported wk mine others (db_put (wk_rocksdb wk) (wn_db n) (digest_to_vec (batch_digest (wk_crypto wk) b)) b)
        (ser_digest_message (wk_codec wk) (digest_message wk False b))"
      using b available_put(2) [OF db] by (auto simp: reported_def)
    then show ?thesis
      using Cons run inv ProcessOthers reported_put [OF db]
      by (auto simp: receive_def processor_task_def processor_step_def worker_inv_def)
  qed
next
  case (ReportDigest alive)
  then show ?thesis
    using run inv
    by (cases "rx_primary n")
      (auto simp: receive_def connector_task_def primary_connector_step_def simple_send_def worker_inv_def reports_def split: if_splits)
qed (use run inv in \<open>auto simp: receive_def worker_helper_task_def worker_sync_task_def worker_inv_def
      split: list.splits prod.splits\<close>)

lemma worker_run_inv:
  assumes db: "rocksdb_ok (wk_rocksdb wk)" and "worker_inv wk sealed mine others n"
    and "op_for evs (worker_step wk) n = (r, n', out)" and "set evs \<subseteq> set events"
    and "set (broadcasts (batch_outputs out)) \<subseteq> sealed" and "quorum_of wk sealed events \<subseteq> mine" "received_batches wk events \<subseteq> others"
  shows "(\<forall>m \<in> set (reports out). reported wk mine others (wn_db n') m) \<and>
    (\<forall>m. reported wk mine others (wn_db n) m \<longrightarrow> reported wk mine others (wn_db n') m)"
  using assms(2-5)
proof (induction evs arbitrary: n out)
  case Nil
  then show ?case by simp
next
  case (Cons ev evs)
  obtain r1 n1 out1 where 1: "worker_step wk ev n = (r1, n1, out1)" by (cases "worker_step wk ev n")
  show ?case
  proof (cases r1)
    case (Inl f)
    then have "n' = n1" "out = out1" using Cons.prems(2) 1 by (auto simp: op_then_def op_bind_def)
    then show ?thesis
      using worker_step_inv [OF db Cons.prems(1) 1, of events] Cons.prems(3,4) assms(6,7) by auto
  next
    case (Inr u)
    then obtain out2 where 2: "op_for evs (worker_step wk) n1 = (r, n', out2)" and fin: "out = out1 @ out2"
      using Cons.prems(2) 1 by (auto simp: op_then_def op_bind_def split: prod.splits)
    have step: "worker_inv wk sealed mine others n1 \<and> (\<forall>m \<in> set (reports out1). reported wk mine others (wn_db n1) m) \<and>
        (\<forall>m. reported wk mine others (wn_db n) m \<longrightarrow> reported wk mine others (wn_db n1) m)"
      using Cons.prems(3,4) assms(6,7) fin by (intro worker_step_inv [OF db Cons.prems(1) 1]) auto
    have "(\<forall>m \<in> set (reports out2). reported wk mine others (wn_db n') m) \<and>
        (\<forall>m. reported wk mine others (wn_db n1) m \<longrightarrow> reported wk mine others (wn_db n') m)"
      using Cons.prems(3,4) step fin by (intro Cons.IH [OF _ 2]) auto
    then show ?thesis using step fin by auto
  qed
qed

section \<open>The batch maker inside a worker\<close>

definition client_transactions :: "worker_event list \<Rightarrow> transaction list" where
  "client_transactions events = concat (map (\<lambda>ev. case ev of ClientFrame bs \<Rightarrow> [bs] | _ \<Rightarrow> []) events)"

text \<open>The handlers of a broadcast belong to the other workers, in their order.\<close>

definition for_peers :: "'db worker_node \<Rightarrow> 'db worker_node \<Rightarrow> worker_output list \<Rightarrow> bool" where
  "for_peers n n' out \<longleftrightarrow>
     bm_workers (wn_batch_maker n') = bm_workers (wn_batch_maker n) \<and>
     (\<forall>(bs, hs) \<in> set (broadcasts (batch_outputs out)). \<exists>k.
        hs = zip (map fst (bm_workers (wn_batch_maker n))) [k..<k + length (bm_workers (wn_batch_maker n))])"

interpretation for_peers: transition for_peers
  by unfold_locales (auto simp: for_peers_def)

lemma seal_peers:
  assumes "seal wk s = (r, s', out)"
  shows "bm_workers s' = bm_workers s \<and> (\<forall>(bs, hs) \<in> set (broadcasts out). \<exists>k. hs = zip (map fst (bm_workers s)) [k..<k + length (bm_workers s)])"
proof -
  let ?bs = "ser_batch_message (wk_codec wk) (BatchMsg (bm_current_batch s))"
  obtain hs network where bc: "reliable_broadcast (map snd (bm_workers s)) ?bs (bm_network s) = (hs, network)"
    by fastforce
  then show ?thesis
    using reliable_broadcast_handlers [OF bc] assms by (auto simp: seal_def Let_def split: if_splits)
qed

lemma batch_maker_step_peers:
  assumes "batch_maker_step wk ev s = (r, s', out)"
  shows "bm_workers s' = bm_workers s \<and> (\<forall>(bs, hs) \<in> set (broadcasts out). \<exists>k. hs = zip (map fst (bm_workers s)) [k..<k + length (bm_workers s)])"
  using assms
  by (cases ev) (auto simp: op_bind_def op_then_def split: if_splits list.splits prod.splits sum.splits dest!: seal_peers)

lemma deliver_worker_maker:
  "bm_workers (wn_batch_maker (fold deliver_worker deliveries n)) = bm_workers (wn_batch_maker n)"
  "bm_batch_size (wn_batch_maker (fold deliver_worker deliveries n)) = bm_batch_size (wn_batch_maker n)"
  "bm_current_batch (wn_batch_maker (fold deliver_worker deliveries n)) = bm_current_batch (wn_batch_maker n)"
  "bm_current_batch_size (wn_batch_maker (fold deliver_worker deliveries n)) = bm_current_batch_size (wn_batch_maker n)"
  "bm_channel (wn_batch_maker (fold deliver_worker deliveries n)) =
     bm_channel (wn_batch_maker n) @ concat (map (\<lambda>a. case a of ToBatchMaker tx \<Rightarrow> [tx] | _ \<Rightarrow> []) deliveries)"
proof -
  let ?same = "\<lambda>m m'. bm_workers m' = bm_workers m \<and> bm_batch_size m' = bm_batch_size m \<and>
    bm_current_batch m' = bm_current_batch m \<and> bm_current_batch_size m' = bm_current_batch_size m"
  have "?same (wn_batch_maker n) (wn_batch_maker (fold deliver_worker deliveries n)) \<and>
      bm_channel (wn_batch_maker (fold deliver_worker deliveries n)) =
        bm_channel (wn_batch_maker n) @ concat (map (\<lambda>a. case a of ToBatchMaker tx \<Rightarrow> [tx] | _ \<Rightarrow> []) deliveries)"
  proof (induction deliveries arbitrary: n)
    case (Cons a deliveries)
    then show ?case by (cases a) simp_all
  qed simp
  then show "bm_workers (wn_batch_maker (fold deliver_worker deliveries n)) = bm_workers (wn_batch_maker n)"
    "bm_batch_size (wn_batch_maker (fold deliver_worker deliveries n)) = bm_batch_size (wn_batch_maker n)"
    "bm_current_batch (wn_batch_maker (fold deliver_worker deliveries n)) = bm_current_batch (wn_batch_maker n)"
    "bm_current_batch_size (wn_batch_maker (fold deliver_worker deliveries n)) = bm_current_batch_size (wn_batch_maker n)"
    "bm_channel (wn_batch_maker (fold deliver_worker deliveries n)) =
       bm_channel (wn_batch_maker n) @ concat (map (\<lambda>a. case a of ToBatchMaker tx \<Rightarrow> [tx] | _ \<Rightarrow> []) deliveries)"
    by simp_all
qed

lemma dispatched_transactions:
  "concat (map (\<lambda>a. case a of ToBatchMaker tx \<Rightarrow> [tx] | _ \<Rightarrow> []) (dispatch_transaction bs)) = [bs]"
  "concat (map (\<lambda>a. case a of ToBatchMaker tx \<Rightarrow> [tx] | _ \<Rightarrow> []) (dispatch_batch codec bs)) = []"
  "concat (map (\<lambda>a. case a of ToBatchMaker tx \<Rightarrow> [tx] | _ \<Rightarrow> []) (dispatch_command codec bs watched)) = []"
proof -
  show "concat (map (\<lambda>a. case a of ToBatchMaker tx \<Rightarrow> [tx] | _ \<Rightarrow> []) (dispatch_transaction bs)) = [bs]"
    by (simp add: dispatch_transaction_def)
  show "concat (map (\<lambda>a. case a of ToBatchMaker tx \<Rightarrow> [tx] | _ \<Rightarrow> []) (dispatch_batch codec bs)) = []"
    by (cases "de_batch_message codec bs"; cases "the (de_batch_message codec bs)") (auto simp: dispatch_batch_def)
  show "concat (map (\<lambda>a. case a of ToBatchMaker tx \<Rightarrow> [tx] | _ \<Rightarrow> []) (dispatch_command codec bs watched)) = []"
    by (cases "de_primary_command codec bs"; cases "the (de_primary_command codec bs)") (auto simp: dispatch_command_def)
qed

text \<open>The steps that do not concern the batch maker leave it alone.\<close>

lemma other_step_maker:
  assumes "worker_step wk ev n = (r, n', out)" and "ev \<notin> {MakerTransaction, MakerTimer}"
  shows "batch_outputs out = []"
    and "(\<nexists>bs. ev = ClientFrame bs \<or> ev = BatchFrame bs \<or> ev = CommandFrame bs) \<Longrightarrow> wn_batch_maker n' = wn_batch_maker n"
  using assms
  by (cases ev; auto simp: frame_task_def op_bind_def receive_def quorum_waiter_task_def processor_task_def worker_helper_task_def
      worker_sync_task_def connector_task_def Let_def split: list.splits prod.splits if_splits)+

lemma worker_step_peers: "worker_step wk ev n = (r, n', out) \<Longrightarrow> for_peers n n' out"
proof (cases "ev \<in> {MakerTransaction, MakerTimer}")
  case True
  assume "worker_step wk ev n = (r, n', out)"
  with True obtain bev where "batch_maker_task wk bev n = (r, n', out)" by auto
  then obtain m acts where "batch_maker_step wk bev (wn_batch_maker n) = (r, m, acts)" "wn_batch_maker n' = m" "out = map BatchOutput acts"
    by (auto simp: batch_maker_task_def split: prod.splits)
  then show ?thesis using batch_maker_step_peers [of wk bev] by (auto simp: for_peers_def)
next
  case False
  assume run: "worker_step wk ev n = (r, n', out)"
  show ?thesis
  proof (cases "\<exists>bs. ev = ClientFrame bs \<or> ev = BatchFrame bs \<or> ev = CommandFrame bs")
    case True
    then show ?thesis
      using run other_step_maker(1) [OF run False] by (auto simp: frame_task_def op_bind_def for_peers_def deliver_worker_maker)
  next
    case other: False
    then show ?thesis using other_step_maker [OF run False] by (simp add: for_peers_def)
  qed
qed

lemma worker_run_peers: "worker_run wk events n = (r, n', out) \<Longrightarrow> for_peers n n' out"
  unfolding worker_run_def
  by (erule for_peers.movesD [rotated]) (intro for_peers.moves_for for_peers.movesI, rule worker_step_peers)

lemma worker_step_batched:
  assumes "worker_step wk ev n = (Ok (), n', out)" and "batch_inv (wn_batch_maker n)"
  shows "batched wk (wn_batch_maker n) (client_transactions [ev]) (wn_batch_maker n') (batch_outputs out) \<and> batch_inv (wn_batch_maker n')"
proof (cases "ev \<in> {MakerTransaction, MakerTimer}")
  case True
  then obtain bev where bev: "batch_maker_task wk bev n = (Ok (), n', out)" "arrived [bev] = []" "client_transactions [ev] = []"
    using assms(1) by (auto simp: client_transactions_def)
  then obtain m acts where "batch_maker_step wk bev (wn_batch_maker n) = (Ok (), m, acts)" "wn_batch_maker n' = m" "out = map BatchOutput acts"
    by (auto simp: batch_maker_task_def split: prod.splits)
  then show ?thesis using batch_maker_step_batched assms(2) bev(2,3) by fastforce
next
  case False
  show ?thesis
  proof (cases "\<exists>bs. ev = ClientFrame bs \<or> ev = BatchFrame bs \<or> ev = CommandFrame bs")
    case True
    then obtain deliveries where n': "n' = fold deliver_worker deliveries n"
      and txs: "concat (map (\<lambda>a. case a of ToBatchMaker tx \<Rightarrow> [tx] | _ \<Rightarrow> []) deliveries) = client_transactions [ev]"
    proof -
      let ?txs = "\<lambda>ds. concat (map (\<lambda>a. case a of ToBatchMaker tx \<Rightarrow> [tx] | _ \<Rightarrow> []) ds)"
      have "\<exists>ds. n' = fold deliver_worker ds n \<and> ?txs ds = client_transactions [ev]"
        using assms(1) True
      proof (elim exE disjE)
        fix bs
        assume "ev = ClientFrame bs"
        then show ?thesis
          using assms(1) dispatched_transactions(1) by (intro exI [of _ "dispatch_transaction bs"])
            (simp add: frame_task_def client_transactions_def)
      next
        fix bs
        assume "ev = BatchFrame bs"
        then show ?thesis
          using assms(1) dispatched_transactions(2) [of "wk_codec wk" bs]
          by (intro exI [of _ "dispatch_batch (wk_codec wk) bs"]) (simp add: frame_task_def client_transactions_def)
      next
        fix bs
        assume "ev = CommandFrame bs"
        then show ?thesis
          using assms(1) dispatched_transactions(3) [of "wk_codec wk" bs "bm_silent (wn_batch_maker n)"]
          by (intro exI [of _ "dispatch_command (wk_codec wk) bs (bm_silent (wn_batch_maker n))"])
            (simp add: frame_task_def client_transactions_def op_bind_def)
      qed
      then show ?thesis using that by blast
    qed
    then show ?thesis
      using assms(2) other_step_maker(1) [OF assms(1) False]
      by (auto simp: deliver_worker_maker batch_inv_def intro!: batched_quiet)
  next
    case other: False
    then have "client_transactions [ev] = []" by (auto simp: client_transactions_def split: worker_event.split)
    then show ?thesis
      using other_step_maker [OF assms(1) False] other assms(2) by (auto intro: batched_quiet)
  qed
qed

lemma worker_run_batched:
  assumes "worker_run wk events n = (Ok (), n', out)" and "batch_inv (wn_batch_maker n)"
  shows "batched wk (wn_batch_maker n) (client_transactions events) (wn_batch_maker n') (batch_outputs out) \<and> batch_inv (wn_batch_maker n')"
  using assms
proof (induction events arbitrary: n out)
  case Nil
  then show ?case by (auto simp: worker_run_def client_transactions_def intro: batched_quiet)
next
  case (Cons ev events)
  obtain t out1 out2 where 1: "worker_step wk ev n = (Ok (), t, out1)"
    and 2: "worker_run wk events t = (Ok (), n', out2)" and out: "out = out1 @ out2"
    using Cons.prems(1) by (auto simp: worker_run_def op_then_def op_bind_def split: prod.splits sum.splits)
  have "client_transactions (ev # events) = client_transactions [ev] @ client_transactions events"
    by (simp add: client_transactions_def)
  then show ?case
    using batched_trans worker_step_batched [OF 1 Cons.prems(2)] Cons.IH [OF 2] out by (metis batch_outputs_simps(2))
qed

section \<open>Properties\<close>

lemma worker_node_spawned:
  assumes "worker_node_spawn wk benchmark d = Ok n"
  shows "worker_inv wk sealed mine others n" and "batch_inv (wn_batch_maker n)"
    and "bm_current_batch (wn_batch_maker n) = []" "bm_channel (wn_batch_maker n) = []"
    and "bm_batch_size (wn_batch_maker n) = batch_size (wk_parameters wk)"
    and "bm_workers (wn_batch_maker n) = map (\<lambda>(name, addresses). (name, worker_to_worker addresses))
      (others_workers (wk_committee wk) (wk_name wk) (wk_id wk))"
proof -
  obtain t where t: "worker_spawn wk benchmark = Ok t"
    and node: "n = \<lparr>wn_db = d, wn_batch_maker = ct_batch_maker (wt_clients t), wn_stake = ct_stake (wt_clients t),
      wn_sync = snd (wt_primary_messages t), wn_connector = simple_sender_new, wn_primary_address = wt_primary_address t,
      rx_quorum_waiter = [], rx_own_batches = [], rx_others_batches = [], rx_helper = [], rx_synchronizer = [], rx_primary = []\<rparr>"
    using assms by (auto simp: worker_node_spawn_def and_then_Ok_iff)
  have ct: "handle_clients_transactions wk benchmark = Ok (wt_clients t)"
    using t by (cases "worker_of (wk_committee wk) (wk_name wk) (wk_id wk)") (auto simp: worker_spawn_def and_then_Ok_iff)
  obtain w :: worker_addresses where "wt_clients t = \<lparr>ct_address = listen_on (transactions w),
      ct_batch_maker = batch_maker_spawn benchmark (batch_size (wk_parameters wk))
        (map (\<lambda>(name, addresses). (name, worker_to_worker addresses)) (others_workers (wk_committee wk) (wk_name wk) (wk_id wk))),
      ct_stake = stake_of (wk_committee wk) (wk_name wk)\<rparr>"
  proof (cases "worker_of (wk_committee wk) (wk_name wk) (wk_id wk)")
    case (Inr w)
    then show thesis using ct that [of w] by (simp add: handle_clients_transactions_def)
  qed (use ct in \<open>simp add: handle_clients_transactions_def\<close>)
  then show "worker_inv wk sealed mine others n" and "batch_inv (wn_batch_maker n)"
    and "bm_current_batch (wn_batch_maker n) = []" "bm_channel (wn_batch_maker n) = []"
    and "bm_batch_size (wn_batch_maker n) = batch_size (wk_parameters wk)"
    and "bm_workers (wn_batch_maker n) = map (\<lambda>(name, addresses). (name, worker_to_worker addresses))
      (others_workers (wk_committee wk) (wk_name wk) (wk_id wk))"
    by (simp_all add: node worker_inv_def batch_inv_def batch_maker_spawn_def)
qed

text \<open>Handlers that are not of this batch do not count.\<close>

lemma quorum_waiter_own_handlers:
  "quorum_waiter_step c stake order (batch, handlers) =
   quorum_waiter_step c stake (filter (\<lambda>h. h \<in> snd ` set handlers) order) (batch, handlers)"
  "acknowledged handlers (filter (\<lambda>h. h \<in> snd ` set handlers) order) = acknowledged handlers order"
proof -
  let ?m = "map_of (map (\<lambda>(name, handler). (handler, stake_of c name)) handlers)"
  have "?m h = None" if "h \<notin> snd ` set handlers" for h
    using that by (force simp: map_of_eq_None_iff)
  then have "List.map_filter ?m (filter (\<lambda>h. h \<in> snd ` set handlers) order) = List.map_filter ?m order"
  proof (induction order)
    case (Cons h order)
    then show ?case by (cases "h \<in> snd ` set handlers") (simp_all add: List.map_filter_simps split: option.split)
  qed (simp add: List.map_filter_simps)
  then show "quorum_waiter_step c stake order (batch, handlers) =
      quorum_waiter_step c stake (filter (\<lambda>h. h \<in> snd ` set handlers) order) (batch, handlers)"
    by (simp add: quorum_waiter_step_def)
  show "acknowledged handlers (filter (\<lambda>h. h \<in> snd ` set handlers) order) = acknowledged handlers order"
    by (force simp: acknowledged_def)
qed

text \<open>
  C15: No transaction is lost, duplicated or reordered by a worker, however its tasks interleave: the frames of its clients
  are, in their order, the transactions of the batches it has broadcast, those of the batch being assembled, and those not yet
  taken from the channel. Batches are never empty, and none waits that has reached the preset size.
\<close>

theorem worker_conserves_transactions:
  assumes "worker_node_spawn wk benchmark d = Ok n" and "worker_run wk events n = (Ok (), n', out)"
  shows "(\<exists>batches. map fst (broadcasts (batch_outputs out)) = map (\<lambda>b. ser_batch_message (wk_codec wk) (BatchMsg b)) batches \<and>
      [] \<notin> set batches \<and>
      client_transactions events = concat batches @ bm_current_batch (wn_batch_maker n') @ bm_channel (wn_batch_maker n')) \<and>
    (batch_size (wk_parameters wk) \<le> word_of_nat (length (concat (bm_current_batch (wn_batch_maker n')))) \<longrightarrow>
      bm_current_batch (wn_batch_maker n') = [])"
proof -
  note n = worker_node_spawned [OF assms(1)]
  from worker_run_batched [OF assms(2) n(2)]
  have b: "batched wk (wn_batch_maker n) (client_transactions events) (wn_batch_maker n') (batch_outputs out)"
    and inv: "batch_inv (wn_batch_maker n')" by auto
  then have "bm_batch_size (wn_batch_maker n') = batch_size (wk_parameters wk)" using n(5) by (simp add: batched_def)
  then have "batch_size (wk_parameters wk) \<le> word_of_nat (length (concat (bm_current_batch (wn_batch_maker n')))) \<longrightarrow>
      bm_current_batch (wn_batch_maker n') = []"
    using inv by (simp add: batch_inv_def)
  moreover have "\<exists>batches. map fst (broadcasts (batch_outputs out)) = map (\<lambda>b. ser_batch_message (wk_codec wk) (BatchMsg b)) batches \<and>
      [] \<notin> set batches \<and>
      client_transactions events = concat batches @ bm_current_batch (wn_batch_maker n') @ bm_channel (wn_batch_maker n')"
    using b n(3,4) by (simp add: batched_def)
  ultimately show ?thesis by blast
qed

text \<open>
  C16: Whatever a worker reports to its primary can be fetched from it: in any interleaving of its tasks, a report is about a batch
  whose digest is in the store by then. A report of an own batch is about one it broadcast and for which the authorities whose
  handlers completed, with its own, have the stake of a quorum; any other is about a batch that another worker sent.
\<close>

theorem worker_reports_available_batches:
  assumes "rocksdb_ok (wk_rocksdb wk)" and "committee_ok (wk_committee wk)" and "worker_node_spawn wk benchmark d = Ok n"
    and "worker_run wk events n = (r, n', out)" and "\<And>order. QuorumWait order \<in> set events \<Longrightarrow> distinct order"
    and "m \<in> set (reports out)"
  shows "\<exists>b. available wk (wn_db n') b \<and>
    (m = ser_digest_message (wk_codec wk) (OurBatch (batch_digest (wk_crypto wk) b) (wk_id wk)) \<and>
       (\<exists>handlers order. (b, handlers) \<in> set (broadcasts (batch_outputs out)) \<and> QuorumWait order \<in> set events \<and>
          unat (quorum_threshold (wk_committee wk)) \<le>
            stake_nat (wk_committee wk) (wk_name wk) + sum (stake_nat (wk_committee wk)) (acknowledged handlers order)) \<or>
     m = ser_digest_message (wk_codec wk) (OthersBatch (batch_digest (wk_crypto wk) b) (wk_id wk)) \<and>
       BatchFrame b \<in> set events \<and> (\<exists>txs. de_batch_message (wk_codec wk) b = Some (BatchMsg txs)))"
proof -
  let ?sealed = "set (broadcasts (batch_outputs out))" and ?others = "others_workers (wk_committee wk) (wk_name wk) (wk_id wk)"
  note n = worker_node_spawned [OF assms(3)]
  have "reported wk (quorum_of wk ?sealed events) (received_batches wk events) (wn_db n') m"
    using worker_run_inv [OF assms(1) n(1) [of ?sealed "quorum_of wk ?sealed events" "received_batches wk events"], of events r n' out events]
      assms(4,6) by (simp add: worker_run_def)
  then obtain b where b: "available wk (wn_db n') b"
    "b \<in> quorum_of wk ?sealed events \<and> m = ser_digest_message (wk_codec wk) (digest_message wk True b) \<or>
     b \<in> received_batches wk events \<and> m = ser_digest_message (wk_codec wk) (digest_message wk False b)"
    by (auto simp: reported_def)
  have "\<exists>handlers order. (b, handlers) \<in> ?sealed \<and> QuorumWait order \<in> set events \<and>
      unat (quorum_threshold (wk_committee wk)) \<le>
        stake_nat (wk_committee wk) (wk_name wk) + sum (stake_nat (wk_committee wk)) (acknowledged handlers order)"
    if "b \<in> quorum_of wk ?sealed events"
  proof -
    obtain handlers order where q: "(b, handlers) \<in> ?sealed" "QuorumWait order \<in> set events"
      "quorum_waiter_step (wk_committee wk) (stake_of (wk_committee wk) (wk_name wk)) order (b, handlers) = [b]"
      using \<open>b \<in> quorum_of wk ?sealed events\<close> by (auto simp: quorum_of_def)
    obtain k where "handlers = zip (map fst (bm_workers (wn_batch_maker n))) [k..<k + length (bm_workers (wn_batch_maker n))]"
      using worker_run_peers [OF assms(4)] q(1) by (force simp: for_peers_def)
    then have "map fst handlers = map fst (bm_workers (wn_batch_maker n))" "distinct (map snd handlers)" by simp_all
    moreover have "map fst (bm_workers (wn_batch_maker n)) = map fst ?others" unfolding n(6) by (simp add: comp_def case_prod_unfold)
    ultimately have hs: "distinct (wk_name wk # map fst handlers)" "distinct (map snd handlers)"
      using others_workers_distinct [OF committee_ok_wf [OF assms(2)]] by simp_all
    let ?order = "filter (\<lambda>h. h \<in> snd ` set handlers) order"
    have "quorum_waiter_step (wk_committee wk) (stake_of (wk_committee wk) (wk_name wk)) ?order (b, handlers) = [b]"
      using q(3) quorum_waiter_own_handlers(1) by metis
    moreover have "distinct ?order" "set ?order \<subseteq> snd ` set handlers" using assms(5) [OF q(2)] by auto
    ultimately have "unat (quorum_threshold (wk_committee wk)) \<le>
        stake_nat (wk_committee wk) (wk_name wk) + sum (stake_nat (wk_committee wk)) (acknowledged handlers ?order)"
      using quorum_waiter_delivers [OF assms(2) hs, of ?order b] by (metis not_Cons_self2)
    then show ?thesis using q(1,2) unfolding quorum_waiter_own_handlers(2) by blast
  qed
  with b show ?thesis unfolding digest_message_def received_batches_def by auto
qed

section \<open>A concrete run\<close>

lemma ex_worker_node:
  obtains n where "worker_node_spawn ex_worker False [] = Ok n"
    "map fst (bm_workers (wn_batch_maker n)) = [PublicKey 2, PublicKey 3, PublicKey 4]"
    "rs_next_handler (bm_network (wn_batch_maker n)) = 0" "bm_batch_size (wn_batch_maker n) = 500000"
    "\<not> snd (bm_silent (wn_batch_maker n))" "bm_channel (wn_batch_maker n) = []" "bm_current_batch (wn_batch_maker n) = []"
    "\<not> bm_benchmark (wn_batch_maker n)" "wn_db n = []" "wn_stake n = 1" "rx_quorum_waiter n = []" "rx_own_batches n = []"
    "rx_primary n = []" "wn_connector n = simple_sender_new"
proof -
  obtain t where t: "handle_clients_transactions ex_worker False = Ok t"
    "map fst (bm_workers (ct_batch_maker t)) = [PublicKey 2, PublicKey 3, PublicKey 4]"
    "rs_next_handler (bm_network (ct_batch_maker t)) = 0" "bm_batch_size (ct_batch_maker t) = 500000"
    "\<not> snd (bm_silent (ct_batch_maker t))" "bm_channel (ct_batch_maker t) = []" "bm_current_batch (ct_batch_maker t) = []"
    "\<not> bm_benchmark (ct_batch_maker t)"
    by (rule ex_clients)
  obtain w where w: "worker_of ex_committee (PublicKey 1) 0 = Ok w" using ex_worker_of [of "PublicKey 1"] by auto
  have "ct_stake t = 1" using t(1) w by (auto simp: handle_clients_transactions_def)
  moreover obtain a where "primary_of ex_committee (PublicKey 1) = Ok a"
    by (simp add: primary_of_def ex_committee_def ex_authority_def)
  ultimately show thesis
    using t w that by (simp add: worker_node_spawn_def worker_spawn_def handle_primary_messages_def handle_workers_messages_def
        primary_connector_spawn_def)
qed

definition ex_worker_events :: "worker_event list" where
  "ex_worker_events =
     [ClientFrame [7], MakerTransaction, MakerTimer, QuorumWait [2, 0], ProcessOwn, ReportDigest True]"

lemma ex_worker_run:
  obtains n n' out where "worker_node_spawn ex_worker False [] = Ok n"
    "worker_run ex_worker ex_worker_events n = (Ok (), n', out)"
    "reports out = [ex_ser_digest (OurBatch (batch_digest ex_dalek (ex_ser_batch (BatchMsg [[7]]))) 0)]"
proof -
  obtain n where n: "worker_node_spawn ex_worker False [] = Ok n"
    "map fst (bm_workers (wn_batch_maker n)) = [PublicKey 2, PublicKey 3, PublicKey 4]"
    "rs_next_handler (bm_network (wn_batch_maker n)) = 0" "bm_batch_size (wn_batch_maker n) = 500000"
    "\<not> snd (bm_silent (wn_batch_maker n))" "bm_channel (wn_batch_maker n) = []" "bm_current_batch (wn_batch_maker n) = []"
    "\<not> bm_benchmark (wn_batch_maker n)" "wn_db n = []" "wn_stake n = 1" "rx_quorum_waiter n = []" "rx_own_batches n = []"
    "rx_primary n = []" "wn_connector n = simple_sender_new"
    by (rule ex_worker_node)
  have len: "length (bm_workers (wn_batch_maker n)) = 3" "bm_current_batch_size (wn_batch_maker n) = 0"
    using worker_node_spawned(2) [OF n(1)] n(7) arg_cong [OF n(2), of length] by (simp_all add: batch_inv_def)
  define batch where "batch = ex_ser_batch (BatchMsg [[7]])"
  obtain hs network where bc: "reliable_broadcast (map snd (bm_workers (wn_batch_maker n))) batch (bm_network (wn_batch_maker n)) = (hs, network)"
    by fastforce
  have hs: "hs = [0, 1, 2]" using reliable_broadcast_handlers [OF bc] n(3) len by (simp add: upt_rec)
  have quorum: "quorum_waiter_step ex_committee 1 [2, 0] (batch, [(PublicKey 2, 0), (PublicKey 3, 1), (PublicKey 4, 2)]) = [batch]"
    by (simp add: quorum_waiter_step_def List.map_filter_simps)
  have "\<exists>n' out. worker_run ex_worker ex_worker_events n = (Ok (), n', out) \<and>
      reports out = [ex_ser_digest (OurBatch (batch_digest ex_dalek batch) 0)]"
    using n bc hs quorum len(2)
    by (simp add: worker_run_def ex_worker_events_def frame_task_def dispatch_transaction_def batch_maker_task_def quorum_waiter_task_def
        receive_def processor_task_def processor_step_def connector_task_def primary_connector_step_def simple_send_def simple_sender_new_def op_then_def op_bind_def seal_def Let_def ex_codec_def batch_def
        digest_message_def reports_def worker_acks_def cong: op_congs)
  with n(1) that batch_def show thesis by blast
qed

theorem worker_conserves_transactions_witness:
  "\<exists>n n' out batches. worker_node_spawn ex_worker False [] = Ok n \<and> worker_run ex_worker ex_worker_events n = (Ok (), n', out) \<and>
     [] \<notin> set batches \<and> [[7]] = concat batches @ bm_current_batch (wn_batch_maker n') @ bm_channel (wn_batch_maker n')"
proof -
  obtain n n' out where run: "worker_node_spawn ex_worker False [] = Ok n" "worker_run ex_worker ex_worker_events n = (Ok (), n', out)"
    by (rule ex_worker_run)
  have "client_transactions ex_worker_events = [[7]]" by (simp add: client_transactions_def ex_worker_events_def)
  with worker_conserves_transactions [OF run] run show ?thesis by metis
qed

theorem worker_reports_available_batches_witness:
  "\<exists>n n' out b. worker_node_spawn ex_worker False [] = Ok n \<and> worker_run ex_worker ex_worker_events n = (Ok (), n', out) \<and>
     available ex_worker (wn_db n') b \<and>
     reports out = [ex_ser_digest (OurBatch (batch_digest ex_dalek b) 0)]"
proof -
  obtain n n' out where run: "worker_node_spawn ex_worker False [] = Ok n" "worker_run ex_worker ex_worker_events n = (Ok (), n', out)"
    and rep: "reports out = [ex_ser_digest (OurBatch (batch_digest ex_dalek (ex_ser_batch (BatchMsg [[7]]))) 0)]"
    by (rule ex_worker_run)
  let ?m = "ex_ser_digest (OurBatch (batch_digest ex_dalek (ex_ser_batch (BatchMsg [[7]]))) 0)"
  have "distinct order" if "QuorumWait order \<in> set ex_worker_events" for order using that by (simp add: ex_worker_events_def)
  moreover have "?m \<in> set (reports out)" using rep by simp
  moreover have "BatchFrame b \<notin> set ex_worker_events" for b by (simp add: ex_worker_events_def)
  ultimately obtain b where "available ex_worker (wn_db n') b" "?m = ex_ser_digest (OurBatch (batch_digest ex_dalek b) 0)"
    using worker_reports_available_batches [of ex_worker False "[]" n ex_worker_events "Ok ()" n' out ?m] run by (auto simp: ex_codec_def)
  with run rep show ?thesis by (intro exI conjI) simp_all
qed

end
