(* ===== verification/ConfigFiles.thy ===== *)
theory ConfigFiles
  imports Config Effects
begin

text \<open>
  Configuration files: the traits \<open>Import\<close> and \<open>Export\<close> of \<open>config/src/lib.rs\<close> over a file system, key pairs and their text
  form. The text functions of \<open>serde_json\<close> and \<open>base64\<close> are parameters; \<open>std::fs\<close> and \<open>BufWriter\<close> are modelled, with
  a device that accepts a given number of bytes.
\<close>

section \<open>Files\<close>

text \<open>Contents by path, the errors that opening a path meets, and how many bytes a path accepts once it is open.\<close>

record file_system =
  fs_files :: "string \<Rightarrow> bytes option"
  fs_read_fails :: "string \<Rightarrow> string option"
  fs_open_fails :: "string \<Rightarrow> string option"
  fs_room :: "string \<Rightarrow> nat"

definition fs_read :: "file_system \<Rightarrow> string \<Rightarrow> (string, bytes) result" where
  "fs_read fs path =
     (case fs_read_fails fs path of
        Some m \<Rightarrow> Err m
      | None \<Rightarrow> (case fs_files fs path of None \<Rightarrow> Err ''No such file or directory'' | Some data \<Rightarrow> Ok data))"

text \<open>An open file: bytes are written over what it has, from the position on.\<close>

record buf_writer =
  bw_file :: bytes
  bw_position :: nat
  bw_room :: nat
  bw_buffer :: bytes

type_synonym writer_op = "(buf_writer, unit, string, unit) op"

definition overwrite :: "nat \<Rightarrow> bytes \<Rightarrow> bytes \<Rightarrow> bytes" where
  "overwrite n data old = take n old @ data @ drop (n + length data) old"

definition device_full :: string where
  "device_full = ''No space left on device''"

text \<open>\<open>write_all\<close> on the file itself: the device takes what it has room for.\<close>

definition write_file :: "bytes \<Rightarrow> writer_op" where
  "write_file data w =
     (let n = min (bw_room w) (length data)
      in (if n < length data then Err device_full else Ok (),
          w\<lparr>bw_file := overwrite (bw_position w) (take n data) (bw_file w), bw_position := bw_position w + n,
            bw_room := bw_room w - n\<rparr>, []))"

text \<open>\<open>BufWriter\<close>: 8 KiB are buffered; the buffer keeps what could not be written.\<close>

definition buffer_capacity :: nat where
  "buffer_capacity = 8192"

definition flush_writer :: writer_op where
  "flush_writer w =
     (case write_file (bw_buffer w) w of (r, w', out) \<Rightarrow>
        (r, w'\<lparr>bw_buffer := drop (min (bw_room w) (length (bw_buffer w))) (bw_buffer w)\<rparr>, out))"

definition buf_write_all :: "bytes \<Rightarrow> writer_op" where
  "buf_write_all data =
     op_bind (op_get (\<lambda>w. buffer_capacity - length (bw_buffer w))) (\<lambda>spare.
     if length data \<le> spare \<and> length data < buffer_capacity then op_modify (\<lambda>w. w\<lparr>bw_buffer := bw_buffer w @ data\<rparr>)
     else op_then (if spare < length data then flush_writer else op_return ())
       (if buffer_capacity \<le> length data then write_file data
        else op_modify (\<lambda>w. w\<lparr>bw_buffer := bw_buffer w @ data\<rparr>)))"

section \<open>Import and export\<close>

definition import_file :: "(bytes \<Rightarrow> (string, 'a) result) \<Rightarrow> file_system \<Rightarrow> string \<Rightarrow> (config_error, 'a) result" where
  "import_file from_slice fs path = map_err (\<lambda>m. ImportError path m) (and_then (fs_read fs path) from_slice)"

text \<open>
  The file is opened with \<open>create\<close> and \<open>write\<close> and without \<open>truncate\<close>. The buffer is flushed when the writer is dropped, where an
  error is ignored.
\<close>

definition export_file :: "('a \<Rightarrow> bytes) \<Rightarrow> 'a \<Rightarrow> file_system \<Rightarrow> string \<Rightarrow> (config_error, unit) result \<times> file_system" where
  "export_file to_string_pretty v fs path =
     (case fs_open_fails fs path of
        Some m \<Rightarrow> (Err (ExportError path m), fs)
      | None \<Rightarrow>
          let opened = \<lparr>bw_file = (case fs_files fs path of None \<Rightarrow> [] | Some old \<Rightarrow> old), bw_position = 0,
                bw_room = fs_room fs path, bw_buffer = []\<rparr>;
              data = to_string_pretty v
          in case op_then (buf_write_all data) (buf_write_all [10]) opened of (r, w, _) \<Rightarrow>
               (case flush_writer w of (_, w', _) \<Rightarrow>
                  (map_err (\<lambda>m. ExportError path m) r,
                   fs\<lparr>fs_files := (fs_files fs)(path \<mapsto> bw_file w'), fs_room := (fs_room fs)(path := bw_room w')\<rparr>)))"

section \<open>Key pairs\<close>

record key_pair =
  kp_name :: public_key
  kp_secret :: secret_key

record base64 =
  b64_encode :: "bytes \<Rightarrow> string"
  b64_decode :: "string \<Rightarrow> bytes option"

text \<open>What \<open>Keypair::generate\<close> returns: the bytes of the public key and those of the pair.\<close>

definition generate_keypair :: "b256 \<times> b512 \<Rightarrow> public_key \<times> secret_key" where
  "generate_keypair = (\<lambda>(public, keypair). (PublicKey public, SecretKey keypair))"

definition generate_production_keypair :: "b256 \<times> b512 \<Rightarrow> public_key \<times> secret_key" where
  "generate_production_keypair os_rng = generate_keypair os_rng"

definition key_pair_new :: "b256 \<times> b512 \<Rightarrow> key_pair" where
  "key_pair_new os_rng = (case generate_production_keypair os_rng of (name, secret) \<Rightarrow> \<lparr>kp_name = name, kp_secret = secret\<rparr>)"

text \<open>The \<open>Serialize\<close> and \<open>Deserialize\<close> implementations of keys: a string; a decoding error is a message.\<close>

definition public_key_serialize :: "base64 \<Rightarrow> public_key \<Rightarrow> string" where
  "public_key_serialize b k = public_key_encode_base64 (b64_encode b) k"

definition public_key_deserialize :: "base64 \<Rightarrow> string \<Rightarrow> (string, public_key) result" where
  "public_key_deserialize b s = map_err (\<lambda>_. ''Invalid base64'') (public_key_decode_base64 (b64_decode b) s)"

definition secret_key_serialize :: "base64 \<Rightarrow> secret_key \<Rightarrow> string" where
  "secret_key_serialize b k = secret_key_encode_base64 (b64_encode b) k"

definition secret_key_deserialize :: "base64 \<Rightarrow> string \<Rightarrow> (string, secret_key) result" where
  "secret_key_deserialize b s = map_err (\<lambda>_. ''Invalid base64'') (secret_key_decode_base64 (b64_decode b) s)"

text \<open>\<open>serde_json\<close> on a struct whose fields are strings.\<close>

record serde_json =
  to_string_pretty :: "(string \<times> string) list \<Rightarrow> bytes"
  from_slice :: "bytes \<Rightarrow> (string, (string \<times> string) list) result"

definition key_pair_to_json :: "base64 \<Rightarrow> serde_json \<Rightarrow> key_pair \<Rightarrow> bytes" where
  "key_pair_to_json b js kp =
     to_string_pretty js [(''name'', public_key_serialize b (kp_name kp)), (''secret'', secret_key_serialize b (kp_secret kp))]"

definition field :: "string \<Rightarrow> (string \<times> string) list \<Rightarrow> (string, string) result" where
  "field name members = (case map_of members name of None \<Rightarrow> Err (''missing field '' @ name) | Some v \<Rightarrow> Ok v)"

definition key_pair_from_json :: "base64 \<Rightarrow> serde_json \<Rightarrow> bytes \<Rightarrow> (string, key_pair) result" where
  "key_pair_from_json b js data =
     and_then (from_slice js data) (\<lambda>members.
     and_then (field ''name'' members) (\<lambda>s. and_then (public_key_deserialize b s) (\<lambda>name.
     and_then (field ''secret'' members) (\<lambda>s. and_then (secret_key_deserialize b s) (\<lambda>secret.
       Ok \<lparr>kp_name = name, kp_secret = secret\<rparr>)))))"

definition import_key_pair :: "base64 \<Rightarrow> serde_json \<Rightarrow> file_system \<Rightarrow> string \<Rightarrow> (config_error, key_pair) result" where
  "import_key_pair b js = import_file (key_pair_from_json b js)"

definition export_key_pair ::
  "base64 \<Rightarrow> serde_json \<Rightarrow> key_pair \<Rightarrow> file_system \<Rightarrow> string \<Rightarrow> (config_error, unit) result \<times> file_system" where
  "export_key_pair b js = export_file (key_pair_to_json b js)"

section \<open>Writing\<close>

lemma take_length_min: "take (min n (length xs)) xs = take n xs"
  by (simp add: min_def)

text \<open>An export that fits the buffer never fails once the file is open, and the file has what the device took.\<close>

lemma export_buffered:
  assumes "fs_open_fails fs path = None" and "length (to_json v) < buffer_capacity"
  shows "export_file to_json v fs path =
    (Ok (), fs\<lparr>fs_files := (fs_files fs)(path \<mapsto>
        overwrite 0 (take (fs_room fs path) (to_json v @ [10])) (case fs_files fs path of None \<Rightarrow> [] | Some old \<Rightarrow> old)),
      fs_room := (fs_room fs)(path := fs_room fs path - min (fs_room fs path) (length (to_json v) + 1))\<rparr>)"
proof -
  have one: "buf_write_all data w = (Ok (), w\<lparr>bw_buffer := bw_buffer w @ data\<rparr>, [])"
    if "length (bw_buffer w) + length data \<le> buffer_capacity" "length data < buffer_capacity" for data w
  proof -
    have "length data \<le> buffer_capacity - length (bw_buffer w)" using that by linarith
    then show ?thesis using that(2) by (simp add: buf_write_all_def op_bind_def)
  qed
  have "1 < buffer_capacity" by (simp add: buffer_capacity_def)
  then have "op_then (buf_write_all (to_json v)) (buf_write_all [10]) w = (Ok (), w\<lparr>bw_buffer := to_json v @ [10]\<rparr>, [])"
    if "bw_buffer w = []" for w
    using that assms(2) by (simp add: op_then_def op_bind_def one)
  then show ?thesis
    using assms(1) take_length_min [of "fs_room fs path" "to_json v @ [10]"]
    by (simp add: export_file_def Let_def flush_writer_def write_file_def del: take_append)
qed

section \<open>Reading back\<close>

lemma import_stored:
  assumes "fs_read_fails fs path = None" and "fs_files fs path = Some data"
  shows "import_file parse fs path = map_err (\<lambda>m. ImportError path m) (parse data)"
  using assms by (simp add: import_file_def fs_read_def)

definition base64_ok :: "base64 \<Rightarrow> bool" where
  "base64_ok b \<longleftrightarrow> (\<forall>bs. b64_decode b (b64_encode b bs) = Some bs)"

lemma keys_round_trip:
  assumes "base64_ok b"
  shows "public_key_deserialize b (public_key_serialize b k) = Ok k" "secret_key_deserialize b (secret_key_serialize b s) = Ok s"
proof -
  have "be_word (take 32 (key_as_ref k)) = key_bits k" by (simp add: key_as_ref_def)
  then show "public_key_deserialize b (public_key_serialize b k) = Ok k"
    using assms by (simp add: base64_ok_def public_key_deserialize_def public_key_serialize_def public_key_decode_base64_def
        public_key_encode_base64_def)
  have "be_word (take 64 (be_bytes 64 (secret_bits s))) = secret_bits s" by simp
  then show "secret_key_deserialize b (secret_key_serialize b s) = Ok s"
    using assms by (simp add: base64_ok_def secret_key_deserialize_def secret_key_serialize_def secret_key_decode_base64_def
        secret_key_encode_base64_def)
qed

text \<open>\<open>serde_json\<close> reads what it has written, also with the newline after it.\<close>

definition serde_json_ok :: "serde_json \<Rightarrow> bool" where
  "serde_json_ok js \<longleftrightarrow> (\<forall>members. from_slice js (to_string_pretty js members @ [10]) = Ok members)"

lemma key_pair_round_trip:
  assumes "base64_ok b" and "serde_json_ok js"
  shows "key_pair_from_json b js (key_pair_to_json b js kp @ [10]) = Ok kp"
  using assms by (simp add: serde_json_ok_def key_pair_from_json_def key_pair_to_json_def field_def keys_round_trip)

section \<open>A concrete codec and device\<close>

definition ex_base64 :: base64 where
  "ex_base64 = \<lparr>b64_encode = ex_encode, b64_decode = ex_decode\<rparr>"

text \<open>A character is written as 1 and its code, 0 ends a string, and 2 ends the text.\<close>

definition ex_text :: "string \<Rightarrow> bytes" where
  "ex_text s = concat (map (\<lambda>ch. [1, word_of_nat (of_char ch)]) s) @ [0]"

fun ex_strings :: "bytes \<Rightarrow> string list" where
  "ex_strings (t # bs) =
     (if t = 0 then [] # ex_strings bs
      else if t = 1 then
        (case bs of [] \<Rightarrow> [] | c # bs' \<Rightarrow>
           (case ex_strings bs' of [] \<Rightarrow> [] | s # ss \<Rightarrow> (char_of (unat c) # s) # ss))
      else [])"
| "ex_strings [] = []"

fun ex_pairs :: "string list \<Rightarrow> (string \<times> string) list" where
  "ex_pairs (n # v # ss) = (n, v) # ex_pairs ss"
| "ex_pairs _ = []"

definition ex_json :: serde_json where
  "ex_json = \<lparr>to_string_pretty = (\<lambda>members. concat (map (\<lambda>(n, v). ex_text n @ ex_text v) members) @ [2]),
     from_slice = (\<lambda>data. Ok (ex_pairs (ex_strings data)))\<rparr>"

lemma ex_strings_text: "ex_strings (ex_text s @ bs) = s # ex_strings bs"
proof (induction s)
  case Nil
  then show ?case by (simp add: ex_text_def)
next
  case (Cons ch s)
  have "unat (word_of_nat (of_char ch) :: u8) = of_char ch" by (simp add: unat_of_nat)
  then show ?case using Cons by (simp add: ex_text_def)
qed

lemma length_ex_text: "length (ex_text s) = 2 * length s + 1"
  by (induction s) (simp_all add: ex_text_def)

lemma ex_key_pair_length: "length (key_pair_to_json ex_base64 ex_json kp) = 217"
  by (simp add: key_pair_to_json_def ex_json_def ex_base64_def public_key_serialize_def secret_key_serialize_def
      public_key_encode_base64_def secret_key_encode_base64_def length_ex_text ex_encode_def)

definition ex_files :: "(string \<Rightarrow> bytes option) \<Rightarrow> nat \<Rightarrow> file_system" where
  "ex_files contents room = \<lparr>fs_files = contents, fs_read_fails = Map.empty, fs_open_fails = Map.empty, fs_room = (\<lambda>_. room)\<rparr>"

lemma ex_json_ok: "serde_json_ok ex_json"
proof -
  have "ex_pairs (ex_strings (concat (map (\<lambda>(n, v). ex_text n @ ex_text v) members) @ [2, 10])) = members" for members
    by (induction members) (auto simp: ex_strings_text)
  then show ?thesis by (simp add: serde_json_ok_def ex_json_def)
qed

lemma ex_base64_ok: "base64_ok ex_base64"
  by (simp add: base64_ok_def ex_base64_def ex_decode_encode)

section \<open>Properties\<close>

text \<open>
  C38: An export that fits the buffer of 8 KiB reports success whatever happens to its bytes: once the file is open, the result is
  \<open>Ok\<close>, and the file has the bytes that the device took, followed by whatever it had before from there on. So a full
  device goes unnoticed, and the end of a longer old file stays.
\<close>

theorem export_ignores_failures:
  assumes "fs_open_fails fs path = None" and "length (to_json v) < buffer_capacity"
    and "export_file to_json v fs path = (r, fs')"
  shows "r = Ok () \<and>
    (\<forall>old. fs_files fs path = Some old \<longrightarrow>
       fs_files fs' path = Some (take (fs_room fs path) (to_json v @ [10]) @
         drop (min (fs_room fs path) (length (to_json v) + 1)) old)) \<and>
    (fs_room fs path = 0 \<longrightarrow> fs_files fs' path = Some (case fs_files fs path of None \<Rightarrow> [] | Some old \<Rightarrow> old))"
  using export_buffered [of fs path to_json v] assms
  by (auto simp: overwrite_def min.commute simp del: take_append split: option.split)

text \<open>
  A key pair survives export and import: when the file can be opened and read, the device has room, and the path is new or had
  at most as many bytes, exporting a key pair succeeds and importing the file gives the same name and secret.
\<close>

theorem exported_key_pair_imports:
  assumes "base64_ok b" and "serde_json_ok js" and "fs_open_fails fs path = None" "fs_read_fails fs path = None"
    and "length (key_pair_to_json b js kp) < buffer_capacity" and "length (key_pair_to_json b js kp) < fs_room fs path"
    and "\<And>old. fs_files fs path = Some old \<Longrightarrow> length old \<le> length (key_pair_to_json b js kp) + 1"
    and "export_key_pair b js kp fs path = (r, fs')"
  shows "r = Ok () \<and> import_key_pair b js fs' path = Ok kp"
proof -
  let ?data = "key_pair_to_json b js kp @ [10]"
  have "take (fs_room fs path) ?data = ?data" using assms(6) by simp
  moreover have "overwrite 0 ?data (case fs_files fs path of None \<Rightarrow> [] | Some old \<Rightarrow> old) = ?data"
    using assms(7) by (cases "fs_files fs path") (auto simp: overwrite_def)
  ultimately have "r = Ok ()" "fs_files fs' path = Some ?data" "fs_read_fails fs' path = None"
    using assms(3-5,8) export_buffered [of fs path "key_pair_to_json b js" kp] by (auto simp: export_key_pair_def)
  then show ?thesis
    using key_pair_round_trip [OF assms(1,2), of kp] by (simp add: import_key_pair_def import_stored)
qed

theorem export_ignores_failures_witness:
  "\<exists>fs'. export_file (\<lambda>_. [1, 2, 3]) () (ex_files [''k'' \<mapsto> [9, 9, 9, 9, 9, 9]] 2) ''k'' = (Ok (), fs') \<and>
     fs_files fs' ''k'' = Some [1, 2, 9, 9, 9, 9]"
proof -
  let ?fs = "ex_files [''k'' \<mapsto> [9, 9, 9, 9, 9, 9]] 2"
  obtain r fs' where run: "export_file (\<lambda>_. [1, 2, 3]) () ?fs ''k'' = (r, fs')" by fastforce
  have "fs_open_fails ?fs ''k'' = None" "fs_room ?fs ''k'' = 2" "fs_files ?fs ''k'' = Some [9, 9, 9, 9, 9, 9]"
    by (simp_all add: ex_files_def)
  with export_ignores_failures [of ?fs "''k''" "\<lambda>_. [1, 2, 3]" "()", OF _ _ run] run show ?thesis by (auto simp: buffer_capacity_def)
qed

theorem exported_key_pair_imports_witness:
  "\<exists>fs'. export_key_pair ex_base64 ex_json \<lparr>kp_name = PublicKey 7, kp_secret = SecretKey 9\<rparr> (ex_files Map.empty 1000) ''k'' = (Ok (), fs') \<and>
     import_key_pair ex_base64 ex_json fs' ''k'' = Ok \<lparr>kp_name = PublicKey 7, kp_secret = SecretKey 9\<rparr>"
proof -
  let ?kp = "\<lparr>kp_name = PublicKey 7, kp_secret = SecretKey 9\<rparr>" and ?fs = "ex_files Map.empty 1000"
  obtain r fs' where run: "export_key_pair ex_base64 ex_json ?kp ?fs ''k'' = (r, fs')" by fastforce
  have "fs_open_fails ?fs ''k'' = None" "fs_read_fails ?fs ''k'' = None" "fs_room ?fs ''k'' = 1000" "fs_files ?fs ''k'' = None"
    by (simp_all add: ex_files_def)
  with exported_key_pair_imports [OF ex_base64_ok ex_json_ok _ _ _ _ _ run] run show ?thesis
    by (auto simp: ex_key_pair_length buffer_capacity_def)
qed

end
