(* ===== verification/NodeMain.thy ===== *)
theory NodeMain
  imports Authority WorkerNode ConfigFiles
begin

text \<open>
  The node binary (\<open>node/src/main.rs\<close>): its two commands, \<open>generate_keys\<close> and \<open>run\<close>, from the arguments that the
  command line parser \<open>clap\<close> hands over (it rejects missing required arguments and unknown subcommands itself) to the
  tasks that are started. What a started node does from there on are \<open>authority_run\<close> and \<open>worker_run\<close>.
\<close>

section \<open>Arguments and surroundings\<close>

datatype role = PrimaryRole | WorkerRole string

record run_args =
  ra_keys :: string
  ra_committee :: string
  ra_parameters :: "string option"
  ra_store :: string
  ra_role :: role

datatype command =
  GenerateKeys string
| RunNode run_args

text \<open>
  The third-party functions of a process, the environment variables, the compile-time feature \<open>benchmark\<close>, and \<open>DB::open_default\<close>.
  Committee and parameters are read by derived implementations from JSON.
\<close>

record 'db platform =
  pf_crypto :: dalek
  pf_codec :: bincode
  pf_worker_codec :: worker_codec
  pf_rocksdb :: "'db rocksdb"
  pf_open :: "string \<Rightarrow> (string, 'db) result"
  pf_base64 :: base64
  pf_json :: serde_json
  pf_committee_json :: "bytes \<Rightarrow> (string, committee) result"
  pf_parameters_json :: "bytes \<Rightarrow> (string, parameters) result"
  pf_env :: environment
  pf_benchmark :: bool

text \<open>An error of \<open>anyhow\<close>: its context and its cause.\<close>

datatype cause = ConfigCause config_error | StoreCause string | ParseCause

datatype node_error = Context string cause

definition with_context :: "string \<Rightarrow> ('e \<Rightarrow> cause) \<Rightarrow> ('e, 'a) result \<Rightarrow> (node_error, 'a) result" where
  "with_context m cause r = map_err (\<lambda>e. Context m (cause e)) r"

definition log_level :: "nat \<Rightarrow> string" where
  "log_level occurrences =
     (if occurrences = 0 then ''error'' else if occurrences = 1 then ''warn'' else if occurrences = 2 then ''info''
      else if occurrences = 3 then ''debug'' else ''trace'')"

section \<open>Running a node\<close>

record node_config =
  nc_keys :: key_pair
  nc_committee :: committee
  nc_parameters :: parameters

definition load_parameters :: "'db platform \<Rightarrow> file_system \<Rightarrow> run_args \<Rightarrow> (node_error, parameters) result" where
  "load_parameters pf fs args =
     (case ra_parameters args of
        Some filename \<Rightarrow>
          with_context ''Failed to load the node's parameters'' ConfigCause (import_file (pf_parameters_json pf) fs filename)
      | None \<Rightarrow> Ok parameters_default)"

definition load_config :: "'db platform \<Rightarrow> file_system \<Rightarrow> run_args \<Rightarrow> (node_error, node_config) result" where
  "load_config pf fs args =
     and_then (with_context ''Failed to load the node's keypair'' ConfigCause
         (import_key_pair (pf_base64 pf) (pf_json pf) fs (ra_keys args))) (\<lambda>keypair.
     and_then (with_context ''Failed to load the committee information'' ConfigCause
         (import_file (pf_committee_json pf) fs (ra_committee args))) (\<lambda>c.
     and_then (load_parameters pf fs args) (\<lambda>params.
       Ok \<lparr>nc_keys = keypair, nc_committee = c, nc_parameters = params\<rparr>)))"

definition node_of :: "'db platform \<Rightarrow> node_config \<Rightarrow> 'db node" where
  "node_of pf cfg =
     \<lparr>nd_crypto = pf_crypto pf, nd_codec = pf_codec pf, nd_rocksdb = pf_rocksdb pf, nd_name = kp_name (nc_keys cfg),
      nd_secret = kp_secret (nc_keys cfg), nd_committee = nc_committee cfg, nd_gc_depth = gc_depth (nc_parameters cfg)\<rparr>"

definition worker_for :: "'db platform \<Rightarrow> node_config \<Rightarrow> worker_id \<Rightarrow> 'db worker" where
  "worker_for pf cfg wid =
     \<lparr>wk_crypto = pf_crypto pf, wk_codec = pf_worker_codec pf, wk_rocksdb = pf_rocksdb pf, wk_name = kp_name (nc_keys cfg),
      wk_id = wid, wk_committee = nc_committee cfg, wk_parameters = nc_parameters cfg\<rparr>"

datatype 'db started =
  StartedPrimary "'db authority_node"
| StartedWorker "'db worker_node"

text \<open>What \<open>Primary::spawn\<close> and \<open>Worker::spawn\<close> report is a panic of the process.\<close>

fun start_role :: "'db platform \<Rightarrow> node_config \<Rightarrow> 'db \<Rightarrow> role \<Rightarrow> (node_error, 'db started) result" where
  "start_role pf cfg d PrimaryRole =
     (case authority_spawn (node_of pf cfg) (nc_parameters cfg) (pf_env pf) d of
        Inl _ \<Rightarrow> Panicked
      | Inr (n, _) \<Rightarrow> Ok (StartedPrimary n))"
| "start_role pf cfg d (WorkerRole id_text) =
     and_then (with_context ''The worker id must be a positive integer'' (\<lambda>_. ParseCause)
         (case parse_unsigned id_text of None \<Rightarrow> Err () | Some wid \<Rightarrow> Ok wid)) (\<lambda>wid.
     case worker_node_spawn (worker_for pf cfg wid) (pf_benchmark pf) d of
       Inl _ \<Rightarrow> Panicked
     | Inr w \<Rightarrow> Ok (StartedWorker w))"

definition run_node :: "'db platform \<Rightarrow> file_system \<Rightarrow> run_args \<Rightarrow> (node_error, 'db started) result" where
  "run_node pf fs args =
     and_then (load_config pf fs args) (\<lambda>cfg.
     and_then (with_context ''Failed to create a store'' StoreCause (pf_open pf (ra_store args))) (\<lambda>d.
       start_role pf cfg d (ra_role args)))"

definition main_command ::
  "'db platform \<Rightarrow> b256 \<times> b512 \<Rightarrow> file_system \<Rightarrow> command \<Rightarrow> (node_error, 'db started option) result \<times> file_system" where
  "main_command pf os_rng fs cmd =
     (case cmd of
        GenerateKeys filename \<Rightarrow>
          (case export_key_pair (pf_base64 pf) (pf_json pf) (key_pair_new os_rng) fs filename of (r, fs') \<Rightarrow>
             (and_then (with_context ''Failed to generate key pair'' ConfigCause r) (\<lambda>_. Ok None), fs'))
      | RunNode args \<Rightarrow> (and_then (run_node pf fs args) (\<lambda>s. Ok (Some s)), fs))"

section \<open>Who may run\<close>

lemma authority_spawn_member: "authority_spawn nd params env d = Ok (n, begun) \<Longrightarrow> \<exists>a. primary_of (nd_committee nd) (nd_name nd) = Ok a"
  by (auto simp: authority_spawn_def primary_spawn_def and_then_Ok_iff split: sum.splits)

lemma case_Ok_iff:
  "(case r of Inl _ \<Rightarrow> Panicked | Inr x \<Rightarrow> k x) = Ok y \<longleftrightarrow> (\<exists>x. r = Ok x \<and> k x = Ok y)"
  "(case opt of None \<Rightarrow> Err e | Some x \<Rightarrow> Ok x) = Ok z \<longleftrightarrow> opt = Some z"
  by (cases r; simp) (cases opt; simp)

lemma worker_spawn_member:
  assumes "worker_node_spawn wk benchmark d = Ok n"
  shows "\<exists>w. worker_of (wk_committee wk) (wk_name wk) (wk_id wk) = Ok w"
proof (cases "worker_of (wk_committee wk) (wk_name wk) (wk_id wk)")
  case (Inl f)
  then show ?thesis using assms by (simp add: worker_node_spawn_def worker_spawn_def handle_primary_messages_def)
qed simp

text \<open>The message asks for a positive integer; zero and a leading plus sign are accepted.\<close>

lemma worker_id_zero: "parse_unsigned ''0'' = Some (0 :: worker_id)" "parse_unsigned ''+7'' = Some (7 :: worker_id)"
  by (simp_all add: parse_unsigned_def is_digit_def digit_value_def)

section \<open>A concrete process\<close>

definition ex_platform :: "(bytes \<times> bytes) list platform" where
  "ex_platform =
     \<lparr>pf_crypto = ex_dalek, pf_codec = ex_bincode, pf_worker_codec = ex_codec, pf_rocksdb = ex_rocksdb, pf_open = (\<lambda>_. Ok []),
      pf_base64 = ex_base64, pf_json = ex_json, pf_committee_json = (\<lambda>_. Ok ex_committee),
      pf_parameters_json = (\<lambda>_. Ok parameters_default), pf_env = Map.empty, pf_benchmark = False\<rparr>"

definition ex_args :: run_args where
  "ex_args = \<lparr>ra_keys = ''k'', ra_committee = ''c'', ra_parameters = None, ra_store = ''s'', ra_role = WorkerRole ''0''\<rparr>"

lemma ex_start:
  obtains w where
    "start_role ex_platform \<lparr>nc_keys = key_pair_new (1, 9), nc_committee = ex_committee, nc_parameters = parameters_default\<rparr> []
       (WorkerRole ''0'') = Ok (StartedWorker w)"
proof -
  obtain w where "worker_node_spawn ex_worker False [] = Ok w" by (rule ex_worker_node)
  moreover have "worker_for ex_platform \<lparr>nc_keys = key_pair_new (1, 9), nc_committee = ex_committee, nc_parameters = parameters_default\<rparr> 0 =
      ex_worker"
    by (simp add: worker_for_def ex_platform_def ex_worker_def key_pair_new_def generate_production_keypair_def generate_keypair_def)
  ultimately show thesis using that by (simp add: worker_id_zero with_context_def) (simp add: ex_platform_def)
qed

lemma ex_platform_simps [simp]:
  "pf_base64 ex_platform = ex_base64" "pf_json ex_platform = ex_json" "pf_open ex_platform path = Ok []"
  "pf_committee_json ex_platform data = Ok ex_committee"
  by (simp_all add: ex_platform_def)

lemma ex_args_simps [simp]:
  "ra_keys ex_args = ''k''" "ra_committee ex_args = ''c''" "ra_parameters ex_args = None" "ra_role ex_args = WorkerRole ''0''"
  by (simp_all add: ex_args_def)

section \<open>Properties\<close>

text \<open>
  A node that starts does so under the key pair of its file, in a committee that knows it: \<open>run\<close> starts a primary only when the
  imported name has a primary address, and a worker only when the committee has a worker of the parsed id under this name;
  otherwise it reports an error or panics.
\<close>

theorem started_node_is_member:
  assumes "run_node pf fs args = Ok s"
  shows "\<exists>cfg d. load_config pf fs args = Ok cfg \<and> pf_open pf (ra_store args) = Ok d \<and>
    import_key_pair (pf_base64 pf) (pf_json pf) fs (ra_keys args) = Ok (nc_keys cfg) \<and>
    (case s of
       StartedPrimary n \<Rightarrow> ra_role args = PrimaryRole \<and>
         (\<exists>a begun. primary_of (nc_committee cfg) (kp_name (nc_keys cfg)) = Ok a \<and>
            authority_spawn (node_of pf cfg) (nc_parameters cfg) (pf_env pf) d = Ok (n, begun))
     | StartedWorker w \<Rightarrow>
         (\<exists>id_text wid a. ra_role args = WorkerRole id_text \<and> parse_unsigned id_text = Some wid \<and>
            worker_of (nc_committee cfg) (kp_name (nc_keys cfg)) wid = Ok a \<and>
            worker_node_spawn (worker_for pf cfg wid) (pf_benchmark pf) d = Ok w))"
proof -
  obtain cfg d where cfg: "load_config pf fs args = Ok cfg" "pf_open pf (ra_store args) = Ok d"
    and begun: "start_role pf cfg d (ra_role args) = Ok s"
    using assms by (auto simp: run_node_def and_then_Ok_iff with_context_def)
  have keys: "import_key_pair (pf_base64 pf) (pf_json pf) fs (ra_keys args) = Ok (nc_keys cfg)"
    using cfg(1) by (auto simp: load_config_def and_then_Ok_iff with_context_def)
  show ?thesis
  proof (cases "ra_role args")
    case PrimaryRole
    then obtain n b where n: "authority_spawn (node_of pf cfg) (nc_parameters cfg) (pf_env pf) d = Ok (n, b)" "s = StartedPrimary n"
      using begun by (auto split: sum.splits)
    from authority_spawn_member [OF n(1)] show ?thesis using cfg keys n PrimaryRole by (auto simp: node_of_def)
  next
    case (WorkerRole id_text)
    then obtain wid w where w: "parse_unsigned id_text = Some wid" "s = StartedWorker w"
      "worker_node_spawn (worker_for pf cfg wid) (pf_benchmark pf) d = Ok w"
      using begun by (auto simp: and_then_Ok_iff with_context_def case_Ok_iff)
    from worker_spawn_member [OF w(3)] show ?thesis using cfg keys w WorkerRole by (auto simp: worker_for_def)
  qed
qed

theorem started_node_is_member_witness:
  "\<exists>fs s a. run_node ex_platform fs ex_args = Ok s \<and> worker_of ex_committee (PublicKey 1) 0 = Ok a"
proof -
  let ?cfg = "\<lparr>nc_keys = key_pair_new (1, 9), nc_committee = ex_committee, nc_parameters = parameters_default\<rparr>"
  let ?fs = "ex_files [''c'' \<mapsto> [], ''k'' \<mapsto> key_pair_to_json ex_base64 ex_json (key_pair_new (1, 9)) @ [10]] 0"
  have "load_config ex_platform ?fs ex_args = Ok ?cfg"
    using key_pair_round_trip [OF ex_base64_ok ex_json_ok]
    by (simp add: load_config_def with_context_def import_key_pair_def import_file_def fs_read_def ex_files_def load_parameters_def)
  moreover obtain w where "start_role ex_platform ?cfg [] (WorkerRole ''0'') = Ok (StartedWorker w)" by (rule ex_start)
  ultimately have run: "run_node ex_platform ?fs ex_args = Ok (StartedWorker w)" by (simp add: run_node_def with_context_def)
  from started_node_is_member [OF run] \<open>load_config ex_platform ?fs ex_args = Ok ?cfg\<close>
  have "\<exists>a. worker_of ex_committee (PublicKey 1) 0 = Ok a"
    by (auto simp: worker_id_zero key_pair_new_def generate_production_keypair_def generate_keypair_def)
  with run show ?thesis by blast
qed

text \<open>
  C37: The two commands fit together: after \<open>generate_keys\<close> into a new file, \<open>run\<close> with that file goes on with exactly the generated
  key pair, given a \<open>base64\<close> and a \<open>serde_json\<close> that read what they write and a device with room.
\<close>

theorem generated_keys_run:
  assumes "base64_ok (pf_base64 pf)" and "serde_json_ok (pf_json pf)"
    and "fs_open_fails fs (ra_keys args) = None" "fs_read_fails fs (ra_keys args) = None" "fs_files fs (ra_keys args) = None"
    and "length (key_pair_to_json (pf_base64 pf) (pf_json pf) (key_pair_new os_rng)) < buffer_capacity"
    and "length (key_pair_to_json (pf_base64 pf) (pf_json pf) (key_pair_new os_rng)) < fs_room fs (ra_keys args)"
    and "main_command pf os_rng fs (GenerateKeys (ra_keys args)) = (r, fs')"
    and "import_file (pf_committee_json pf) fs' (ra_committee args) = Ok c" and "load_parameters pf fs' args = Ok params"
    and "pf_open pf (ra_store args) = Ok d"
  shows "r = Ok None \<and>
    run_node pf fs' args = start_role pf \<lparr>nc_keys = key_pair_new os_rng, nc_committee = c, nc_parameters = params\<rparr> d (ra_role args)"
proof -
  obtain r1 where ex: "export_key_pair (pf_base64 pf) (pf_json pf) (key_pair_new os_rng) fs (ra_keys args) = (r1, fs')"
    "r = and_then (with_context ''Failed to generate key pair'' ConfigCause r1) (\<lambda>_. Ok None)"
    using assms(8) by (auto simp: main_command_def split: prod.splits)
  have "r1 = Ok () \<and> import_key_pair (pf_base64 pf) (pf_json pf) fs' (ra_keys args) = Ok (key_pair_new os_rng)"
    using assms(5) by (intro exported_key_pair_imports [OF assms(1-4,6,7) _ ex(1)]) simp
  then show ?thesis using ex(2) assms(9-11) by (simp add: run_node_def load_config_def with_context_def)
qed

theorem generated_keys_run_witness:
  "\<exists>fs' w. main_command ex_platform (1, 9) (ex_files [''c'' \<mapsto> []] 1000) (GenerateKeys ''k'') = (Ok None, fs') \<and>
     run_node ex_platform fs' ex_args = Ok (StartedWorker w)"
proof -
  let ?fs = "ex_files [''c'' \<mapsto> []] 1000"
  obtain r fs' where run: "main_command ex_platform (1, 9) ?fs (GenerateKeys ''k'') = (r, fs')" by fastforce
  have fs: "fs_open_fails ?fs ''k'' = None" "fs_read_fails ?fs ''k'' = None" "fs_room ?fs ''k'' = 1000" "fs_files ?fs ''k'' = None"
    by (simp_all add: ex_files_def)
  have "import_file (pf_committee_json ex_platform) fs' ''c'' = Ok ex_committee"
    using run export_buffered [OF fs(1), of "key_pair_to_json ex_base64 ex_json" "key_pair_new (1, 9)"]
    by (auto simp: main_command_def export_key_pair_def ex_key_pair_length buffer_capacity_def import_file_def fs_read_def ex_files_def)
  moreover have "load_parameters ex_platform fs' ex_args = Ok parameters_default" by (simp add: load_parameters_def)
  moreover obtain w where "start_role ex_platform
      \<lparr>nc_keys = key_pair_new (1, 9), nc_committee = ex_committee, nc_parameters = parameters_default\<rparr> [] (WorkerRole ''0'') = Ok (StartedWorker w)"
    by (rule ex_start)
  ultimately show ?thesis
    using generated_keys_run [of ex_platform ?fs ex_args "(1, 9)" r fs' ex_committee parameters_default "[]"] run fs
    by (auto simp: ex_base64_ok ex_json_ok ex_key_pair_length buffer_capacity_def)
qed

end
