(* ===== verification/Client.thy ===== *)
theory Client
  imports Worker
begin

text \<open>
  \<open>node/src/benchmark_client.rs\<close>: the client that loads a worker with transactions at a given rate, with a
  schedule of silent slots. The clock, the random start value and the TCP stream are inputs: a tick of the interval comes
  with the time elapsed and the number of transactions that can be sent before the stream fails, if it does.
\<close>

section \<open>The client\<close>

record client =
  cl_target :: socket_addr
  cl_size :: usize
  cl_rate :: u64
  cl_nodes :: "socket_addr list"
  cl_silence_schedule :: bytes
  cl_silence_slot_ms :: u64

datatype client_error =
  InvalidAddress
| InvalidSchedule
| InvalidSlotDuration
| SlotDurationRequired
| InvalidSize
| InvalidRate
| TransactionTooSmall
| ConnectionFailed socket_addr

text \<open>The arguments as strings; \<open>parse_address\<close> is \<open>SocketAddr::from_str\<close>.\<close>

record client_args =
  ca_addr :: string
  ca_size :: string
  ca_rate :: string
  ca_nodes :: "string list"
  ca_silence_schedule :: string
  ca_silence_slot_ms :: string

definition parsed :: "client_error \<Rightarrow> 'a option \<Rightarrow> (client_error, 'a) result" where
  "parsed e r = (case r of None \<Rightarrow> Err e | Some x \<Rightarrow> Ok x)"

definition parse_addresses :: "(string \<Rightarrow> socket_addr option) \<Rightarrow> string list \<Rightarrow> (client_error, socket_addr list) result" where
  "parse_addresses parse_address args =
     (if \<exists>x \<in> set args. parse_address x = None then Err InvalidAddress else Ok (map (the \<circ> parse_address) args))"

definition client_new :: "(string \<Rightarrow> socket_addr option) \<Rightarrow> client_args \<Rightarrow> (client_error, client) result" where
  "client_new parse_address args =
     and_then (parsed InvalidAddress (parse_address (ca_addr args))) (\<lambda>target.
     let schedule = map of_char (ca_silence_schedule args) in
     and_then (ensure (\<forall>v \<in> set schedule. v = of_char (CHR ''0'') \<or> v = of_char (CHR ''1'')) InvalidSchedule) (\<lambda>_.
     and_then (parsed InvalidSlotDuration (parse_unsigned (ca_silence_slot_ms args))) (\<lambda>slot_ms.
     and_then (ensure (schedule = [] \<or> slot_ms \<noteq> 0) SlotDurationRequired) (\<lambda>_.
     and_then (parsed InvalidSize (parse_unsigned (ca_size args))) (\<lambda>sz.
     and_then (parsed InvalidRate (parse_unsigned (ca_rate args))) (\<lambda>rate.
     and_then (parse_addresses parse_address (ca_nodes args)) (\<lambda>nodes.
       Ok \<lparr>cl_target = target, cl_size = sz, cl_rate = rate, cl_nodes = nodes, cl_silence_schedule = schedule,
           cl_silence_slot_ms = slot_ms\<rparr>)))))))"

definition client_is_silent :: "bytes \<Rightarrow> u64 \<Rightarrow> millis \<Rightarrow> bool" where
  "client_is_silent schedule slot_ms elapsed =
     (if schedule = [] \<or> slot_ms = 0 then False
      else let slot = (ucast (elapsed div ucast slot_ms) :: usize)
           in if unat slot < length schedule then schedule ! unat slot = of_char (CHR ''1'') else False)"

section \<open>Sending\<close>

definition precision :: u64 where
  "precision = 20"

text \<open>\<open>put_u8\<close>, \<open>put_u64\<close> and \<open>resize\<close> on an empty buffer.\<close>

definition client_transaction :: "usize \<Rightarrow> 8 word \<Rightarrow> u64 \<Rightarrow> transaction" where
  "client_transaction sz tag n =
     (let tx = tag # be_bytes 8 n in take (unat sz) tx @ replicate (unat sz - length tx) 0)"

text \<open>The loop over one burst, for the indices \<open>xs\<close> still to do.\<close>

fun send_burst :: "usize \<Rightarrow> u64 \<Rightarrow> u64 \<Rightarrow> u64 list \<Rightarrow> u64 \<Rightarrow> transaction list \<times> u64" where
  "send_burst sz burst counter [] r = ([], r)"
| "send_burst sz burst counter (x # xs) r =
     (if x = counter mod burst then
        (case send_burst sz burst counter xs r of (txs, r') \<Rightarrow> (client_transaction sz 0 counter # txs, r'))
      else
        (case send_burst sz burst counter xs (r + 1) of (txs, r') \<Rightarrow> (client_transaction sz 1 (r + 1) # txs, r')))"

text \<open>The main loop: the transactions sent, tick by tick, until the stream fails.\<close>

fun client_ticks :: "client \<Rightarrow> (millis \<times> nat option) list \<Rightarrow> u64 \<Rightarrow> u64 \<Rightarrow> transaction list list" where
  "client_ticks cl [] counter r = []"
| "client_ticks cl ((elapsed, fails) # ticks) counter r =
     (if client_is_silent (cl_silence_schedule cl) (cl_silence_slot_ms cl) elapsed then client_ticks cl ticks counter r
      else let burst = cl_rate cl div precision in
        (case send_burst (cl_size cl) burst counter (map word_of_nat [0..<unat burst]) r of (txs, r') \<Rightarrow>
           (case fails of
              Some n \<Rightarrow> if n < length txs then [take n txs] else txs # client_ticks cl ticks (counter + 1) r'
            | None \<Rightarrow> txs # client_ticks cl ticks (counter + 1) r')))"

definition client_send ::
  "client \<Rightarrow> bool \<Rightarrow> u64 \<Rightarrow> (millis \<times> nat option) list \<Rightarrow> (client_error, transaction list list) result" where
  "client_send cl connects r ticks =
     (if cl_size cl < 9 then Err TransactionTooSmall
      else if \<not> connects then Err (ConnectionFailed (cl_target cl))
      else Ok (client_ticks cl ticks 0 r))"

section \<open>Waiting for the nodes\<close>

text \<open>
  \<open>reachable a k\<close> says whether the \<open>k\<close>-th attempt to connect to a node succeeds. The loop over the attempts may run for
  ever; \<open>join_all\<close> ends when the loop of every node has ended.
\<close>

partial_function (option) wait_node :: "(nat \<Rightarrow> bool) \<Rightarrow> nat \<Rightarrow> nat option" where
  "wait_node reachable k = (if reachable k then Some k else wait_node reachable (Suc k))"

fun client_wait :: "(socket_addr \<Rightarrow> nat \<Rightarrow> bool) \<Rightarrow> socket_addr list \<Rightarrow> nat list option" where
  "client_wait reachable [] = Some []"
| "client_wait reachable (a # nodes) =
     (case wait_node (reachable a) 0 of
        None \<Rightarrow> None
      | Some k \<Rightarrow> (case client_wait reachable nodes of None \<Rightarrow> None | Some ks \<Rightarrow> Some (k # ks)))"

text \<open>The whole program: \<open>None\<close> when it waits for ever.\<close>

definition client_main ::
  "(string \<Rightarrow> socket_addr option) \<Rightarrow> (socket_addr \<Rightarrow> nat \<Rightarrow> bool) \<Rightarrow> bool \<Rightarrow> u64 \<Rightarrow> (millis \<times> nat option) list \<Rightarrow> client_args
   \<Rightarrow> (client_error, transaction list list) result option" where
  "client_main parse_address reachable connects r ticks args =
     (case client_new parse_address args of
        Inl f \<Rightarrow> Some (Inl f)
      | Inr cl \<Rightarrow>
          (case client_wait reachable (cl_nodes cl) of
             None \<Rightarrow> None
           | Some _ \<Rightarrow> Some (client_send cl connects r ticks)))"

lemma wait_node_found:
  assumes "reachable (k + n)"
  shows "\<exists>j. k \<le> j \<and> j \<le> k + n \<and> wait_node reachable k = Some j \<and> reachable j"
  using assms
proof (induction n arbitrary: k)
  case 0
  then show ?case by (simp add: wait_node.simps)
next
  case (Suc n)
  show ?case
  proof (cases "reachable k")
    case True
    then show ?thesis by (auto simp: wait_node.simps [of reachable k])
  next
    case False
    have "\<exists>j. Suc k \<le> j \<and> j \<le> Suc k + n \<and> wait_node reachable (Suc k) = Some j \<and> reachable j"
      by (rule Suc.IH) (use Suc.prems in simp)
    then show ?thesis using False by (auto simp: wait_node.simps [of reachable k])
  qed
qed

lemma wait_node_result: "wait_node reachable k = Some j \<Longrightarrow> reachable j"
  by (erule wait_node.raw_induct [rotated, where P = "\<lambda>reachable k j. reachable j"]) (auto split: if_splits)

lemma client_wait_iff: "client_wait reachable nodes = None \<longleftrightarrow> (\<exists>a \<in> set nodes. \<forall>k. \<not> reachable a k)"
proof (induction nodes)
  case (Cons a nodes)
  have "wait_node (reachable a) 0 = None \<longleftrightarrow> (\<forall>k. \<not> reachable a k)"
    using wait_node_found [of "reachable a" 0] wait_node_result [of "reachable a" 0]
    by (metis add_0 not_None_eq option.distinct(1))
  then show ?case using Cons by (auto split: option.split)
qed simp

section \<open>Sample transactions\<close>

lemma client_transaction_long:
  assumes "9 \<le> sz"
  shows "client_transaction sz tag n = tag # be_bytes 8 n @ replicate (unat sz - 9) 0"
    and "length (client_transaction sz tag n) = unat sz"
proof -
  have "9 \<le> unat sz" using assms by (simp add: word_le_nat_alt)
  then show "client_transaction sz tag n = tag # be_bytes 8 n @ replicate (unat sz - 9) 0"
    "length (client_transaction sz tag n) = unat sz" by (simp_all add: client_transaction_def Let_def)
qed

lemma sample_ids_simps [simp]:
  "sample_ids [] = []"
  "sample_ids (tx # txs) = (if tx ! 0 = 0 \<and> 8 < length tx then [be_word (take 8 (drop 1 tx))] else []) @ sample_ids txs"
  "sample_ids (txs1 @ txs2) = sample_ids txs1 @ sample_ids txs2"
  by (simp_all add: sample_ids_def)

lemma sample_ids_client:
  assumes "9 \<le> sz"
  shows "sample_ids (client_transaction sz tag n # txs) = (if tag = 0 then [n] else []) @ sample_ids txs"
proof -
  have "8 < unat sz" using assms by (simp add: word_le_nat_alt)
  then show ?thesis
    using client_transaction_long(2) [OF assms, of tag n] by (simp add: client_transaction_long(1) [OF assms])
qed

lemma send_burst_samples:
  assumes "9 \<le> sz"
  shows "sample_ids (fst (send_burst sz burst counter xs r)) = replicate (count_list xs (counter mod burst)) counter \<and>
    length (fst (send_burst sz burst counter xs r)) = length xs \<and>
    (\<forall>tx \<in> set (fst (send_burst sz burst counter xs r)). length tx = unat sz)"
proof (induction xs arbitrary: r)
  case Nil
  then show ?case by simp
next
  case (Cons x xs)
  then show ?case
    by (auto simp: case_prod_unfold sample_ids_client [OF assms] client_transaction_long(2) [OF assms]
        simp del: sample_ids_simps(2))
qed

lemma count_list_distinct: "distinct xs \<Longrightarrow> count_list xs x = (if x \<in> set xs then 1 else 0)"
  by (induction xs) auto

lemma burst_indices:
  fixes burst :: u64
  shows "count_list (map word_of_nat [0..<unat burst]) (counter mod burst) = (if burst = 0 then 0 else 1)"
proof (cases "burst = 0")
  case True
  then show ?thesis by simp
next
  case False
  have small: "take_bit 64 n = n" if "n < unat burst" for n
    using that unsigned_less [where ?'a = nat, of burst] by (simp add: take_bit_nat_eq_self)
  have "distinct (map (word_of_nat :: nat \<Rightarrow> u64) [0..<unat burst])"
    by (auto simp: distinct_map inj_on_def word_of_nat_eq_iff small)
  moreover have "counter mod burst \<in> set (map word_of_nat [0..<unat burst])"
  proof -
    have "unat (counter mod burst) < unat burst" using False by (simp add: unat_mod unat_gt_0)
    then show ?thesis by (auto intro!: image_eqI [of _ _ "unat (counter mod burst)"])
  qed
  ultimately show ?thesis using False by (simp add: count_list_distinct)
qed

text \<open>The ticks at which the client sends.\<close>

definition active :: "client \<Rightarrow> (millis \<times> nat option) list \<Rightarrow> nat" where
  "active cl ticks =
     length (filter (\<lambda>(elapsed, _). \<not> client_is_silent (cl_silence_schedule cl) (cl_silence_slot_ms cl) elapsed) ticks)"

lemma client_ticks_samples:
  assumes "9 \<le> cl_size cl" and "\<forall>(_, fails) \<in> set ticks. fails = None"
  shows "sample_ids (concat (client_ticks cl ticks counter r)) =
      (if cl_rate cl div precision = 0 then [] else map (\<lambda>i. counter + word_of_nat i) [0..<active cl ticks]) \<and>
    length (concat (client_ticks cl ticks counter r)) = active cl ticks * unat (cl_rate cl div precision) \<and>
    (\<forall>tx \<in> set (concat (client_ticks cl ticks counter r)). length tx = unat (cl_size cl))"
  using assms(2)
proof (induction ticks arbitrary: counter r)
  case Nil
  then show ?case by (simp add: active_def)
next
  case (Cons tick ticks)
  obtain elapsed where tick: "tick = (elapsed, None)" using Cons.prems by (cases tick) auto
  let ?burst = "cl_rate cl div precision"
  show ?case
  proof (cases "client_is_silent (cl_silence_schedule cl) (cl_silence_slot_ms cl) elapsed")
    case True
    then show ?thesis using Cons tick by (simp add: active_def)
  next
    case False
    let ?xs = "map word_of_nat [0..<unat ?burst]"
    obtain txs r' where b: "send_burst (cl_size cl) ?burst counter ?xs r = (txs, r')" by fastforce
    have txs: "sample_ids txs = (if ?burst = 0 then [] else [counter])" "length txs = unat ?burst" "\<forall>tx \<in> set txs. length tx = unat (cl_size cl)"
      using send_burst_samples [OF assms(1), of ?burst counter ?xs r] b burst_indices [of ?burst counter] by auto
    have step: "client_ticks cl (tick # ticks) counter r = txs # client_ticks cl ticks (counter + 1) r'"
      using False tick b by (simp add: Let_def)
    have k: "active cl (tick # ticks) = Suc (active cl ticks)" using False tick by (simp add: active_def)
    have upt: "map (\<lambda>i. counter + word_of_nat i) [0..<Suc (active cl ticks)] =
        counter # map (\<lambda>i. counter + 1 + word_of_nat i) [0..<active cl ticks]"
      unfolding map_upt_Suc by (simp add: add.assoc)
    have "sample_ids (concat (client_ticks cl (tick # ticks) counter r)) =
        (if ?burst = 0 then [] else map (\<lambda>i. counter + word_of_nat i) [0..<active cl (tick # ticks)])"
      using Cons.IH [of "counter + 1" r'] Cons.prems txs(1) unfolding step k upt by simp
    moreover have "length (concat (client_ticks cl (tick # ticks) counter r)) = active cl (tick # ticks) * unat ?burst"
      using Cons.IH [of "counter + 1" r'] Cons.prems txs(2) unfolding step k by simp
    moreover have "\<forall>tx \<in> set (concat (client_ticks cl (tick # ticks) counter r)). length tx = unat (cl_size cl)"
      using Cons.IH [of "counter + 1" r'] Cons.prems txs(3) unfolding step by auto
    ultimately show ?thesis by blast
  qed
qed

section \<open>Properties\<close>

text \<open>
  The sample transactions of a client are those the batch maker finds: while the stream works, each tick
  outside the silent slots sends a burst of a twentieth of the rate, all transactions have the size asked
  for, and the sample numbers that the batch maker reads from them are 0, 1, 2 and so on, one for each burst.
  At a rate below twenty nothing is ever sent.
\<close>

theorem client_samples_found:
  assumes "client_send cl True r ticks = Inr sent" and "\<forall>(_, fails) \<in> set ticks. fails = None"
  shows "sample_ids (concat sent) = (if cl_rate cl < 20 then [] else map word_of_nat [0..<active cl ticks]) \<and>
    length (concat sent) = active cl ticks * (unat (cl_rate cl) div 20) \<and>
    (\<forall>tx \<in> set (concat sent). length tx = unat (cl_size cl)) \<and> [] \<notin> set (concat sent)"
proof -
  have sz: "9 \<le> cl_size cl" and sent: "sent = client_ticks cl ticks 0 r"
    using assms(1) by (auto simp: client_send_def not_less split: if_splits)
  have div: "unat (cl_rate cl div precision) = unat (cl_rate cl) div 20" by (simp add: unat_div precision_def)
  have "cl_rate cl div precision = 0 \<longleftrightarrow> cl_rate cl < 20"
    using div by (simp add: unat_eq_0 [symmetric] word_less_nat_alt div_eq_0_iff)
  moreover have "0 < unat (cl_size cl)" using sz by (simp add: word_le_nat_alt)
  ultimately show ?thesis
    using client_ticks_samples [OF sz assms(2), of 0 r] unfolding sent div by fastforce
qed

theorem client_samples_found_witness:
  "\<exists>sent. client_send \<lparr>cl_target = ex_addr 1, cl_size = 9, cl_rate = 40, cl_nodes = [], cl_silence_schedule = [49, 48],
        cl_silence_slot_ms = 200\<rparr> True 7 [(0, None), (200, None), (400, None)] = Inr sent \<and>
     sample_ids (concat sent) = [0, 1] \<and> length (concat sent) = 4"
proof -
  let ?cl = "\<lparr>cl_target = ex_addr 1, cl_size = 9, cl_rate = 40, cl_nodes = [], cl_silence_schedule = [49, 48],
        cl_silence_slot_ms = 200\<rparr>" and ?ticks = "[(0, None), (200, None), (400, None)]"
  obtain sent where sent: "client_send ?cl True 7 ?ticks = Inr sent" by (simp add: client_send_def)
  have "active ?cl ?ticks = 2" by (simp add: active_def client_is_silent_def)
  with client_samples_found [OF sent] sent show ?thesis by (simp add: upt_rec)
qed

text \<open>
  C24: The benchmark client ends its waiting exactly when every node it was given becomes reachable at some time; one that never does
  keeps it waiting for ever. Then it refuses a size below 9 bytes and no other, and fails when its target refuses the connection.
  Otherwise, while the stream works, it sends its sample transactions, which the batch maker finds: one per burst, numbered 0, 1, 2 and so on.
\<close>

theorem client_main_sends:
  assumes "client_new parse_address args = Ok cl" and "\<forall>(_, fails) \<in> set ticks. fails = None"
  shows "(client_main parse_address reachable connects r ticks args = None \<longleftrightarrow> (\<exists>a \<in> set (cl_nodes cl). \<forall>k. \<not> reachable a k)) \<and>
    ((\<forall>a \<in> set (cl_nodes cl). \<exists>k. reachable a k) \<longrightarrow>
      (if unat (cl_size cl) < 9 then client_main parse_address reachable connects r ticks args = Some (Err TransactionTooSmall)
       else if \<not> connects then client_main parse_address reachable connects r ticks args = Some (Err (ConnectionFailed (cl_target cl)))
       else \<exists>sent. client_main parse_address reachable connects r ticks args = Some (Ok sent) \<and>
         sample_ids (concat sent) = (if unat (cl_rate cl) < 20 then [] else map word_of_nat [0..<active cl ticks]) \<and>
         length (concat sent) = active cl ticks * (unat (cl_rate cl) div 20) \<and>
         (\<forall>tx \<in> set (concat sent). length tx = unat (cl_size cl))))"
proof -
  have main: "client_main parse_address reachable connects r ticks args =
      (case client_wait reachable (cl_nodes cl) of None \<Rightarrow> None | Some _ \<Rightarrow> Some (client_send cl connects r ticks))"
    by (simp add: client_main_def assms(1))
  have small: "cl_size cl < 9 \<longleftrightarrow> unat (cl_size cl) < 9" "cl_rate cl < 20 \<longleftrightarrow> unat (cl_rate cl) < 20"
    by (simp_all add: word_less_nat_alt)
  consider (tiny) "unat (cl_size cl) < 9" "client_send cl connects r ticks = Err TransactionTooSmall"
    | (refused) "\<not> unat (cl_size cl) < 9" "\<not> connects" "client_send cl connects r ticks = Err (ConnectionFailed (cl_target cl))"
    | (sent) sent where "\<not> unat (cl_size cl) < 9" "connects" "client_send cl True r ticks = Ok sent"
    by (cases "unat (cl_size cl) < 9"; cases connects) (simp_all add: client_send_def small)
  note send = this
  show ?thesis
  proof (cases "\<exists>a \<in> set (cl_nodes cl). \<forall>k. \<not> reachable a k")
    case True
    then have "client_wait reachable (cl_nodes cl) = None" by (simp add: client_wait_iff)
    with main have "client_main parse_address reachable connects r ticks args = None" by simp
    then show ?thesis using True by blast
  next
    case False
    then obtain ks where "client_wait reachable (cl_nodes cl) = Some ks" using client_wait_iff by fastforce
    then have "client_main parse_address reachable connects r ticks args = Some (client_send cl connects r ticks)"
      using main by simp
    note ran = this
    from send show ?thesis
    proof cases
      case tiny
      then show ?thesis using False ran by auto
    next
      case refused
      then show ?thesis using False ran by auto
    next
      case (sent sent)
      then show ?thesis using False ran client_samples_found [OF sent(3) assms(2)] unfolding small by auto
    qed
  qed
qed

definition ex_client_args :: client_args where
  "ex_client_args = \<lparr>ca_addr = ''a'', ca_size = ''9'', ca_rate = ''40'', ca_nodes = [''b''], ca_silence_schedule = ''10'',
     ca_silence_slot_ms = ''200''\<rparr>"

definition ex_parse_address :: "string \<Rightarrow> socket_addr option" where
  "ex_parse_address s = Some (ex_addr (if s = ''a'' then 1 else 2))"

theorem client_main_sends_witness:
  "\<exists>sent. client_main ex_parse_address (\<lambda>_ k. k = 3) True 7 [(0, None), (200, None), (400, None)] ex_client_args = Some (Ok sent) \<and>
     sample_ids (concat sent) = [0, 1] \<and> length (concat sent) = 4"
proof -
  let ?cl = "\<lparr>cl_target = ex_addr 1, cl_size = 9, cl_rate = 40, cl_nodes = [ex_addr 2], cl_silence_schedule = [49, 48],
        cl_silence_slot_ms = 200\<rparr>" and ?ticks = "[(0, None), (200, None), (400, None)] :: (millis \<times> nat option) list"
  let ?main = "client_main ex_parse_address (\<lambda>_ k. k = 3) True 7 ?ticks ex_client_args"
  have new: "client_new ex_parse_address ex_client_args = Ok ?cl"
    by (simp add: client_new_def ex_client_args_def ex_parse_address_def parsed_def parse_addresses_def parse_unsigned_def
        is_digit_def digit_value_def ensure_def)
  have "active ?cl ?ticks = 2" by (simp add: active_def client_is_silent_def)
  then show ?thesis using client_main_sends [OF new, of ?ticks "\<lambda>_ k. k = 3" True 7] by (auto simp: upt_rec)
qed

end
