(* ===== verification/Receiver.thy ===== *)
theory Receiver
  imports Worker
begin

text \<open>
  A network receiver as a whole (\<open>network/src/receiver.rs\<close>): the loop that accepts connections and the runners of all of
  them, whose steps interleave freely. The handlers of all connections are clones and may share a state, as the pause flag
  that \<open>PrimaryReceiverHandler\<close> of a worker watches. Every connection is served as if it were alone, but for this state.
\<close>

section \<open>Accepting connections\<close>

text \<open>Connections are numbered in the order in which they are accepted; the open ones are those whose runner is in its loop.\<close>

record 'w receiver =
  rv_address :: socket_addr
  rv_next :: nat
  rv_open :: "(nat \<times> socket_addr) list"
  rv_shared :: 'w

text \<open>An accept gives the peer or fails; a frame is \<open>None\<close> when it could not be received.\<close>

datatype receiver_event =
  Accepts "socket_addr option"
| FrameArrives nat "bytes option"
| PeerCloses nat

definition receiver_spawn :: "(socket_addr \<Rightarrow> bool) \<Rightarrow> socket_addr \<Rightarrow> 'w \<Rightarrow> (unit, 'w receiver) result" where
  "receiver_spawn binds address w =
     (if binds address then Ok \<lparr>rv_address = address, rv_next = 0, rv_open = [], rv_shared = w\<rparr> else Panicked)"

definition end_runner :: "nat \<Rightarrow> 'w receiver \<Rightarrow> 'w receiver" where
  "end_runner i s = s\<lparr>rv_open := filter (\<lambda>(j, _). j \<noteq> i) (rv_open s)\<rparr>"

definition is_open :: "nat \<Rightarrow> 'w receiver \<Rightarrow> bool" where
  "is_open i s \<longleftrightarrow> i \<in> fst ` set (rv_open s)"

text \<open>The handler's outputs carry the number of the connection. A frame is handled in one step.\<close>

fun receiver_step ::
  "('w, 'o, 'e) handler \<Rightarrow> receiver_event \<Rightarrow> 'w receiver \<Rightarrow> 'w receiver \<times> (nat \<times> 'o) list" where
  "receiver_step handle (Accepts None) s = (s, [])"
| "receiver_step handle (Accepts (Some peer)) s =
     (s\<lparr>rv_open := rv_open s @ [(rv_next s, peer)], rv_next := Suc (rv_next s)\<rparr>, [])"
| "receiver_step handle (FrameArrives i frame) s =
     (if \<not> is_open i s then (s, [])
      else case frame of
             None \<Rightarrow> (end_runner i s, [])
           | Some bs \<Rightarrow>
               (case handle bs (rv_shared s) of ((out, r), w) \<Rightarrow>
                  (case r of Inl _ \<Rightarrow> end_runner i (s\<lparr>rv_shared := w\<rparr>) | Inr _ \<Rightarrow> s\<lparr>rv_shared := w\<rparr>, map (Pair i) out)))"
| "receiver_step handle (PeerCloses i) s = (end_runner i s, [])"

definition receiver_run ::
  "('w, 'o, 'e) handler \<Rightarrow> receiver_event list \<Rightarrow> 'w receiver \<Rightarrow> 'w receiver \<times> (nat \<times> 'o) list list" where
  "receiver_run handle = run_steps (receiver_step handle)"

section \<open>The handlers of a worker\<close>

definition tx_receiver_handler :: "(round \<times> bool, worker_delivery, unit) handler" where
  "tx_receiver_handler = unshared (\<lambda>bs. (dispatch_transaction bs, Ok ()))"

definition worker_receiver_handler :: "worker_codec \<Rightarrow> (round \<times> bool, worker_delivery, unit) handler" where
  "worker_receiver_handler codec = unshared (\<lambda>bs. (dispatch_batch codec bs, Ok ()))"

definition primary_receiver_handler :: "worker_codec \<Rightarrow> (round \<times> bool, worker_delivery, unit) handler" where
  "primary_receiver_handler codec bs w = ((dispatch_command codec bs w, Ok ()), watch_update codec bs w)"

section \<open>One connection\<close>

definition outputs_of :: "nat \<Rightarrow> (nat \<times> 'o) list list \<Rightarrow> 'o list" where
  "outputs_of i outs = map snd (filter (\<lambda>(j, _). j = i) (concat outs))"

text \<open>The frames that arrive on a connection until the peer closes it.\<close>

fun frames_of :: "nat \<Rightarrow> receiver_event list \<Rightarrow> bytes option list" where
  "frames_of i [] = []"
| "frames_of i (Accepts peer # events) = frames_of i events"
| "frames_of i (FrameArrives j frame # events) = (if j = i then frame # frames_of i events else frames_of i events)"
| "frames_of i (PeerCloses j # events) = (if j = i then [] else frames_of i events)"

text \<open>All messages that are handled, in order.\<close>

fun handled :: "('w, 'o, 'e) handler \<Rightarrow> receiver_event list \<Rightarrow> 'w receiver \<Rightarrow> bytes list" where
  "handled handle [] s = []"
| "handled handle (ev # events) s =
     (case ev of FrameArrives i (Some bs) \<Rightarrow> if is_open i s then [bs] else [] | _ \<Rightarrow> []) @
     handled handle events (fst (receiver_step handle ev s))"

text \<open>The outputs that satisfy \<open>P\<close>, and the result, do not depend on the shared state.\<close>

definition independent :: "('o \<Rightarrow> bool) \<Rightarrow> ('w, 'o, 'e) handler \<Rightarrow> bool" where
  "independent P handle \<longleftrightarrow> (\<forall>bs w w'.
     filter P (fst (fst (handle bs w))) = filter P (fst (fst (handle bs w'))) \<and> snd (fst (handle bs w)) = snd (fst (handle bs w')))"

lemma independentD:
  assumes "independent P handle" and "handle bs w = ((out, r), u)" and "handle bs w' = ((out', r'), u')"
  shows "filter P out = filter P out'" and "r = r'"
  using assms unfolding independent_def by (metis fst_conv snd_conv)+

lemma runner_independent:
  assumes "independent P handle"
  shows "filter P (fst (runner handle frames w)) = filter P (fst (runner handle frames w'))"
proof (induction frames arbitrary: w w')
  case (Cons frame frames)
  show ?case
  proof (cases frame)
    case (Some bs)
    obtain out r u out' r' u' where h: "handle bs w = ((out, r), u)" "handle bs w' = ((out', r'), u')"
      by (metis prod.exhaust)
    show ?thesis
      using independentD [OF assms h] Cons.IH [of u u'] h Some by (auto simp: case_prod_unfold split: sum.split)
  qed simp
qed simp

lemma outputs_of_simps [simp]:
  "outputs_of i [] = []" "outputs_of i ([] # outs) = outputs_of i outs" "outputs_of i (map (Pair i) out # outs) = out @ outputs_of i outs"
  "j \<noteq> i \<Longrightarrow> outputs_of i (map (Pair j) out # outs) = outputs_of i outs"
  by (auto simp: outputs_of_def filter_map comp_def filter_empty_conv)

lemma is_open_simps [simp]:
  "is_open i (end_runner j s) \<longleftrightarrow> is_open i s \<and> i \<noteq> j" "is_open i (s\<lparr>rv_shared := w\<rparr>) = is_open i s"
  by (auto simp: is_open_def end_runner_def)

lemma end_runner_simps [simp]:
  "rv_next (end_runner j s) = rv_next s" "rv_shared (end_runner j s) = rv_shared s"
  by (simp_all add: end_runner_def)

lemma closed_connection:
  assumes "\<not> is_open i s" and "i < rv_next s"
  shows "outputs_of i (snd (receiver_run handle events s)) = []"
  using assms unfolding receiver_run_def
proof (induction events arbitrary: s)
  case Nil
  then show ?case by simp
next
  case (Cons ev events)
  show ?case
  proof (cases "(handle, ev, s)" rule: receiver_step.cases)
    case (3 d j frame t)
    then show ?thesis
      using Cons by (cases "j = i") (auto simp del: run_steps.simps(2) split: option.split sum.split prod.split)
  next
    case (4 d j t)
    then show ?thesis using Cons by (simp del: run_steps.simps(2))
  qed (use Cons in \<open>auto simp: is_open_def simp del: run_steps.simps(2)\<close>)
qed

lemma open_connection:
  assumes "independent P handle" and "is_open i s" and "i < rv_next s"
  shows "filter P (outputs_of i (snd (receiver_run handle events s))) = filter P (fst (runner handle (frames_of i events) w))"
  using assms(2,3)
proof (induction events arbitrary: s w)
  case Nil
  then show ?case by (simp add: receiver_run_def)
next
  case (Cons ev events)
  have closed: "outputs_of i (snd (run_steps (receiver_step handle) events t)) = []" if "\<not> is_open i t" "i < rv_next t" for t
    using closed_connection [OF that] by (simp add: receiver_run_def)
  note go_on = Cons.IH [of _ w, unfolded receiver_run_def]
  show ?case
  proof (cases "(handle, ev, s)" rule: receiver_step.cases)
    case (3 d j frame t)
    obtain bs where "frame = None \<or> frame = Some bs" by (cases frame) auto
    obtain out r u where h: "handle bs (rv_shared s) = ((out, r), u)" by (metis prod.exhaust)
    obtain out' r' u' where h': "handle bs w = ((out', r'), u')" by (metis prod.exhaust)
    have "filter P (fst (runner handle (frames_of i events) u')) = filter P (fst (runner handle (frames_of i events) w))"
      by (rule runner_independent [OF assms(1)])
    then show ?thesis
      using 3 Cons.prems h h' independentD [OF assms(1) h h'] closed go_on \<open>frame = None \<or> frame = Some bs\<close>
      by (cases "j = i") (auto simp: receiver_run_def case_prod_unfold simp del: run_steps.simps(2) split: option.split sum.split prod.split)
  next
    case (4 d j t)
    then show ?thesis using Cons.prems closed go_on by (cases "j = i") (auto simp: receiver_run_def simp del: run_steps.simps(2))
  qed (use Cons.prems go_on in \<open>auto simp: receiver_run_def is_open_def simp del: run_steps.simps(2)\<close>)
qed

lemma accepted_so_far:
  "rv_next (fst (receiver_run handle events s)) = rv_next s + length (filter (\<lambda>ev. \<exists>peer. ev = Accepts (Some peer)) events)"
  unfolding receiver_run_def
proof (induction events arbitrary: s)
  case Nil
  then show ?case by simp
next
  case (Cons ev events)
  then show ?case
    by (cases "(handle, ev, s)" rule: receiver_step.cases)
      (auto simp del: run_steps.simps(2) split: option.split sum.split prod.split)
qed

text \<open>Nothing comes from a connection before it is accepted.\<close>

lemma not_yet_accepted:
  assumes "rv_next (fst (receiver_run handle events s)) \<le> i" and "\<forall>j \<in> fst ` set (rv_open s). j < rv_next s"
  shows "outputs_of i (snd (receiver_run handle events s)) = []"
  using assms
proof (induction events arbitrary: s)
  case Nil
  then show ?case by (simp add: receiver_run_def)
next
  case (Cons ev events)
  let ?t = "fst (receiver_step handle ev s)"
  have later: "rv_next (fst (receiver_run handle events ?t)) \<le> i"
    using Cons.prems(1) by (simp add: receiver_run_def del: run_steps.simps(2))
  have "rv_next s \<le> i" using Cons.prems(1) by (simp add: accepted_so_far)
  then have "outputs_of i [snd (receiver_step handle ev s)] = []"
    using Cons.prems(2) by (cases "(handle, ev, s)" rule: receiver_step.cases)
      (force simp: outputs_of_def is_open_def filter_empty_conv split: option.split sum.split prod.split)+
  moreover have "\<forall>j \<in> fst ` set (rv_open ?t). j < rv_next ?t"
    using Cons.prems(2) by (cases "(handle, ev, s)" rule: receiver_step.cases)
      (auto simp: end_runner_def less_Suc_eq split: option.split sum.split prod.split)
  ultimately show ?case
    using Cons.IH [OF later] by (simp add: receiver_run_def outputs_of_def del: run_steps.simps(2))
qed

text \<open>The shared state is that of all handled messages, one after the other.\<close>

lemma shared_state:
  "rv_shared (fst (receiver_run handle events s)) = fold (\<lambda>bs w. snd (handle bs w)) (handled handle events s) (rv_shared s)"
  unfolding receiver_run_def
proof (induction events arbitrary: s)
  case (Cons ev events)
  then show ?case
    by (cases "(handle, ev, s)" rule: receiver_step.cases)
      (auto simp del: run_steps.simps(2) split: option.split sum.split prod.split)
qed simp

lemma served_alone:
  assumes "independent P handle" and "receiver_spawn binds address w0 = Ok s"
    and "i = length (filter (\<lambda>ev. \<exists>peer. ev = Accepts (Some peer)) before)"
  shows "filter P (outputs_of i (snd (receiver_run handle (before @ Accepts (Some peer) # after) s))) =
    filter P (fst (runner handle (frames_of i after) w))"
proof -
  have s: "rv_next s = 0" "rv_open s = []" using assms(2) by (auto simp: receiver_spawn_def split: if_splits)
  let ?t = "fst (receiver_run handle before s)"
  have n: "rv_next ?t = i" using s assms(3) by (simp add: accepted_so_far)
  let ?u = "fst (receiver_step handle (Accepts (Some peer)) ?t)"
  have "outputs_of i (snd (receiver_run handle before s)) = []" using n s by (intro not_yet_accepted) simp_all
  moreover have "filter P (outputs_of i (snd (receiver_run handle after ?u))) = filter P (fst (runner handle (frames_of i after) w))"
    using n by (intro open_connection [OF assms(1)]) (simp_all add: is_open_def)
  ultimately show ?thesis
    by (simp add: receiver_run_def run_steps_append outputs_of_def case_prod_unfold Let_def)
qed

section \<open>Properties\<close>

definition pause_flag :: "worker_delivery \<Rightarrow> bool" where
  "pause_flag a \<longleftrightarrow> (\<exists>r silent. a = SetBatchSilent r silent)"

lemma pause_flag_simps [simp]:
  "pause_flag (SetBatchSilent r silent)" "\<not> pause_flag (WorkerAck bs)" "\<not> pause_flag (ToSynchronizer m)"
  by (simp_all add: pause_flag_def)

lemma handlers_independent:
  "independent (\<lambda>_. True) (unshared dispatch)" "independent (\<lambda>a. \<not> pause_flag a) (primary_receiver_handler codec)"
  by (auto simp: independent_def unshared_def primary_receiver_handler_def dispatch_command_def
      split: option.split primary_worker_message.split)

text \<open>
  C22: The connections of a receiver disturb each other only through the state that its handlers share. In any interleaving of
  accepted and failed connections, frames and disconnections, a handler without such a state (those of the primary, and
  for transactions and batches in a worker) does for a connection what it does for the frames of that connection alone, up to the
  first that it rejects or that fails, so a bad frame ends its own connection only. The handler of a worker for the commands of
  its primary does so except for the pause flag, which the connections share: the flag is the latest
  of those announced on any connection for the highest round.
\<close>

theorem receiver_isolates_connections:
  fixes s :: "(round \<times> bool) receiver"
  assumes "receiver_spawn binds address (0, False) = Ok s" and "events = before @ Accepts (Some peer) # after"
    and "i = length (filter (\<lambda>ev. \<exists>peer. ev = Accepts (Some peer)) before)"
  shows "outputs_of i (snd (receiver_run (unshared dispatch) events s)) = fst (runner (unshared dispatch) (frames_of i after) (0 :: round, False)) \<and>
    filter (\<lambda>a. \<not> pause_flag a) (outputs_of i (snd (receiver_run (primary_receiver_handler codec) events s))) =
      filter (\<lambda>a. \<not> pause_flag a) (fst (runner (primary_receiver_handler codec) (frames_of i after) (0, False))) \<and>
    rv_shared (fst (receiver_run (primary_receiver_handler codec) events s)) =
      latest ((0, False) # silence_announced codec (handled (primary_receiver_handler codec) events s))"
proof -
  have "rv_shared s = (0, False)" using assms(1) by (auto simp: receiver_spawn_def split: if_splits)
  then have "rv_shared (fst (receiver_run (primary_receiver_handler codec) events s)) =
      latest ((0, False) # silence_announced codec (handled (primary_receiver_handler codec) events s))"
    by (simp add: shared_state primary_receiver_handler_def watch_run)
  moreover have "outputs_of i (snd (receiver_run (unshared dispatch) events s)) = fst (runner (unshared dispatch) (frames_of i after) (0 :: round, False))"
    using served_alone [OF handlers_independent(1) assms(1,3), of dispatch peer after "(0, False)"] by (simp add: assms(2))
  ultimately show ?thesis
    using served_alone [OF handlers_independent(2) assms(1,3), of codec peer after "(0, False)"] by (simp only: assms(2) simp_thms)
qed

text \<open>A flag announced on one connection for round 5 hides one for round 3 that comes later on another.\<close>

lemma ex_command: "de_primary_command ex_codec bs = Some (BatchSilent (le_word bs) True)"
  by (simp add: ex_codec_def)

theorem receiver_isolates_connections_witness:
  "\<exists>s. receiver_spawn (\<lambda>_. True) (ex_addr 1) (0, False) = Ok (s :: (round \<times> bool) receiver) \<and>
     (let frames = [FrameArrives 0 (Some [5]), FrameArrives 1 (Some [3]), FrameArrives 1 None, FrameArrives 1 (Some [7])];
          events = [Accepts (Some (ex_addr 2))] @ Accepts (Some (ex_addr 3)) # frames
      in outputs_of 1 (snd (receiver_run (unshared (dispatch_primary ex_bincode)) events s)) = [Ack ack_bytes] \<and>
         filter (\<lambda>a. \<not> pause_flag a) (outputs_of 1 (snd (receiver_run (primary_receiver_handler ex_codec) events s))) =
           [WorkerAck ack_bytes] \<and>
         rv_shared (fst (receiver_run (primary_receiver_handler ex_codec) events s)) = (5, True))"
proof -
  let ?frames = "[FrameArrives 0 (Some [5]), FrameArrives 1 (Some [3]), FrameArrives 1 None, FrameArrives 1 (Some [7])]"
  let ?s = "\<lparr>rv_address = ex_addr 1, rv_next = 0, rv_open = [], rv_shared = (0, False)\<rparr> :: (round \<times> bool) receiver"
  have s: "receiver_spawn (\<lambda>_. True) (ex_addr 1) (0, False) = Ok ?s" by (simp add: receiver_spawn_def)
  note all = receiver_isolates_connections [OF s refl, of 1 "[Accepts (Some (ex_addr 2))]"]
  have "de_primary_message ex_bincode [3] = None" by (simp add: ex_bincode_def)
  moreover have "latest [(0 :: round, False), (5, True), (3, True)] = (5, True)" by (simp add: latest_def)
  ultimately show ?thesis
    using all [of "dispatch_primary ex_bincode" "ex_addr 3" ?frames ex_codec]
    by (intro exI [of _ ?s] conjI [OF s])
      (simp add: Let_def unshared_def dispatch_primary_def primary_receiver_handler_def dispatch_command_def
        ex_command is_open_def watch_update_def silence_announced_def List.map_filter_simps end_runner_def cong: if_cong)
qed

end
