(* ===== verification/CoreNetwork.thy ===== *)
theory CoreNetwork
  imports CoreVotes Network
begin

text \<open>
  The core task and its reliable sender. The core task numbers the handlers that the sender returns and keeps each of them under
  the round of its message, until the round is garbage collected: dropping a handler cancels the message
  (\<open>connection_step\<close>). Headers and certificates go to all other primaries, votes to the author of the header.
\<close>

section \<open>Handing transmissions to the sender\<close>

text \<open>Handing the transmissions of the core task to the sender, with the handlers it returns.\<close>

fun transmit_all :: "core_action list \<Rightarrow> reliable_sender \<Rightarrow> nat list \<times> reliable_sender" where
  "transmit_all [] t = ([], t)"
| "transmit_all (Transmit h a bs # out) t =
     (case reliable_send a bs t of (h', t1) \<Rightarrow> (case transmit_all out t1 of (hs, t2) \<Rightarrow> (h' # hs, t2)))"
| "transmit_all (_ # out) t = transmit_all out t"

definition transmit_handlers :: "core_action list \<Rightarrow> nat list" where
  "transmit_handlers out = concat (map (\<lambda>a. case a of Transmit h _ _ \<Rightarrow> [h] | _ \<Rightarrow> []) out)"

lemma transmit_handlers_simps [simp]:
  "transmit_handlers [] = []"
  "transmit_handlers (a # out) = (case a of Transmit h _ _ \<Rightarrow> h # transmit_handlers out | _ \<Rightarrow> transmit_handlers out)"
  "transmit_handlers (out1 @ out2) = transmit_handlers out1 @ transmit_handlers out2"
  by (auto simp: transmit_handlers_def split: core_action.split)

lemma transmit_all_handlers:
  "fst (transmit_all out t) = [rs_next_handler t..<rs_next_handler t + length (transmit_handlers out)] \<and>
   rs_next_handler (snd (transmit_all out t)) = rs_next_handler t + length (transmit_handlers out)"
proof (induction out t rule: transmit_all.induct)
  case (2 h a bs out t)
  obtain h' t1 where send: "reliable_send a bs t = (h', t1)" by (cases "reliable_send a bs t")
  then have "h' = rs_next_handler t" "rs_next_handler t1 = Suc h'" by (auto simp: reliable_send_def Let_def)
  with 2 [OF send [symmetric]] send show ?case
    by (auto simp: upt_rec [of "rs_next_handler t"] simp del: upt_Suc split: prod.splits)
qed simp_all

text \<open>The messages that wait in the channel of a connection, and those that the core task sends to an address.\<close>

definition waiting_in :: "reliable_sender \<Rightarrow> socket_addr \<Rightarrow> inner_message list" where
  "waiting_in t a = (case rs_connections t a of None \<Rightarrow> [] | Some ms \<Rightarrow> ms)"

definition queued_for :: "socket_addr \<Rightarrow> core_action list \<Rightarrow> inner_message list" where
  "queued_for a out =
     concat (map (\<lambda>e. case e of Transmit h a' bs \<Rightarrow> if a' = a then [\<lparr>im_data = bs, im_handler = h\<rparr>] else [] | _ \<Rightarrow> []) out)"

lemma queued_for_simps [simp]:
  "queued_for a [] = []"
  "queued_for a (e # out) =
     (case e of Transmit h a' bs \<Rightarrow> if a' = a then [\<lparr>im_data = bs, im_handler = h\<rparr>] else [] | _ \<Rightarrow> []) @ queued_for a out"
  by (simp_all add: queued_for_def)

lemma transmit_all_queues:
  assumes "transmit_handlers out = [rs_next_handler t..<n]"
  shows "waiting_in (snd (transmit_all out t)) a = waiting_in t a @ queued_for a out"
  using assms
proof (induction out t rule: transmit_all.induct)
  case (2 h a' bs out t)
  obtain h' t1 where send: "reliable_send a' bs t = (h', t1)" by (cases "reliable_send a' bs t")
  then have t1: "h' = rs_next_handler t" "rs_next_handler t1 = Suc h'"
    "waiting_in t1 a = waiting_in t a @ (if a' = a then [\<lparr>im_data = bs, im_handler = h'\<rparr>] else [])"
    by (auto simp: reliable_send_def Let_def waiting_in_def split: option.split)
  have "[rs_next_handler t..<n] = h # transmit_handlers out" using 2 by simp
  then have "h = rs_next_handler t" "transmit_handlers out = [rs_next_handler t1..<n]"
    using t1(1,2) by (auto simp: upt_eq_Cons_conv)
  moreover obtain hs t2 where "transmit_all out t1 = (hs, t2)" by fastforce
  ultimately show ?case using 2 send t1 by auto
qed simp_all

text \<open>The core task numbers its handlers as the sender does.\<close>

definition numbered :: "'db core \<Rightarrow> 'db core \<Rightarrow> core_action list \<Rightarrow> bool" where
  "numbered s s' out \<longleftrightarrow>
     k_next_handler s \<le> k_next_handler s' \<and> transmit_handlers out = [k_next_handler s..<k_next_handler s']"

interpretation numbered: transition numbered
proof
  fix s t u :: "'db core" and out1 out2
  assume "numbered s t out1" "numbered t u out2"
  then show "numbered s u (out1 @ out2)"
    unfolding numbered_def by (metis le_trans transmit_handlers_simps(3) upt_add_eq_append le_Suc_ex)
qed (simp add: numbered_def)

lemma numbered_quiet: "k_next_handler s' = k_next_handler s \<Longrightarrow> transmit_handlers out = [] \<Longrightarrow> numbered s s' out"
  by (simp add: numbered_def)

lemma transmit_handlers_none:
  "transmit_handlers (map SyncHeader ms) = []" "transmit_handlers (map SyncCertificate xs) = []"
  by (simp_all add: transmit_handlers_def comp_def)

lemma transmit_handlers_zip: "length hs = length as \<Longrightarrow> transmit_handlers (map (\<lambda>(h, a). Transmit h a bs) (zip hs as)) = hs"
  by (induction hs as rule: list_induct2) auto

interpretation numbered_core: core_relation numbered nd for nd :: "'db node"
proof unfold_locales
  show "numbered.moves (net_broadcast addrs bs :: ('db, nat list) core_op)" for addrs bs
    by (auto simp: numbered.moves_def net_broadcast_def Let_def numbered_def transmit_handlers_zip)
  have mark: "numbered.moves (mark_voted h :: ('db, bool) core_op)" for h
    by (auto simp: numbered.moves_def mark_voted_def Let_def intro!: numbered_quiet)
  have emit: "numbered.moves (op_emit (VoteCreated v) :: ('db, unit) core_op)"
    "numbered.moves (op_emit (ToProposer ps r) :: ('db, unit) core_op)"
    "numbered.moves (op_emit (ToConsensus x) :: ('db, unit) core_op)" for v ps r x
    by (auto intro!: numbered.moves_emit numbered_quiet)
  show "numbered.moves (cast_block nd h next)" if "\<And>v. numbered.moves (next v)"
    for h and "next" :: "vote \<Rightarrow> ('db, unit) core_op"
    unfolding cast_block_def by (intro numbered.moves_intros mark emit that)
  have "numbered.moves (sync_deliver nd x)" "numbered.moves (append_certificate nd x)" "numbered.moves (write_store nd k bs)"
    for x k bs
    by (auto simp: numbered.moves_def core_effects op_then_def op_bind_def transmit_handlers_none
        intro!: numbered_quiet split: prod.splits)
  then show "numbered.moves (deliver_block nd x)" for x
    unfolding deliver_block_def by (intro numbered.moves_intros emit)
qed (auto simp: numbered.moves_def core_effects op_then_def op_bind_def transmit_handlers_none Let_def
    intro!: numbered_quiet split: prod.splits)

lemma core_step_numbered: "numbered.moves (core_step nd ev loaded)"
  by (rule core_step_moves)
    (auto intro!: numbered.transition_axioms numbered_core.moves_handle numbered.moves_modify numbered_quiet
      simp: core_cleanup_def Let_def)

section \<open>What is sent to whom, and which handlers are kept\<close>

fun message_round :: "primary_message \<Rightarrow> round" where
  "message_round (HeaderMsg h) = h_round h"
| "message_round (VoteMsg v) = v_round v"
| "message_round (CertificateMsg x) = cert_round x"
| "message_round (CertificatesRequest _ _) = 0"

fun recipients :: "'db node \<Rightarrow> primary_message \<Rightarrow> socket_addr list" where
  "recipients nd (VoteMsg v) =
     (case map_of (authorities (nd_committee nd)) (v_origin v) of
        None \<Rightarrow> [] | Some a \<Rightarrow> [primary_to_primary (primary_addrs a)])"
| "recipients nd (CertificatesRequest _ _) = []"
| "recipients nd _ = map (\<lambda>(_, x). primary_to_primary x) (others_primaries (nd_committee nd) (nd_name nd))"

definition kept_handlers :: "'db core \<Rightarrow> round \<Rightarrow> nat list" where
  "kept_handlers s r = (case k_cancel_handlers s r of None \<Rightarrow> [] | Some hs \<Rightarrow> hs)"

text \<open>A message goes out when each of its recipients is sent its bytes.\<close>

definition goes_out :: "'db node \<Rightarrow> core_action list \<Rightarrow> primary_message \<Rightarrow> bool" where
  "goes_out nd out m \<longleftrightarrow> (\<forall>a \<in> set (recipients nd m). \<exists>h. Transmit h a (ser_primary_message (nd_codec nd) m) \<in> set out)"

definition sends_kept :: "round \<Rightarrow> 'db node \<Rightarrow> 'db core \<Rightarrow> 'db core \<Rightarrow> core_action list \<Rightarrow> bool" where
  "sends_kept b nd s s' out \<longleftrightarrow>
     (\<forall>r. b \<le> r \<longrightarrow> set (kept_handlers s r) \<subseteq> set (kept_handlers s' r)) \<and>
     (\<forall>h a bs. Transmit h a bs \<in> set out \<longrightarrow>
        (\<exists>m. bs = ser_primary_message (nd_codec nd) m \<and> a \<in> set (recipients nd m) \<and> goes_out nd out m \<and>
           (b \<le> message_round m \<longrightarrow> h \<in> set (kept_handlers s' (message_round m))))) \<and>
     (\<forall>v. VoteCreated v \<in> set out \<longrightarrow> v_origin v \<noteq> nd_name nd \<longrightarrow> goes_out nd out (VoteMsg v))"

lemma goes_out_mono: "goes_out nd out m \<Longrightarrow> set out \<subseteq> set out' \<Longrightarrow> goes_out nd out' m"
  unfolding goes_out_def by blast

interpretation sends: transition "sends_kept b nd" for b and nd :: "'db node"
proof
  fix s t u :: "'db core" and out1 out2
  assume 1: "sends_kept b nd s t out1" and 2: "sends_kept b nd t u out2"
  have kept: "\<forall>r. b \<le> r \<longrightarrow> set (kept_handlers s r) \<subseteq> set (kept_handlers u r)"
    using 1 2 unfolding sends_kept_def by blast
  have sub: "set out1 \<subseteq> set (out1 @ out2)" "set out2 \<subseteq> set (out1 @ out2)" by simp_all
  have "\<exists>m. bs = ser_primary_message (nd_codec nd) m \<and> a \<in> set (recipients nd m) \<and> goes_out nd (out1 @ out2) m \<and>
      (b \<le> message_round m \<longrightarrow> h \<in> set (kept_handlers u (message_round m)))"
    if "Transmit h a bs \<in> set (out1 @ out2)" for h a bs
  proof (cases "Transmit h a bs \<in> set out1")
    case True
    then obtain m where "bs = ser_primary_message (nd_codec nd) m" "a \<in> set (recipients nd m)" "goes_out nd out1 m"
      "b \<le> message_round m \<longrightarrow> h \<in> set (kept_handlers t (message_round m))"
      using 1 unfolding sends_kept_def by blast
    moreover have "b \<le> r \<Longrightarrow> set (kept_handlers t r) \<subseteq> set (kept_handlers u r)" for r using 2 unfolding sends_kept_def by blast
    ultimately show ?thesis using goes_out_mono [OF _ sub(1)] by blast
  next
    case False
    then have "Transmit h a bs \<in> set out2" using that by simp
    then show ?thesis using 2 goes_out_mono [OF _ sub(2)] unfolding sends_kept_def by blast
  qed
  moreover have "goes_out nd (out1 @ out2) (VoteMsg v)" if "VoteCreated v \<in> set (out1 @ out2)" "v_origin v \<noteq> nd_name nd" for v
  proof (cases "VoteCreated v \<in> set out1")
    case True
    then show ?thesis using 1 that goes_out_mono [OF _ sub(1)] unfolding sends_kept_def by blast
  next
    case False
    then have "VoteCreated v \<in> set out2" using that(1) by simp
    then have "goes_out nd out2 (VoteMsg v)" using 2 that(2) unfolding sends_kept_def by blast
    then show ?thesis by (rule goes_out_mono [OF _ sub(2)])
  qed
  ultimately show "sends_kept b nd s u (out1 @ out2)" using kept unfolding sends_kept_def by blast
qed (simp add: sends_kept_def)

lemma sends_quiet:
  assumes "\<And>r. b \<le> r \<Longrightarrow> kept_handlers s' r = kept_handlers s r" and "\<And>h a bs. Transmit h a bs \<notin> set out"
    and "\<And>v. VoteCreated v \<in> set out \<Longrightarrow> v_origin v = nd_name nd"
  shows "sends_kept b nd s s' out"
  using assms by (auto simp: sends_kept_def)

lemma sends_lift_bind:
  "(\<And>x. r = Ok x \<Longrightarrow> sends.moves b nd (k x)) \<Longrightarrow> sends.moves b nd (op_bind (op_lift r) k)"
  by (cases r) (auto simp: sends.moves_def op_bind_def sends.rel_refl split: prod.splits)

text \<open>Sending a message to its recipients and keeping the handlers under its round.\<close>

definition send_out :: "'db node \<Rightarrow> primary_message \<Rightarrow> ('db, unit) core_op" where
  "send_out nd m =
     op_bind (net_broadcast (recipients nd m) (ser_primary_message (nd_codec nd) m)) (\<lambda>hs. keep_handlers (message_round m) hs)"

lemma send_out_run:
  "\<exists>s' out. send_out nd m s = (Ok (), s', out) \<and> goes_out nd out m \<and>
    (\<forall>e \<in> set out. \<exists>h a. e = Transmit h a (ser_primary_message (nd_codec nd) m) \<and> a \<in> set (recipients nd m) \<and>
       h \<in> set (kept_handlers s' (message_round m))) \<and>
    (\<forall>r. set (kept_handlers s r) \<subseteq> set (kept_handlers s' r))"
proof -
  let ?addrs = "recipients nd m" and ?bs = "ser_primary_message (nd_codec nd) m" and ?n = "k_next_handler s"
  let ?hs = "[?n..<?n + length ?addrs]" and ?r = "message_round m"
  let ?s = "s\<lparr>k_next_handler := ?n + length ?addrs,
      k_cancel_handlers := (k_cancel_handlers s)(?r \<mapsto> or_default [] (k_cancel_handlers s ?r) @ ?hs)\<rparr>"
  let ?out = "map (\<lambda>(h, a). Transmit h a ?bs) (zip ?hs ?addrs)"
  have "send_out nd m s = (Ok (), ?s, ?out)"
    by (simp add: send_out_def op_bind_def net_broadcast_def keep_handlers_def Let_def)
  moreover have "goes_out nd ?out m"
    unfolding goes_out_def
  proof
    fix a
    assume "a \<in> set ?addrs"
    then obtain i where "i < length ?addrs" "?addrs ! i = a" by (auto simp: in_set_conv_nth)
    then have "(?n + i, a) \<in> set (zip ?hs ?addrs)" by (auto simp: set_zip intro!: exI [of _ i])
    then show "\<exists>h. Transmit h a ?bs \<in> set ?out" by force
  qed
  moreover have "\<forall>e \<in> set ?out. \<exists>h a. e = Transmit h a ?bs \<and> a \<in> set ?addrs \<and> h \<in> set (kept_handlers ?s ?r)"
  proof -
    have "h \<in> set ?hs \<and> a \<in> set ?addrs" if "(h, a) \<in> set (zip ?hs ?addrs)" for h a
      using set_zip_leftD [OF that] set_zip_rightD [OF that] by blast
    then show ?thesis by (force simp: kept_handlers_def)
  qed
  moreover have "\<forall>r. set (kept_handlers s r) \<subseteq> set (kept_handlers ?s r)"
    by (auto simp: kept_handlers_def or_default_def split: option.split)
  ultimately show ?thesis by blast
qed

lemma sends_out: "sends.moves b nd (send_out nd m)"
proof (rule sends.movesI)
  fix s r s' out
  assume "send_out nd m s = (r, s', out)"
  then have run: "goes_out nd out m" "\<And>r. set (kept_handlers s r) \<subseteq> set (kept_handlers s' r)"
    "\<And>e. e \<in> set out \<Longrightarrow> \<exists>h a. e = Transmit h a (ser_primary_message (nd_codec nd) m) \<and> a \<in> set (recipients nd m) \<and>
       h \<in> set (kept_handlers s' (message_round m))"
    using send_out_run [of nd m s] by auto
  have "\<exists>m. bs = ser_primary_message (nd_codec nd) m \<and> a \<in> set (recipients nd m) \<and> goes_out nd out m \<and>
      (b \<le> message_round m \<longrightarrow> h \<in> set (kept_handlers s' (message_round m)))" if "Transmit h a bs \<in> set out" for h a bs
    using run(3) [OF that] run(1) by auto
  moreover have "VoteCreated v \<notin> set out" for v using run(3) [of "VoteCreated v"] by auto
  ultimately show "sends_kept b nd s s' out" using run(2) unfolding sends_kept_def by blast
qed

text \<open>The places of the code that send.\<close>

lemma code_sends:
  "op_bind (net_broadcast (others_addresses nd) (ser_primary_message (nd_codec nd) (HeaderMsg h))) (\<lambda>hs. keep_handlers (h_round h) hs) =
   send_out nd (HeaderMsg h)"
  "op_bind (net_broadcast (others_addresses nd) (ser_primary_message (nd_codec nd) (CertificateMsg x)))
     (\<lambda>hs. keep_handlers (cert_round x) hs) = send_out nd (CertificateMsg x)"
  "map_of (authorities (nd_committee nd)) (h_author h) \<noteq> None \<Longrightarrow> v_origin v = h_author h \<Longrightarrow> v_round v = h_round h \<Longrightarrow>
   send_vote nd h v = send_out nd (VoteMsg v)"
  by (auto simp: send_out_def others_addresses_def send_vote_def primary_of_def)

section \<open>The core task sends and keeps\<close>

lemma sends_cast:
  assumes "\<And>v. v_origin v = nd_name nd \<Longrightarrow> sends.moves b nd (next v)"
    and "\<And>v. v_origin v \<noteq> nd_name nd \<Longrightarrow> next v = send_vote nd h v"
  shows "sends.moves b nd (cast_block nd h next)"
  unfolding cast_block_def
proof (intro sends_lift_bind sends.moves_bind sends.moves_if sends.moves_return)
  show "sends.moves b nd (mark_voted h :: ('a, bool) core_op)"
    by (auto simp: sends.moves_def mark_voted_def Let_def kept_handlers_def intro!: sends_quiet)
next
  fix v
  assume "map_err InvalidSignature (vote_new (nd_crypto nd) (nd_secret nd) h (nd_name nd)) = Ok v"
  then have v: "v_origin v = h_author h" "v_round v = h_round h" by (auto simp: vote_new_def Let_def and_then_Ok_iff)
  show "sends.moves b nd (op_then (op_emit (VoteCreated v)) (next v))"
  proof (cases "v_origin v = nd_name nd")
    case True
    then show ?thesis by (intro sends.moves_then sends.moves_emit assms(1) sends_quiet) auto
  next
    case False
    show ?thesis
    proof (rule sends.movesI)
      fix s r s' out
      assume run: "op_then (op_emit (VoteCreated v)) (next v) s = (r, s', out)"
      show "sends_kept b nd s s' out"
      proof (cases "map_of (authorities (nd_committee nd)) (h_author h)")
        case None
        then have "s' = s" "out = [VoteCreated v]" "goes_out nd [VoteCreated v] (VoteMsg v)"
          using run assms(2) [OF False] v by (auto simp: op_then_def op_bind_def send_vote_def primary_of_def goes_out_def)
        then show ?thesis by (auto simp: sends_kept_def)
      next
        case (Some a)
        then have "send_vote nd h v = send_out nd (VoteMsg v)" using v by (intro code_sends(3)) auto
        then obtain out2 where sent: "send_out nd (VoteMsg v) s = (r, s', out2)" "out = VoteCreated v # out2"
          using run assms(2) [OF False] by (auto simp: op_then_def op_bind_def split: prod.splits)
        have sub: "set out2 \<subseteq> set out" by (auto simp: sent(2))
        have gone: "goes_out nd out2 (VoteMsg v)" "\<And>w. VoteCreated w \<notin> set out2"
          using send_out_run [of nd "VoteMsg v" s] sent(1) by auto
        have kept: "sends_kept b nd s s' out2" by (rule sends.movesD [OF sends_out sent(1)])
        have "\<exists>m. bs = ser_primary_message (nd_codec nd) m \<and> a \<in> set (recipients nd m) \<and> goes_out nd out m \<and>
            (b \<le> message_round m \<longrightarrow> i \<in> set (kept_handlers s' (message_round m)))"
          if "Transmit i a bs \<in> set out" for i a bs
        proof -
          have "Transmit i a bs \<in> set out2" using that by (simp add: sent(2))
          then obtain m where "bs = ser_primary_message (nd_codec nd) m" "a \<in> set (recipients nd m)" "goes_out nd out2 m"
            "b \<le> message_round m \<longrightarrow> i \<in> set (kept_handlers s' (message_round m))"
            using kept unfolding sends_kept_def by blast
          then show ?thesis using goes_out_mono [OF _ sub] by blast
        qed
        moreover have "goes_out nd out (VoteMsg w)" if "VoteCreated w \<in> set out" for w
        proof -
          have "w = v" using gone(2) that by (simp add: sent(2))
          then show ?thesis using goes_out_mono [OF gone(1) sub] by simp
        qed
        ultimately show ?thesis using kept unfolding sends_kept_def by blast
      qed
    qed
  qed
qed

lemma sends_primitives:
  "sends.moves b nd (mark_processing h :: ('db, unit) core_op)"
  "sends.moves b nd (sync_get_parents nd h)" "sends.moves b nd (sync_missing_payload nd h)"
  "sends.moves b nd (write_store nd k bs)" "sends.moves b nd (append_vote nd v)" "sends.moves b nd (sync_deliver nd x)"
  "sends.moves b nd (append_certificate nd x)"
  "sends.moves b nd (op_emit (ToProposer ps r) :: ('db, unit) core_op)"
  "sends.moves b nd (op_emit (ToConsensus x) :: ('db, unit) core_op)"
  by (auto simp: sends.moves_def core_effects op_then_def op_bind_def kept_handlers_def Let_def intro!: sends_quiet split: prod.splits)

lemma sends_deliver: "sends.moves b nd (deliver_block nd x)"
  unfolding deliver_block_def by (intro sends.moves_intros sends_primitives)

lemma sends_with_fuel:
  "sends.moves b nd (header_with_fuel (op_lift Panicked) n nd h) \<and> sends.moves b nd (vote_with_fuel (op_lift Panicked) n nd v) \<and>
   sends.moves b nd (certificate_with_fuel (op_lift Panicked) n nd x)"
proof (induction n arbitrary: h v x)
  case 0
  show ?case
    unfolding header_with_fuel.simps vote_with_fuel.simps certificate_with_fuel.simps by (intro conjI sends.moves_lift)
next
  case (Suc n)
  have own: "sends.moves b nd (if v_origin v = nd_name nd then op_expect (vote_with_fuel (op_lift Panicked) n nd v) else send_vote nd h v)"
    if "v_origin v = nd_name nd" for v
    unfolding if_P [OF that] by (intro sends.moves_expect) (use Suc in blast)
  have "sends.moves b nd (header_with_fuel (op_lift Panicked) (Suc n) nd h)"
    unfolding header_with_fuel_blocks header_block_def
    by (intro sends.moves_intros sends_primitives sends_cast own) simp_all
  moreover have "sends.moves b nd (vote_with_fuel (op_lift Panicked) (Suc n) nd v)"
    unfolding vote_with_fuel.simps code_sends(2)
    by (intro sends.moves_intros sends_primitives sends_out) (use Suc in blast)
  moreover have "sends.moves b nd (certificate_with_fuel (op_lift Panicked) (Suc n) nd x)"
    unfolding certificate_with_fuel_blocks by (intro sends.moves_intros sends_deliver) (use Suc in blast)
  ultimately show ?case by blast
qed

lemma sends_process:
  "sends.moves b nd (process_header nd h)" "sends.moves b nd (process_vote nd v)" "sends.moves b nd (process_certificate nd x)"
  unfolding process_header_def process_vote_def process_certificate_def using sends_with_fuel by blast+

lemma sends_own_header: "sends.moves b nd (process_own_header nd h)"
proof -
  have "sends.moves b nd (op_modify (\<lambda>s. s\<lparr>k_current_header := h, k_votes_aggregator := votes_aggregator_new\<rparr>) :: ('a, unit) core_op)"
    by (intro sends.moves_modify sends_quiet) (simp_all add: kept_handlers_def)
  then show ?thesis
    unfolding process_own_header_def code_sends(1) by (intro sends.moves_then sends_out sends_process)
qed

lemma core_step_sends:
  assumes "nd_gc_depth nd < loaded \<Longrightarrow> loaded - nd_gc_depth nd \<le> b"
  shows "sends.moves b nd (core_step nd ev loaded)"
proof (rule core_step_moves [OF sends.transition_axioms])
  have check: "sends.moves b nd (op_check f :: ('a, unit) core_op)" for f
    by (simp add: sends.moves_def op_check_def sends.rel_refl)
  show "sends.moves b nd (core_handle nd ev)"
    by (cases "(nd, ev)" rule: core_handle.cases)
      (simp_all del: op_simps add: sends.moves_lift sends.moves_then check sends_process sends_own_header)
  show "sends_kept b nd s (core_cleanup nd loaded s) []" for s
    using assms by (auto intro!: sends_quiet simp: core_cleanup_def kept_handlers_def Let_def retain_from_def)
qed

text \<open>Every header of the proposer that the task has handled was sent.\<close>

lemma own_header_sent: "goes_out nd (snd (snd (core_step nd (FromProposer h) loaded s))) (HeaderMsg h)"
proof -
  let ?s = "s\<lparr>k_current_header := h, k_votes_aggregator := votes_aggregator_new\<rparr>"
  obtain t out1 where 1: "send_out nd (HeaderMsg h) ?s = (Ok (), t, out1)" "goes_out nd out1 (HeaderMsg h)"
    using send_out_run [of nd "HeaderMsg h" ?s] by blast
  obtain r2 s2 out2 where 2: "process_header nd h t = (r2, s2, out2)" by (cases "process_header nd h t")
  have "core_handle nd (FromProposer h) s = (r2, s2, out1 @ out2)"
    using 1(1) 2 by (simp add: process_own_header_def code_sends(1) op_then_def op_bind_def)
  then have "snd (snd (core_step nd (FromProposer h) loaded s)) = out1 @ out2"
    by (auto simp: core_step_def split: sum.splits fault.splits dag_error.splits)
  then show ?thesis using goes_out_mono [OF 1(2)] by simp
qed

lemma own_headers_sent:
  assumes "core_run nd events s = (Ok (), s', out)" and "(FromProposer h, loaded) \<in> set events"
  shows "goes_out nd out (HeaderMsg h)"
  using assms unfolding core_run_def
proof (induction events arbitrary: s out)
  case (Cons e events)
  obtain s1 out1 out2 where step: "(\<lambda>(ev, loaded). core_step nd ev loaded) e s = (Ok (), s1, out1)"
    "op_for events (\<lambda>(ev, loaded). core_step nd ev loaded) s1 = (Ok (), s', out2)" "out = out1 @ out2"
    using Cons.prems(1) by (auto simp: op_then_def op_bind_def split: prod.splits sum.splits)
  show ?case
  proof (cases "e = (FromProposer h, loaded)")
    case True
    then have "goes_out nd out1 (HeaderMsg h)" using own_header_sent [of nd h loaded s] step(1) by simp
    then show ?thesis using goes_out_mono step(3) by (metis Un_upper1 set_append)
  next
    case False
    then have "goes_out nd out2 (HeaderMsg h)" using Cons.IH [OF step(2)] Cons.prems(2) by simp
    then show ?thesis using goes_out_mono step(3) by (metis Un_upper2 set_append)
  qed
qed simp

section \<open>Properties\<close>

text \<open>
  C21: The core task drives the reliable sender. When the transmissions of a run of the core task are given to a sender with an equal
  handler counter, the channel of each address gets exactly the messages sent to it, in order, with the handlers of the core task.
  Every transmission is for a recipient of a header, vote or certificate, all other recipients of it are sent the
  same bytes, and the core task keeps its handler under the round of the message as long as that round is not garbage
  collected, so that nothing else cancels it. The vote for a header of another authority is sent to that authority, and each
  header of the proposer to all other primaries.
\<close>

theorem core_run_drives_sender:
  assumes "core_run nd events s = (r, s', out)" and "rs_next_handler t = k_next_handler s"
    and "\<forall>(ev, loaded) \<in> set events. nd_gc_depth nd < loaded \<longrightarrow> loaded - nd_gc_depth nd \<le> b"
  shows "waiting_in (snd (transmit_all out t)) a = waiting_in t a @ queued_for a out \<and>
    fst (transmit_all out t) = transmit_handlers out \<and> distinct (transmit_handlers out) \<and>
    (\<forall>h a bs. Transmit h a bs \<in> set out \<longrightarrow>
       (\<exists>m. bs = ser_primary_message (nd_codec nd) m \<and> a \<in> set (recipients nd m) \<and> goes_out nd out m \<and>
          (b \<le> message_round m \<longrightarrow> h \<in> set (kept_handlers s' (message_round m))))) \<and>
    (\<forall>v. VoteCreated v \<in> set out \<longrightarrow> v_origin v \<noteq> nd_name nd \<longrightarrow> goes_out nd out (VoteMsg v)) \<and>
    (\<forall>h loaded. r = Ok () \<longrightarrow> (FromProposer h, loaded) \<in> set events \<longrightarrow> goes_out nd out (HeaderMsg h))"
proof -
  have "numbered s s' out"
    by (rule core_run_rel [OF numbered.transition_axioms core_step_numbered assms(1)])
  then have n: "transmit_handlers out = [rs_next_handler t..<k_next_handler s']" "k_next_handler s \<le> k_next_handler s'"
    using assms(2) by (simp_all add: numbered_def)
  have "sends_kept b nd s s' out"
    by (rule core_run_rel [OF sends.transition_axioms core_step_sends assms(1)]) (use assms(3) in auto)
  then show ?thesis
    using transmit_all_queues [OF n(1)] transmit_all_handlers [of out t] n own_headers_sent [of nd events s s' out] assms(1,2)
    unfolding sends_kept_def by auto
qed

theorem core_run_drives_sender_witness:
  "\<exists>s' out. core_run ex_node [(HeaderLoopback (ex_block 2), 0)] (core_new []) = (Ok (), s', out) \<and>
    waiting_in (snd (transmit_all out reliable_sender_new)) (ex_addr 2000) = [\<lparr>im_data = [2], im_handler = 0\<rparr>] \<and>
    goes_out ex_node out (VoteMsg (ex_ballot 2 1))"
proof -
  let ?out = "[StoreWrite (digest_to_vec (Digest 259)) [0], VoteCreated (ex_ballot 2 1), Transmit 0 (ex_addr 2000) [2]]"
  have "\<exists>s'. core_run ex_node [(HeaderLoopback (ex_block 2), 0)] (core_new []) = (Ok (), s', ?out)"
    by (simp add: core_eval ex_bincode_def del: header_with_fuel.simps cong: op_congs)
  then obtain s' where run: "core_run ex_node [(HeaderLoopback (ex_block 2), 0)] (core_new []) = (Ok (), s', ?out)" ..
  have "rs_next_handler reliable_sender_new = k_next_handler (core_new [])"
    by (simp add: reliable_sender_new_def core_new_def)
  from core_run_drives_sender [OF run this, of 0 "ex_addr 2000"]
  have "waiting_in (snd (transmit_all ?out reliable_sender_new)) (ex_addr 2000) = [\<lparr>im_data = [2], im_handler = 0\<rparr>]"
    "goes_out ex_node ?out (VoteMsg (ex_ballot 2 1))"
    by (simp_all add: waiting_in_def reliable_sender_new_def)
  with run show ?thesis by blast
qed

end
