(* ===== verification/SignatureService.thy ===== *)
theory SignatureService
  imports Crypto
begin

text \<open>
  The task behind \<open>SignatureService\<close> (\<open>crypto/src/lib.rs\<close>): it holds the secret key and signs the digests that come over its
  channel. The other theories ask for a signature with one call, \<open>request_signature\<close>; here the requests of any number of tasks
  interleave with the service, and each caller gets what that call returns.
\<close>

section \<open>The service and its callers\<close>

text \<open>A request carries the reply channel of its caller, a number. The channel is closed when the task has panicked.\<close>

record signature_service =
  ss_secret :: secret_key
  ss_channel :: "(digest \<times> nat) list"
  ss_closed :: bool

datatype signature_event =
  RequestSignature digest nat
| SignNext

definition signature_service_new :: "secret_key \<Rightarrow> signature_service" where
  "signature_service_new secret = \<lparr>ss_secret = secret, ss_channel = [], ss_closed = False\<rparr>"

text \<open>
  The outputs are the results of \<open>request_signature\<close>, with the number of the caller: a send into the closed channel panics, and so
  does the wait on a reply channel that the service drops with its state.
\<close>

fun signature_service_step ::
  "dalek \<Rightarrow> signature_event \<Rightarrow> signature_service \<Rightarrow> signature_service \<times> (nat \<times> (crypto_error, signature) result) list" where
  "signature_service_step dk (RequestSignature d w) s =
     (if ss_closed s then (s, [(w, Panicked)]) else (s\<lparr>ss_channel := ss_channel s @ [(d, w)]\<rparr>, []))"
| "signature_service_step dk SignNext s =
     (case ss_channel s of
        [] \<Rightarrow> (s, [])
      | (d, w) # queue \<Rightarrow>
          (case signature_new dk d (ss_secret s) of
             Inr sig \<Rightarrow> (s\<lparr>ss_channel := queue\<rparr>, [(w, Ok sig)])
           | Inl _ \<Rightarrow> (s\<lparr>ss_channel := [], ss_closed := True\<rparr>, map (\<lambda>(_, v). (v, Panicked)) (ss_channel s))))"

definition signature_service_run ::
  "dalek \<Rightarrow> signature_event list \<Rightarrow> signature_service \<Rightarrow> signature_service \<times> (nat \<times> (crypto_error, signature) result) list list" where
  "signature_service_run dk = run_steps (signature_service_step dk)"

section \<open>Every caller is answered\<close>

definition requested :: "signature_event list \<Rightarrow> (digest \<times> nat) list" where
  "requested events = concat (map (\<lambda>ev. case ev of RequestSignature d w \<Rightarrow> [(d, w)] | SignNext \<Rightarrow> []) events)"

definition replies :: "dalek \<Rightarrow> secret_key \<Rightarrow> (digest \<times> nat) list \<Rightarrow> (nat \<times> (crypto_error, signature) result) list" where
  "replies dk secret = map (\<lambda>(d, w). (w, request_signature dk secret d))"

lemma replies_panicked:
  "\<not> keypair_from_bytes dk (secret_bits secret) \<Longrightarrow> replies dk secret xs = map (\<lambda>(_, w). (w, Panicked)) xs"
  by (auto simp: replies_def request_signature_def signature_new_def)

text \<open>A service is closed only by a secret that is no key pair, and nothing waits in a closed channel.\<close>

definition service_inv :: "dalek \<Rightarrow> secret_key \<Rightarrow> signature_service \<Rightarrow> bool" where
  "service_inv dk secret s \<longleftrightarrow>
     ss_secret s = secret \<and> (ss_closed s \<longrightarrow> ss_channel s = [] \<and> \<not> keypair_from_bytes dk (secret_bits secret))"

lemma signature_service_step_replies:
  assumes "service_inv dk secret s"
  shows "service_inv dk secret (fst (signature_service_step dk ev s)) \<and>
    snd (signature_service_step dk ev s) @ replies dk secret (ss_channel (fst (signature_service_step dk ev s))) =
      replies dk secret (ss_channel s @ requested [ev])"
proof (cases ev)
  case (RequestSignature d w)
  then show ?thesis
    using assms by (auto simp: service_inv_def requested_def replies_panicked)
next
  case SignNext
  show ?thesis
  proof (cases "ss_channel s")
    case Nil
    then show ?thesis using assms SignNext by (simp add: requested_def)
  next
    case (Cons request queue)
    obtain d w where request: "request = (d, w)" by (cases request)
    show ?thesis
    proof (cases "keypair_from_bytes dk (secret_bits secret)")
      case True
      then show ?thesis
        using assms SignNext Cons request
        by (auto simp: service_inv_def requested_def replies_def request_signature_def signature_new_def Let_def)
    next
      case False
      then show ?thesis
        using assms SignNext Cons request
        by (simp add: service_inv_def requested_def replies_panicked signature_new_def)
    qed
  qed
qed

lemma signature_service_run_replies:
  assumes "service_inv dk secret s"
  shows "concat (snd (signature_service_run dk events s)) @ replies dk secret (ss_channel (fst (signature_service_run dk events s))) =
    replies dk secret (ss_channel s @ requested events)"
  using assms unfolding signature_service_run_def
proof (induction events arbitrary: s)
  case Nil
  then show ?case by (simp add: requested_def)
next
  case (Cons ev events)
  note step = signature_service_step_replies [OF Cons.prems, of ev]
  note IH = Cons.IH [OF conjunct1 [OF step]]
  have split: "requested (ev # events) = requested [ev] @ requested events" by (simp add: requested_def)
  have app: "replies dk secret (xs @ ys) = replies dk secret xs @ replies dk secret ys" for xs ys by (simp add: replies_def)
  show ?case
    using step IH unfolding split by (simp add: app del: run_steps.simps(2))
qed

section \<open>Properties\<close>

text \<open>
  C23: Asking the signature service is calling \<open>request_signature\<close>: in any interleaving of requests and of the task, the callers are
  answered in the order of their requests, each exactly once, with the signature of its own digest; with a secret that is no key
  pair each of them panics, whether its request was in the channel or came after the task had died. Only the requests
  still in the channel are unanswered.
\<close>

theorem signature_service_answers:
  "concat (snd (signature_service_run dk events (signature_service_new secret))) @
     map (\<lambda>(d, w). (w, request_signature dk secret d)) (ss_channel (fst (signature_service_run dk events (signature_service_new secret)))) =
   map (\<lambda>(d, w). (w, request_signature dk secret d)) (requested events)"
proof -
  have "service_inv dk secret (signature_service_new secret)" by (simp add: service_inv_def signature_service_new_def)
  from signature_service_run_replies [OF this, of events] show ?thesis
    by (simp add: replies_def signature_service_new_def)
qed

end
