(* ===== verification/Formatting.thy ===== *)
theory Formatting
  imports Messages
begin

text \<open>
  The text of keys, digests, messages and errors in logs (the \<open>Display\<close> and \<open>Debug\<close> implementations of \<open>crypto/src/lib.rs\<close>,
  \<open>primary/src/messages.rs\<close> and \<open>primary/src/error.rs\<close>). The benchmark measures the system by reading these lines, so the
  line of a header has to tell its round and author. \<open>enc\<close> is the base64 encoding.
\<close>

section \<open>Numbers and keys\<close>

text \<open>Decimal digits, as integers are formatted.\<close>

fun decimal :: "nat \<Rightarrow> string" where
  "decimal n = (if n < 10 then [char_of (48 + n)] else decimal (n div 10) @ [char_of (48 + n mod 10)])"

declare decimal.simps [simp del]

text \<open>\<open>get(0..16).unwrap()\<close>: the first sixteen characters, or a panic when there are fewer.\<close>

definition get16 :: "string \<Rightarrow> ('e, string) result" where
  "get16 s = (if 16 \<le> length s then Ok (take 16 s) else Panicked)"

definition digest_debug :: "(bytes \<Rightarrow> string) \<Rightarrow> digest \<Rightarrow> string" where
  "digest_debug enc d = enc (digest_to_vec d)"

definition digest_display :: "(bytes \<Rightarrow> string) \<Rightarrow> digest \<Rightarrow> ('e, string) result" where
  "digest_display enc d = get16 (enc (digest_to_vec d))"

definition public_key_debug :: "(bytes \<Rightarrow> string) \<Rightarrow> public_key \<Rightarrow> string" where
  "public_key_debug enc k = public_key_encode_base64 enc k"

definition public_key_display :: "(bytes \<Rightarrow> string) \<Rightarrow> public_key \<Rightarrow> ('e, string) result" where
  "public_key_display enc k = get16 (public_key_encode_base64 enc k)"

section \<open>Messages\<close>

definition header_display :: "(bytes \<Rightarrow> string) \<Rightarrow> header \<Rightarrow> ('e, string) result" where
  "header_display enc h =
     and_then (public_key_display enc (h_author h)) (\<lambda>author.
       Ok (''B'' @ decimal (unat (h_round h)) @ ''('' @ author @ '')''))"

text \<open>The common shape of the debug lines: two texts around a letter, a round and an author.\<close>

definition debug_line ::
  "(bytes \<Rightarrow> string) \<Rightarrow> digest \<Rightarrow> string \<Rightarrow> round \<Rightarrow> public_key \<Rightarrow> ('e, string) result \<Rightarrow> ('e, string) result" where
  "debug_line enc d letter r author shown =
     and_then (digest_display enc d) (\<lambda>hid.
     and_then (public_key_display enc author) (\<lambda>name.
     and_then shown (\<lambda>detail.
       Ok (hid @ '': '' @ letter @ decimal (unat r) @ ''('' @ name @ '', '' @ detail @ '')''))))"

definition header_debug :: "(bytes \<Rightarrow> string) \<Rightarrow> header \<Rightarrow> ('e, string) result" where
  "header_debug enc h = debug_line enc (h_id h) ''B'' (h_round h) (h_author h)
     (Ok (decimal (unat (sum_list (map (\<lambda>(d, _). digest_size d) (h_payload h))))))"

definition vote_debug :: "dalek \<Rightarrow> (bytes \<Rightarrow> string) \<Rightarrow> vote \<Rightarrow> ('e, string) result" where
  "vote_debug dk enc v = debug_line enc (vote_digest dk v) ''V'' (v_round v) (v_author v) (digest_display enc (v_id v))"

definition certificate_debug :: "dalek \<Rightarrow> (bytes \<Rightarrow> string) \<Rightarrow> certificate \<Rightarrow> ('e, string) result" where
  "certificate_debug dk enc x =
     debug_line enc (cert_digest dk x) ''C'' (cert_round x) (cert_origin x) (digest_display enc (h_id (c_header x)))"

section \<open>What a line tells\<close>

lemma digit_char: "n < 10 \<Longrightarrow> is_digit (char_of (48 + n)) \<and> digit_value (char_of (48 + n)) = n" for n :: nat
  by (simp add: is_digit_def digit_value_def)

lemma decimal_digits: "decimal n \<noteq> [] \<and> (\<forall>ch \<in> set (decimal n). is_digit ch)"
proof (induction n rule: decimal.induct)
  case (1 n)
  then show ?case using digit_char [of n] digit_char [of "n mod 10"] by (subst (1 2) decimal.simps) auto
qed

lemma decimal_value: "foldl (\<lambda>acc ch. 10 * acc + digit_value ch) 0 (decimal n) = n"
proof (induction n rule: decimal.induct)
  case (1 n)
  then show ?case using digit_char [of n] digit_char [of "n mod 10"] by (subst decimal.simps) auto
qed

lemma decimal_inject: "decimal m = decimal n \<longleftrightarrow> m = n"
  using decimal_value by metis

text \<open>A number read back from its text.\<close>

lemma parse_decimal: "parse_unsigned (decimal (unat w)) = Some w"
proof (cases "decimal (unat w)")
  case Nil
  then show ?thesis using decimal_digits [of "unat w"] by simp
next
  case (Cons ch digits)
  have digits: "\<forall>ch \<in> set (decimal (unat w)). is_digit ch" using decimal_digits by blast
  have "\<not> is_digit (CHR ''+'')" by (simp add: is_digit_def)
  then have "ch \<noteq> CHR ''+''" using digits Cons by auto
  then show ?thesis using digits decimal_value [of "unat w"] Cons by (simp add: parse_unsigned_def)
qed

lemma digits_before_paren:
  assumes "xs @ ''('' @ us = ys @ ''('' @ vs" and "\<forall>ch \<in> set xs. is_digit ch" "\<forall>ch \<in> set ys. is_digit ch"
  shows "xs = ys \<and> us = vs"
proof -
  have paren: "\<not> is_digit (CHR ''('')" by (simp add: is_digit_def)
  show ?thesis
    using assms
  proof (induction xs arbitrary: ys)
    case Nil
    then show ?case using paren by (cases ys) auto
  next
    case (Cons x xs)
    then show ?case using paren by (cases ys) auto
  qed
qed

text \<open>
  The log line of a header tells its round, as a number, and the first sixteen characters of the key of its author. Two headers
  with the same line agree on both.
\<close>

theorem header_display_tells_slot:
  assumes "header_display enc h = Ok line"
  shows "\<exists>digits. line = ''B'' @ digits @ ''('' @ take 16 (enc (key_as_ref (h_author h))) @ '')'' \<and> parse_unsigned digits = Some (h_round h)"
    and "header_display enc g = Ok line \<Longrightarrow>
      h_round g = h_round h \<and> take 16 (enc (key_as_ref (h_author g))) = take 16 (enc (key_as_ref (h_author h)))"
proof -
  have line: "line = ''B'' @ decimal (unat (h_round f)) @ ''('' @ take 16 (enc (key_as_ref (h_author f))) @ '')''"
    if "header_display enc f = Ok line" for f
    using that by (auto simp: header_display_def and_then_Ok_iff public_key_display_def public_key_encode_base64_def get16_def
        split: if_splits)
  show "\<exists>digits. line = ''B'' @ digits @ ''('' @ take 16 (enc (key_as_ref (h_author h))) @ '')'' \<and> parse_unsigned digits = Some (h_round h)"
    using line [OF assms] parse_decimal by blast
  assume g: "header_display enc g = Ok line"
  have "decimal (unat (h_round g)) = decimal (unat (h_round h)) \<and>
      take 16 (enc (key_as_ref (h_author g))) @ '')'' = take 16 (enc (key_as_ref (h_author h))) @ '')''"
    using line [OF assms] line [OF g] decimal_digits by (intro digits_before_paren) auto
  then show "h_round g = h_round h \<and> take 16 (enc (key_as_ref (h_author g))) = take 16 (enc (key_as_ref (h_author h)))"
    by (simp add: decimal_inject word_unat_eq_iff)
qed

text \<open>Base64 gives 44 characters for 32 bytes, so no line is a panic.\<close>

theorem lines_do_not_panic:
  assumes "\<And>bs. length bs = 32 \<Longrightarrow> 16 \<le> length (enc bs)"
  shows "\<exists>line. header_display enc h = Ok line" "\<exists>line. header_debug enc h = Ok line"
    "\<exists>line. vote_debug dk enc v = Ok line" "\<exists>line. certificate_debug dk enc x = Ok line"
  using assms
  by (simp_all add: header_display_def header_debug_def vote_debug_def certificate_debug_def debug_line_def digest_display_def
      public_key_display_def public_key_encode_base64_def get16_def)

end
