(* ===== verification/VotesInTime.thy ===== *)
theory VotesInTime
  imports Authority
begin

text \<open>
  One vote per slot over a whole run of an authority. The record of votes loses the rounds that are garbage collected
  (\<open>primary/src/core.rs\<close>), and a header that a waiter resumes is not compared with \<open>gc_round\<close>, so a slot of such a round can be
  voted for again. As long as no vote comes so late, the record is enough for the whole run.
\<close>

section \<open>A step of the core task\<close>

text \<open>Only the cleanup changes the round up to which the core task has collected.\<close>

definition same_gc :: "'db core \<Rightarrow> 'db core \<Rightarrow> core_action list \<Rightarrow> bool" where
  "same_gc s s' out \<longleftrightarrow> k_gc_round s' = k_gc_round s"

interpretation same_gc: transition same_gc
  by unfold_locales (simp_all add: same_gc_def)

lemma same_gc_block: "same_gc.moves (write_store nd k bs)" "same_gc.moves (sync_deliver nd x)" "same_gc.moves (append_certificate nd x)"
  "same_gc.moves (mark_voted h)" "same_gc.moves (op_emit a)"
  by (auto simp: same_gc.moves_def same_gc_def core_effects mark_voted_def op_then_def op_bind_def Let_def split: prod.splits)

interpretation gc_core: core_relation same_gc nd for nd :: "'db node"
proof unfold_locales
  show "same_gc.moves (cast_block nd h next)" if "\<And>v. same_gc.moves (next v)"
    for h and "next" :: "vote \<Rightarrow> ('db, unit) core_op"
    unfolding cast_block_def by (intro same_gc.moves_intros same_gc_block that)
  show "same_gc.moves (deliver_block nd x)" for x
    unfolding deliver_block_def by (intro same_gc.moves_intros same_gc_block)
qed (auto simp: same_gc.moves_def same_gc_def core_effects op_then_def op_bind_def Let_def split: prod.splits)

text \<open>No vote of these outputs is for a round that the core task had collected in the given state.\<close>

definition in_time :: "'db core \<Rightarrow> core_action list \<Rightarrow> bool" where
  "in_time s out \<longleftrightarrow> (\<forall>v \<in> set (votes_created out). k_gc_round s \<le> v_round v)"

lemma in_time_cast: "in_time s out \<longleftrightarrow> (\<forall>q \<in> set (votes_cast out). k_gc_round s \<le> fst q)"
  by (auto simp: in_time_def votes_cast_created)

lemma core_handle_gc:
  assumes "core_handle nd ev s = (r, s1, out)"
  shows "k_gc_round s1 = k_gc_round s"
proof -
  have "same_gc.moves (core_handle nd ev)"
    by (rule gc_core.moves_handle) (simp add: same_gc.moves_modify same_gc_def)
  from same_gc.movesD [OF this assms] show ?thesis by (simp add: same_gc_def)
qed

text \<open>The votes of the handler are for slots that are not on record, and then they are.\<close>

lemma core_handle_records:
  assumes run: "core_handle nd ev s = (r, s1, out)" and "in_time s out"
    and votes: "distinct votes" "\<forall>q \<in> set votes. k_gc_round s \<le> fst q \<longrightarrow> q \<in> voted s"
  shows "distinct (votes @ votes_cast out)"
    and "\<forall>q \<in> set (votes @ votes_cast out). k_gc_round s \<le> fst q \<longrightarrow> q \<in> voted s1"
proof -
  have "one_vote.moves 0 (core_handle nd ev)"
    by (rule votes_core.moves_handle) (auto intro!: one_vote.moves_modify one_vote_same)
  from one_vote.movesD [OF this run] have new: "distinct (votes_cast out)" "set (votes_cast out) \<inter> voted s = {}"
    "voted s \<union> set (votes_cast out) \<subseteq> voted s1" by (auto simp: one_vote_def Let_def)
  have "set votes \<inter> set (votes_cast out) = {}" using new(2) votes(2) assms(2) unfolding in_time_cast by blast
  then show "distinct (votes @ votes_cast out)" using new(1) votes(1) by simp
  show "\<forall>q \<in> set (votes @ votes_cast out). k_gc_round s \<le> fst q \<longrightarrow> q \<in> voted s1" using new(3) votes(2) by auto
qed

lemma core_step_records:
  assumes run: "core_step nd ev loaded s = (r, s', out)" and gc: "k_gc_round s \<le> collected nd loaded"
  shows "k_gc_round s' \<le> collected nd loaded"
    and "in_time s out \<Longrightarrow> distinct votes \<Longrightarrow> \<forall>q \<in> set votes. k_gc_round s \<le> fst q \<longrightarrow> q \<in> voted s \<Longrightarrow>
      distinct (votes @ votes_cast out) \<and> (\<forall>q \<in> set (votes @ votes_cast out). k_gc_round s' \<le> fst q \<longrightarrow> q \<in> voted s')"
proof -
  obtain r1 s1 out1 where 1: "core_handle nd ev s = (r1, s1, out1)" by (cases "core_handle nd ev s")
  have s': "out = out1 \<and> (s' = s1 \<or> s' = core_cleanup nd loaded s1)"
    using run by (auto simp: core_step_def 1 split: sum.splits fault.splits dag_error.splits)
  note same = core_handle_gc [OF 1]
  have "s' = s1 \<or> k_gc_round s' = collected nd loaded \<and> voted s' = {q \<in> voted s1. collected nd loaded \<le> fst q}"
  proof (cases "nd_gc_depth nd < loaded")
    case True
    then show ?thesis
      using s' by (auto simp: core_cleanup_def Let_def collected_def voted_def retain_from_def or_default_def split: if_splits)
  qed (use s' in \<open>auto simp: core_cleanup_def\<close>)
  then show "k_gc_round s' \<le> collected nd loaded"
    and "in_time s out \<Longrightarrow> distinct votes \<Longrightarrow> \<forall>q \<in> set votes. k_gc_round s \<le> fst q \<longrightarrow> q \<in> voted s \<Longrightarrow>
      distinct (votes @ votes_cast out) \<and> (\<forall>q \<in> set (votes @ votes_cast out). k_gc_round s' \<le> fst q \<longrightarrow> q \<in> voted s')"
    using core_handle_records [OF 1, of votes] s' same gc by (auto intro: order_trans)
qed

text \<open>
  The record does not outlive garbage collection: whatever was voted for in the slot of a header before its round was collected, the core
  task votes for the header when the header waiter hands it back, as long as its parents and its batches are there.
\<close>

lemma collected_slot_voted_again:
  assumes "nd_gc_depth nd < loaded" "h_round h < collected nd loaded" "h_author h \<noteq> nd_name nd"
    and "get_parents nd (k_db s) h = (Ok parents, [])" "parents \<noteq> []"
    and "check_parents (nd_committee nd) h parents 0 = Ok stk" "quorum_threshold (nd_committee nd) \<le> stk"
    and "missing_payload nd (k_db s) h = (Ok False, [])"
    and "vote_new (nd_crypto nd) (nd_secret nd) h (nd_name nd) = Ok v"
  shows "votes_created (snd (snd (core_step nd (HeaderLoopback h) loaded' (core_cleanup nd loaded s)))) = [v]"
proof -
  let ?s = "core_cleanup nd loaded s"
  have "h_author h \<notin> or_default {} (k_last_voted ?s (h_round h))" "k_db ?s = k_db s"
    using assms(1,2) by (auto simp: core_cleanup_def Let_def collected_def retain_from_def or_default_def)
  then have "votes_created (snd (snd (process_header nd h ?s))) = [v]"
    using assms(3-) by (intro header_votes) simp_all
  moreover have "snd (snd (core_step nd ev loaded' t)) = snd (snd (core_handle nd ev t))" for ev t
    by (auto simp: core_step_def split: prod.splits sum.splits fault.splits dag_error.splits)
  ultimately show ?thesis by simp
qed

section \<open>A step of the primary\<close>

text \<open>A step of the primary is a step of its core task, or leaves the votes and their record as they are.\<close>

definition core_moved :: "'db node \<Rightarrow> 'db primary \<Rightarrow> 'db primary \<Rightarrow> primary_output list \<Rightarrow> bool" where
  "core_moved nd p p' out \<longleftrightarrow>
     (core_actions out = [] \<and> k_last_voted (pr_core p') = k_last_voted (pr_core p) \<and> k_gc_round (pr_core p') = k_gc_round (pr_core p)) \<or>
     (\<exists>ev r. core_step nd ev (consensus_round p) (pr_core p) = (r, pr_core p', core_actions out))"

lemma core_moved_same: "pr_core p' = pr_core p \<Longrightarrow> core_actions out = [] \<Longrightarrow> core_moved nd p p' out"
  by (simp add: core_moved_def)

lemma core_moved_core: "core_task nd ev p = (r, p', out) \<Longrightarrow> core_moved nd p p' out"
  by (auto simp: core_task_def core_moved_def split: prod.splits)

lemma core_moved_payload: "payload_task nd pair p = (r, p', out) \<Longrightarrow> core_moved nd p p' out"
  by (auto simp: payload_task_def core_moved_def)

lemma core_moved_others:
  "proposer_task nd e p = (r, p', out) \<Longrightarrow> core_moved nd p p' out"
  "header_waiter_task nd params now hev p = (r, p', out) \<Longrightarrow> core_moved nd p p' out"
  "certificate_waiter_task nd cev p = (r, p', out) \<Longrightarrow> core_moved nd p p' out"
  "helper_task nd req p = (r, p', out) \<Longrightarrow> core_moved nd p p' out"
  "network_task deliveries p = (r, p', out) \<Longrightarrow> core_moved nd p p' out"
  "gc_task nd x p = (r, p', out) \<Longrightarrow> core_moved nd p p' out"
  by (auto simp: proposer_task_def header_waiter_task_def certificate_waiter_task_def helper_task_def network_task_def gc_task_def
      split: prod.splits intro!: core_moved_same)

lemma core_moved_receive:
  assumes run: "receive channel set_channel handle p = (r, p', out)"
    and handle: "\<And>m q r q' out. handle m q = (r, q', out) \<Longrightarrow> core_moved nd q q' out"
    and frame: "\<And>rest q. pr_core (set_channel rest q) = pr_core q"
      "\<And>rest q. pr_garbage_collector (set_channel rest q) = pr_garbage_collector q"
  shows "core_moved nd p p' out"
  using run
proof (cases rule: receive_result)
  case 1
  then show ?thesis by (simp add: core_moved_same)
next
  case (2 m rest)
  from handle [OF 2(2)] show ?thesis by (simp add: core_moved_def frame)
qed

lemma core_moved_step: "primary_step nd params ev p = (r, p', out) \<Longrightarrow> core_moved nd p p' out"
  by (cases ev)
    (auto simp: op_modify_def intro: core_moved_others core_moved_same core_moved_core core_moved_payload
      elim!: core_moved_receive split: prod.splits)

text \<open>The core task has collected at most what the consensus round allows.\<close>

definition gc_behind :: "'db node \<Rightarrow> 'db primary \<Rightarrow> bool" where
  "gc_behind nd p \<longleftrightarrow> k_gc_round (pr_core p) \<le> collected nd (consensus_round p) \<and>
     consensus_round p = gc_last_committed (pr_garbage_collector p)"

text \<open>The votes so far are for distinct slots, and those of rounds that are not collected are on record.\<close>

definition votes_recorded :: "(round \<times> public_key) list \<Rightarrow> 'db primary \<Rightarrow> bool" where
  "votes_recorded votes p \<longleftrightarrow> distinct votes \<and> (\<forall>q \<in> set votes. k_gc_round (pr_core p) \<le> fst q \<longrightarrow> q \<in> voted (pr_core p))"

lemma primary_step_records:
  assumes step: "primary_step nd params ev p = (r, p', out)" and gc: "gc_behind nd p"
  shows "gc_behind nd p'" "consensus_round p \<le> consensus_round p'"
    and "in_time (pr_core p) (core_actions out) \<Longrightarrow> votes_recorded votes p \<Longrightarrow> votes_recorded (votes @ votes_cast (core_actions out)) p'"
proof -
  have round: "consensus_round p' = gc_last_committed (pr_garbage_collector p')" "consensus_round p \<le> consensus_round p'"
    using primary_votes.lifted_step [OF step, of 0] gc unfolding primary_votes.lifted_def gc_behind_def by auto
  then show "consensus_round p \<le> consensus_round p'" by blast
  have mono: "collected nd (consensus_round p) \<le> collected nd (consensus_round p')"
    using round(2) collected_mono [of "consensus_round p" "consensus_round p'" nd] by (auto simp: collected_def)
  have behind: "k_gc_round (pr_core p) \<le> collected nd (consensus_round p)" using gc by (auto simp: gc_behind_def)
  from core_moved_step [OF step]
  have "k_gc_round (pr_core p') \<le> collected nd (consensus_round p) \<and>
      (in_time (pr_core p) (core_actions out) \<longrightarrow> votes_recorded votes p \<longrightarrow> votes_recorded (votes @ votes_cast (core_actions out)) p')"
    unfolding core_moved_def
  proof (elim disjE exE conjE)
    assume same: "core_actions out = []" "k_last_voted (pr_core p') = k_last_voted (pr_core p)" "k_gc_round (pr_core p') = k_gc_round (pr_core p)"
    then have "voted (pr_core p') = voted (pr_core p)" by (simp add: voted_def)
    then show ?thesis using same behind by (simp add: votes_recorded_def)
  next
    fix cev r'
    assume "core_step nd cev (consensus_round p) (pr_core p) = (r', pr_core p', core_actions out)"
    from core_step_records [OF this behind] show ?thesis unfolding votes_recorded_def by blast
  qed
  then show "gc_behind nd p'"
    and "in_time (pr_core p) (core_actions out) \<Longrightarrow> votes_recorded votes p \<Longrightarrow> votes_recorded (votes @ votes_cast (core_actions out)) p'"
    using round(1) order_trans [OF _ mono] unfolding gc_behind_def by blast+
qed

section \<open>A run of an authority\<close>

text \<open>
  Timing: in no step does the core task vote for a round that it has already garbage collected. It checks this itself
  for the messages from the network, but not for what the waiters and the proposer hand to it.
\<close>

fun votes_in_time :: "'db node \<Rightarrow> parameters \<Rightarrow> environment \<Rightarrow> authority_event list \<Rightarrow> 'db authority_node \<Rightarrow> bool" where
  "votes_in_time nd params env [] n = True"
| "votes_in_time nd params env (ev # events) n =
     (case authority_step nd params env ev n of (r, n', out) \<Rightarrow>
        in_time (pr_core (an_primary n)) (core_actions (primary_outs out)) \<and> votes_in_time nd params env events n')"

lemma authority_step_once:
  assumes "authority_step nd params env ev n = (r, n', out)"
  obtains pev r' where "primary_step nd params pev (an_primary n) = (r', an_primary n', primary_outs out)"
  | "primary_outs out = []" "pr_core (an_primary n') = pr_core (an_primary n)"
    "pr_garbage_collector (an_primary n') = pr_garbage_collector (an_primary n)"
proof (cases "(nd, params, env, ev)" rule: authority_step.cases)
  case (1 _ _ _ pev)
  then have "(n' = n \<and> out = []) \<or> primary_part nd params pev n = (r, n', out)"
    using assms by (auto split: primary_event.splits)
  then show ?thesis using that by (auto simp: primary_part_def split: prod.splits)
next
  case (2 _ _ _)
  then have "receive rx_new_certificates (\<lambda>q. rx_new_certificates_update (\<lambda>_. q)) (consensus_part (consensus_of nd env)) n = (r, n', out)"
    using assms by simp
  then show ?thesis
    by (cases rule: receive_result) (use that(2) in \<open>auto simp: consensus_part_def ordered_arrive split: sum.splits prod.splits\<close>)
next
  case (3 _ _ _)
  then have "receive rx_output (\<lambda>q. rx_output_update (\<lambda>_. q)) analyze_part n = (r, n', out)" using assms by simp
  then show ?thesis by (cases rule: receive_result) (use that(2) in \<open>auto simp: analyze_part_def\<close>)
qed

lemma authority_step_records:
  assumes step: "authority_step nd params env ev n = (r, n', out)" and gc: "gc_behind nd (an_primary n)"
  shows "gc_behind nd (an_primary n')" "consensus_round (an_primary n) \<le> consensus_round (an_primary n')"
    and "in_time (pr_core (an_primary n)) (core_actions (primary_outs out)) \<Longrightarrow> votes_recorded votes (an_primary n) \<Longrightarrow>
      votes_recorded (votes @ votes_cast (core_actions (primary_outs out))) (an_primary n')"
proof -
  from step have "gc_behind nd (an_primary n') \<and> consensus_round (an_primary n) \<le> consensus_round (an_primary n') \<and>
      (in_time (pr_core (an_primary n)) (core_actions (primary_outs out)) \<longrightarrow> votes_recorded votes (an_primary n) \<longrightarrow>
       votes_recorded (votes @ votes_cast (core_actions (primary_outs out))) (an_primary n'))"
  proof (cases rule: authority_step_once)
    case (1 pev r')
    from primary_step_records [OF this gc] show ?thesis by blast
  next
    case 2
    then show ?thesis using gc by (auto simp: gc_behind_def votes_recorded_def voted_def)
  qed
  then show "gc_behind nd (an_primary n')" "consensus_round (an_primary n) \<le> consensus_round (an_primary n')"
    and "in_time (pr_core (an_primary n)) (core_actions (primary_outs out)) \<Longrightarrow> votes_recorded votes (an_primary n) \<Longrightarrow>
      votes_recorded (votes @ votes_cast (core_actions (primary_outs out))) (an_primary n')"
    by blast+
qed

lemma authority_run_Cons:
  assumes "authority_run nd params env (ev # events) n = (Ok (), n', out)"
  obtains t out1 out2 where "authority_step nd params env ev n = (Ok (), t, out1)"
    "authority_run nd params env events t = (Ok (), n', out2)" "out = out1 @ out2"
  using assms by (auto simp: authority_run_def op_then_def op_bind_def split: prod.splits sum.splits)

lemma authority_run_records:
  assumes "authority_run nd params env events n = (Ok (), n', out)" and "votes_in_time nd params env events n"
    and "gc_behind nd (an_primary n)" and "votes_recorded votes (an_primary n)"
  shows "distinct (votes @ votes_cast (core_actions (primary_outs out)))"
  using assms
proof (induction events arbitrary: n votes out)
  case Nil
  then show ?case by (simp add: authority_run_def votes_recorded_def)
next
  case (Cons ev events)
  obtain t out1 out2 where step: "authority_step nd params env ev n = (Ok (), t, out1)"
    "authority_run nd params env events t = (Ok (), n', out2)" "out = out1 @ out2"
    by (rule authority_run_Cons [OF Cons.prems(1)])
  have "in_time (pr_core (an_primary n)) (core_actions (primary_outs out1))" "votes_in_time nd params env events t"
    using Cons.prems(2) step(1) by simp_all
  from Cons.IH [OF step(2) this(2) authority_step_records(1,3) [OF step(1) Cons.prems(3)]] this(1) Cons.prems(4) step(3)
  show ?case by simp
qed

lemma authority_starts:
  assumes "authority_spawn nd params env d = Ok (n, begun)"
  shows "gc_behind nd (an_primary n)" "votes_recorded [] (an_primary n)"
proof -
  obtain st where "primary_spawn nd params env d = Ok (an_primary n, st)" using authority_spawned [OF assms] by metis
  from primary_spawn_fields [OF this] show "gc_behind nd (an_primary n)" "votes_recorded [] (an_primary n)"
    by (simp_all add: gc_behind_def votes_recorded_def core_new_def)
qed

text \<open>From its start, an authority votes at most once in a slot, also for rounds that are garbage collected.\<close>

lemma authority_votes_once:
  assumes "authority_spawn nd params env d = Ok (n, begun)" and "authority_run nd params env events n = (Ok (), n', out)"
    and "votes_in_time nd params env events n"
  shows "distinct (votes_cast (core_actions (primary_outs out)))"
  using authority_run_records [OF assms(2,3) authority_starts [OF assms(1)]] by simp

text \<open>No vote is late as long as the committed rounds are within the garbage collection depth.\<close>

lemma votes_in_time_early:
  assumes "authority_run nd params env events n = (Ok (), n', out)" and "gc_behind nd (an_primary n)"
    and "consensus_round (an_primary n') \<le> nd_gc_depth nd"
  shows "votes_in_time nd params env events n"
proof -
  have "votes_in_time nd params env events n \<and> consensus_round (an_primary n) \<le> consensus_round (an_primary n')"
    using assms(1,2)
  proof (induction events arbitrary: n out)
    case Nil
    then show ?case by (simp add: authority_run_def)
  next
    case (Cons ev events)
    obtain t out1 out2 where step: "authority_step nd params env ev n = (Ok (), t, out1)"
      "authority_run nd params env events t = (Ok (), n', out2)"
      by (rule authority_run_Cons [OF Cons.prems(1)])
    note t = authority_step_records(1,2) [OF step(1) Cons.prems(2)]
    from Cons.IH [OF step(2) t(1)] have rest: "votes_in_time nd params env events t" "consensus_round (an_primary n) \<le> consensus_round (an_primary n')"
      using t(2) by (auto intro: order_trans)
    then have "consensus_round (an_primary n) \<le> nd_gc_depth nd" using order_trans assms(3) by blast
    then have "k_gc_round (pr_core (an_primary n)) = 0" using Cons.prems(2) by (auto simp: gc_behind_def collected_def split: if_splits)
    then show ?case using rest step(1) by (simp add: in_time_def)
  qed
  then show ?thesis by blast
qed

end
