(* ===== verification/CoreSound.thy ===== *)
theory CoreSound
  imports Agreement
begin

text \<open>
  What the data of a core task vouches for: the headers it processes carry their own digest, the certificates it
  hands to consensus a quorum of signers, and whatever it stores under a digest is one of these certificates or a
  header with a quorum of such certificates as parents. Round 0 is left out: its certificates are accepted without a
  signature.
\<close>

section \<open>Sound headers and certificates\<close>

text \<open>The headers that arrived or that the proposer made form the set \<open>S\<close>, the certificates handed to consensus are in \<open>T\<close>.\<close>

definition header_sound :: "dalek \<Rightarrow> header set \<Rightarrow> header \<Rightarrow> bool" where
  "header_sound dk S h \<longleftrightarrow> h_round h = 0 \<or> h \<in> S \<and> header_digest dk h = h_id h"

definition cert_sound :: "'db node \<Rightarrow> header set \<Rightarrow> certificate \<Rightarrow> bool" where
  "cert_sound nd S x \<longleftrightarrow> header_sound (nd_crypto nd) S (c_header x) \<and>
     (cert_round x = 0 \<or> unat (quorum_threshold (nd_committee nd)) \<le> sum (stake_nat (nd_committee nd)) (signers x))"

text \<open>What the code relies on: the store, and that \<open>bincode\<close> reads back a certificate and reads no certificate from a header.\<close>

definition codec_ok :: "bincode \<Rightarrow> certificate set \<Rightarrow> bool" where
  "codec_ok b T \<longleftrightarrow>
     (\<forall>h. de_certificate b (ser_header b h) = None) \<and> (\<forall>x \<in> T. de_certificate b (ser_certificate b x) = Some x)"

definition platform_ok :: "'db node \<Rightarrow> certificate set \<Rightarrow> bool" where
  "platform_ok nd T \<longleftrightarrow> committee_ok (nd_committee nd) \<and> rocksdb_ok (nd_rocksdb nd) \<and> codec_ok (nd_codec nd) T"

text \<open>The parents of a header, among the genesis and the certificates handed to consensus in \<open>tr\<close>, have a quorum.\<close>

definition parent_found :: "'db node \<Rightarrow> core_action list \<Rightarrow> digest \<Rightarrow> certificate \<Rightarrow> bool" where
  "parent_found nd tr d x \<longleftrightarrow> cert_digest (nd_crypto nd) x = d \<and> (x \<in> set (genesis (nd_committee nd)) \<or> ToConsensus x \<in> set tr)"

definition grounded :: "'db node \<Rightarrow> header set \<Rightarrow> core_action list \<Rightarrow> header \<Rightarrow> bool" where
  "grounded nd S tr h \<longleftrightarrow> header_sound (nd_crypto nd) S h \<and>
     (\<exists>parents. list_all2 (parent_found nd tr) (h_parents h) parents \<and> parents \<noteq> [] \<and>
        (\<forall>x \<in> set parents. cert_round x + 1 = h_round h) \<and>
        quorum_threshold (nd_committee nd) \<le> sum_list (map (\<lambda>x. stake_of (nd_committee nd) (cert_origin x)) parents))"

definition stored_header :: "'db node \<Rightarrow> header set \<Rightarrow> core_action list \<Rightarrow> digest \<Rightarrow> bytes \<Rightarrow> bool" where
  "stored_header nd S tr d v \<longleftrightarrow> (\<exists>h. grounded nd S tr h \<and> h_id h = d \<and> v = ser_header (nd_codec nd) h)"

definition stored_certificate :: "'db node \<Rightarrow> core_action list \<Rightarrow> digest \<Rightarrow> bytes \<Rightarrow> bool" where
  "stored_certificate nd tr d v \<longleftrightarrow>
     (\<exists>x. ToConsensus x \<in> set tr \<and> cert_digest (nd_crypto nd) x = d \<and> v = ser_certificate (nd_codec nd) x)"

fun waiter_header :: "waiter_message \<Rightarrow> header" where
  "waiter_header (SyncBatches missing h) = h"
| "waiter_header (SyncParents missing h) = h"

section \<open>The invariant\<close>

fun action_sound :: "'db node \<Rightarrow> header set \<Rightarrow> core_action list \<Rightarrow> core_action \<Rightarrow> bool" where
  "action_sound nd S tr (SyncHeader m) \<longleftrightarrow> header_sound (nd_crypto nd) S (waiter_header m)"
| "action_sound nd S tr (SyncCertificate x) \<longleftrightarrow> cert_sound nd S x"
| "action_sound nd S tr (ToConsensus x) \<longleftrightarrow> cert_sound nd S x"
| "action_sound nd S tr (VoteCreated v) \<longleftrightarrow>
     (\<exists>h. grounded nd S tr h \<and> v_id v = h_id h \<and> v_round v = h_round h \<and> v_origin v = h_author h)"
| "action_sound nd S tr (StoreWrite k v) \<longleftrightarrow> (\<exists>d. k = digest_to_vec d \<and> (stored_header nd S tr d v \<or> stored_certificate nd tr d v))"
| "action_sound nd S tr _ \<longleftrightarrow> True"

definition core_sound :: "'db node \<Rightarrow> header set \<Rightarrow> core_action list \<Rightarrow> 'db core \<Rightarrow> bool" where
  "core_sound nd S tr s \<longleftrightarrow>
     (\<forall>a \<in> set tr. action_sound nd S tr a) \<and>
     (\<forall>d v. stored (nd_rocksdb nd) (k_db s) (digest_to_vec d) = Some v \<longrightarrow> stored_header nd S tr d v \<or> stored_certificate nd tr d v) \<and>
     header_sound (nd_crypto nd) S (k_current_header s) \<and> va_inv (nd_committee nd) UNIV (k_votes_aggregator s)"

definition stays_sound :: "'db node \<Rightarrow> header set \<Rightarrow> certificate set \<Rightarrow> 'db core \<Rightarrow> 'db core \<Rightarrow> core_action list \<Rightarrow> bool" where
  "stays_sound nd S T s s' out \<longleftrightarrow>
     (platform_ok nd T \<longrightarrow> (\<forall>tr. {x. ToConsensus x \<in> set (tr @ out)} \<subseteq> T \<longrightarrow> core_sound nd S tr s \<longrightarrow> core_sound nd S (tr @ out) s'))"

lemma parent_found_mono: "set tr \<subseteq> set tr' \<Longrightarrow> parent_found nd tr d x \<Longrightarrow> parent_found nd tr' d x"
  by (auto simp: parent_found_def)

lemma grounded_mono: "set tr \<subseteq> set tr' \<Longrightarrow> grounded nd S tr h \<Longrightarrow> grounded nd S tr' h"
  unfolding grounded_def by (metis list_all2_mono parent_found_mono)

lemma stored_mono:
  assumes "set tr \<subseteq> set tr'"
  shows "stored_header nd S tr d v \<Longrightarrow> stored_header nd S tr' d v"
    and "stored_certificate nd tr d v \<Longrightarrow> stored_certificate nd tr' d v"
  using assms grounded_mono [OF assms] by (fastforce simp: stored_header_def stored_certificate_def)+

lemma action_sound_mono: "set tr \<subseteq> set tr' \<Longrightarrow> action_sound nd S tr a \<Longrightarrow> action_sound nd S tr' a"
  using grounded_mono stored_mono by (cases a) (simp_all, blast+)

interpretation sound: transition "stays_sound nd S T" for nd :: "'db node" and S T
proof unfold_locales
  show "stays_sound nd S T s s []" for s by (simp add: stays_sound_def)
  fix s t u :: "'db core" and out1 out2
  assume 1: "stays_sound nd S T s t out1" and 2: "stays_sound nd S T t u out2"
  show "stays_sound nd S T s u (out1 @ out2)"
    unfolding stays_sound_def
  proof (intro impI allI)
    fix tr
    assume ok: "platform_ok nd T" and T: "{x. ToConsensus x \<in> set (tr @ out1 @ out2)} \<subseteq> T" and s: "core_sound nd S tr s"
    have "core_sound nd S (tr @ out1) t" using 1 ok T s by (auto simp: stays_sound_def)
    then have "core_sound nd S ((tr @ out1) @ out2) u" using 2 ok T unfolding stays_sound_def by (metis append.assoc)
    then show "core_sound nd S (tr @ out1 @ out2) u" by simp
  qed
qed

text \<open>A step that leaves store, current header and aggregator alone and sends sound messages only.\<close>

lemma sound_quiet:
  assumes "k_db s' = k_db s" "k_current_header s' = k_current_header s" "k_votes_aggregator s' = k_votes_aggregator s"
    and "\<And>tr a. a \<in> set out \<Longrightarrow> action_sound nd S (tr @ out) a"
  shows "stays_sound nd S T s s' out"
  unfolding stays_sound_def core_sound_def
proof (intro impI allI conjI)
  fix tr
  assume s: "(\<forall>a \<in> set tr. action_sound nd S tr a) \<and>
     (\<forall>d v. stored (nd_rocksdb nd) (k_db s) (digest_to_vec d) = Some v \<longrightarrow> stored_header nd S tr d v \<or> stored_certificate nd tr d v) \<and>
     header_sound (nd_crypto nd) S (k_current_header s) \<and> va_inv (nd_committee nd) UNIV (k_votes_aggregator s)"
  have sub: "set tr \<subseteq> set (tr @ out)" by simp
  show "\<forall>a \<in> set (tr @ out). action_sound nd S (tr @ out) a"
    using s assms(4) action_sound_mono [OF sub, of nd S] by auto
  show "stored_header nd S (tr @ out) d v \<or> stored_certificate nd (tr @ out) d v"
    if "stored (nd_rocksdb nd) (k_db s') (digest_to_vec d) = Some v" for d v
    using s that stored_mono [OF sub] unfolding assms(1) by blast
qed (simp_all add: assms)

section \<open>Blocks\<close>

text \<open>A step that writes a sound value under a digest first and then sends sound messages.\<close>

lemma core_sound_write:
  assumes "rocksdb_ok (nd_rocksdb nd)" and s: "core_sound nd S tr s"
    and "k_db s' = db_put (nd_rocksdb nd) (k_db s) (digest_to_vec d) v"
    and "k_current_header s' = k_current_header s" "k_votes_aggregator s' = k_votes_aggregator s"
    and new: "stored_header nd S (tr @ out) d v \<or> stored_certificate nd (tr @ out) d v"
    and "\<And>a. a \<in> set out \<Longrightarrow> action_sound nd S (tr @ out) a"
  shows "core_sound nd S (tr @ out) s'"
proof -
  have sub: "set tr \<subseteq> set (tr @ out)" by simp
  have "stored_header nd S (tr @ out) e w \<or> stored_certificate nd (tr @ out) e w"
    if "stored (nd_rocksdb nd) (k_db s') (digest_to_vec e) = Some w" for e w
    using that s new stored_mono(1) [OF sub, of nd S e w] stored_mono(2) [OF sub, of nd e w] unfolding assms(3) database.read_write [OF assms(1)] core_sound_def
    by (cases "e = d") auto
  moreover have "\<forall>a \<in> set (tr @ out). action_sound nd S (tr @ out) a"
    using s assms(7) action_sound_mono [OF sub, of nd S] by (auto simp: core_sound_def)
  ultimately show ?thesis using s assms(4,5) by (simp add: core_sound_def)
qed

lemma collected_parents:
  assumes "platform_ok nd T" "{x. ToConsensus x \<in> set tr} \<subseteq> T" "core_sound nd S tr s"
    and "collect_parents nd (k_db s) ds = Ok ([], ps)"
  shows "list_all2 (parent_found nd tr) ds ps"
  using assms(4)
proof (induction ds arbitrary: ps)
  case Nil
  then show ?case by simp
next
  case (Cons d ds)
  have rdb: "rocksdb_ok (nd_rocksdb nd)" and codec: "codec_ok (nd_codec nd) T" using assms(1) by (simp_all add: platform_ok_def)
  show ?case
  proof (cases "map_of (sync_genesis nd) d")
    case (Some g)
    then have "parent_found nd tr d g" by (auto simp: parent_found_def sync_genesis_def dest!: map_of_SomeD)
    then show ?thesis using Cons Some by (auto simp: and_then_Ok_iff)
  next
    case None
    then obtain v x ps' where v: "stored (nd_rocksdb nd) (k_db s) (digest_to_vec d) = Some v" "de_certificate (nd_codec nd) v = Some x"
      "ps = x # ps'" "collect_parents nd (k_db s) ds = Ok ([], ps')"
      using Cons.prems by (auto simp: read_store_ok [OF rdb] and_then_Ok_iff split: option.splits)
    have "stored_header nd S tr d v \<or> stored_certificate nd tr d v" using assms(3) v(1) by (simp add: core_sound_def)
    moreover have "\<not> stored_header nd S tr d v" using v(2) codec by (auto simp: stored_header_def codec_ok_def)
    ultimately have "parent_found nd tr d x"
      using v(2) codec assms(2) by (auto simp: stored_certificate_def codec_ok_def parent_found_def)
    then show ?thesis using Cons.IH v by simp
  qed
qed

lemma sound_header:
  assumes h: "header_sound (nd_crypto nd) S h" and "\<And>v. transition.moves (stays_sound nd S T) (next v)"
  shows "transition.moves (stays_sound nd S T) (header_block nd h next)"
proof (rule sound.movesI)
  fix s r s' out
  assume "header_block nd h next s = (r, s', out)"
  then show "stays_sound nd S T s s' out"
  proof (cases rule: header_block_cases)
    case (stopped ms)
    then show ?thesis using h by (intro sound_quiet) (force simp: mark_processing_def)+
  next
    case (passed parents stk)
    let ?w = "StoreWrite (digest_to_vec (h_id h)) (ser_header (nd_codec nd) h)"
    define t where "t = (fst (snd (mark_processing h s)))\<lparr>k_db := db_put (nd_rocksdb nd) (k_db s) (digest_to_vec (h_id h)) (ser_header (nd_codec nd) h)\<rparr>"
    have t: "k_db t = db_put (nd_rocksdb nd) (k_db s) (digest_to_vec (h_id h)) (ser_header (nd_codec nd) h)"
      "k_current_header t = k_current_header s" "k_votes_aggregator t = k_votes_aggregator s"
      by (simp_all add: t_def mark_processing_def)
    obtain out2 where cast: "cast_block nd h next t = (r, s', out2)" "out = ?w # out2"
      using passed(6) by (auto simp: op_then_def op_bind_def write_store_def mark_processing_def t_def split: prod.splits)
    have found: "grounded nd S tr h" if "platform_ok nd T" "{x. ToConsensus x \<in> set tr} \<subseteq> T" "core_sound nd S tr s" for tr
      using collected_parents [OF that] h passed(1-4)
      by (auto simp: grounded_def get_parents_def check_parents_Ok split: sum.splits prod.splits if_splits)
    have first: "core_sound nd S (tr @ [?w]) t" if "platform_ok nd T" "{x. ToConsensus x \<in> set tr} \<subseteq> T" "core_sound nd S tr s" for tr
    proof -
      have "grounded nd S (tr @ [?w]) h" by (rule grounded_mono [OF _ found [OF that]]) auto
      then have "stored_header nd S (tr @ [?w]) (h_id h) (ser_header (nd_codec nd) h)" by (auto simp: stored_header_def)
      then show ?thesis using that t by (intro core_sound_write) (auto simp: platform_ok_def)
    qed
    from cast(1) have "stays_sound nd S T s s' ([?w] @ out2)"
    proof (cases rule: cast_block_cases)
      case silent
      then have "core_sound nd S tr t \<Longrightarrow> core_sound nd S tr s'" for tr by (simp add: core_sound_def)
      then show ?thesis using first silent(2) by (force simp: stays_sound_def)
    next
      case (vote v u out3)
      have v: "v_id v = h_id h" "v_round v = h_round h" "v_origin v = h_author h"
        using vote(1) by (auto simp: vote_new_def Let_def and_then_Ok_iff)
      have "stays_sound nd S T s u [?w, VoteCreated v]"
        unfolding stays_sound_def
      proof (intro impI allI)
        fix tr
        assume ok: "platform_ok nd T" "{x. ToConsensus x \<in> set (tr @ [?w, VoteCreated v])} \<subseteq> T" "core_sound nd S tr s"
        have "grounded nd S (tr @ [?w, VoteCreated v]) h" by (rule grounded_mono [OF _ found [OF ok(1) _ ok(3)]]) (use ok(2) in auto)
        then have "action_sound nd S (tr @ [?w, VoteCreated v]) (VoteCreated v)"
          "stored_header nd S (tr @ [?w, VoteCreated v]) (h_id h) (ser_header (nd_codec nd) h)"
          using v by (auto simp: stored_header_def)
        then show "core_sound nd S (tr @ [?w, VoteCreated v]) u"
          using ok t vote(2,5,6) by (intro core_sound_write) (auto simp: platform_ok_def)
      qed
      then have "stays_sound nd S T s s' ([?w, VoteCreated v] @ out3)"
        by (rule sound.rel_trans) (rule sound.movesD [OF assms(2) vote(3)])
      then show ?thesis using vote(4) by simp
    qed
    then show ?thesis using cast(2) by simp
  qed
qed

lemma sound_deliver:
  assumes x: "cert_sound nd S x"
  shows "transition.moves (stays_sound nd S T) (deliver_block nd x)"
proof (rule sound.movesI)
  fix s r s' out
  assume run: "deliver_block nd x s = (r, s', out)"
  let ?d = "cert_digest (nd_crypto nd) x" and ?v = "ser_certificate (nd_codec nd) x"
  show "stays_sound nd S T s s' out"
  proof (cases "ancestors_present nd (k_db s) (h_parents (c_header x)) = Ok True")
    case False
    then have "s' = s \<and> (out = [] \<or> out = [SyncCertificate x])"
      using run by (auto simp: deliver_block_def op_bind_def sync_deliver_def deliver_certificate_def Let_def
          split: sum.splits if_splits)
    then show ?thesis using x by (intro sound_quiet) auto
  next
    case True
    from deliver_block_run [OF True run] obtain ps where res:
      "k_current_header s' = k_current_header s" "k_votes_aggregator s' = k_votes_aggregator s"
      "k_db s' = db_put (nd_rocksdb nd) (k_db s) (digest_to_vec ?d) ?v"
      "out = StoreWrite (digest_to_vec ?d) ?v # (case ps of None \<Rightarrow> [] | Some ds \<Rightarrow> [ToProposer ds (cert_round x)]) @ [ToConsensus x]"
      by blast
    have "stored_certificate nd (tr @ out) ?d ?v" for tr by (auto simp: stored_certificate_def res(4))
    then have "core_sound nd S (tr @ out) s'" if "platform_ok nd T" "core_sound nd S tr s" for tr
      using that x res(1-3)
      by (intro core_sound_write) (auto simp: platform_ok_def res(4) split: option.splits)
    then show ?thesis by (simp add: stays_sound_def)
  qed
qed

lemma sound_append:
  assumes "append_vote nd v s = (r, s', out)" and "platform_ok nd T" "core_sound nd S tr s"
  shows "out = [] \<and> core_sound nd S tr s' \<and> (\<forall>x. r = Ok (Some x) \<longrightarrow> cert_sound nd S x)"
proof -
  have inv: "va_inv (nd_committee nd) UNIV (k_votes_aggregator s)" and h: "header_sound (nd_crypto nd) S (k_current_header s)"
    using assms(3) by (simp_all add: core_sound_def)
  obtain agg res where agg: "votes_append (nd_committee nd) (k_current_header s) v (k_votes_aggregator s) = (agg, res)" by fastforce
  then have "va_inv (nd_committee nd) UNIV agg"
    "\<And>x. res = Ok (Some x) \<Longrightarrow> certificate_from (nd_committee nd) (k_current_header s) UNIV x"
    using votes_append_inv [OF _ inv, of v "k_current_header s"] assms(2) by (auto simp: platform_ok_def)
  moreover have "s' = s\<lparr>k_votes_aggregator := agg\<rparr>" "out = []" "r = res" using assms(1) agg by (simp_all add: append_vote_def)
  moreover have "core_sound nd S tr (s\<lparr>k_votes_aggregator := agg\<rparr>)" if "va_inv (nd_committee nd) UNIV agg"
    using that assms(3) by (simp add: core_sound_def)
  ultimately show ?thesis using h by (auto simp: cert_sound_def certificate_from_def)
qed

lemma sound_primitives:
  "transition.moves (stays_sound nd S T) (net_broadcast addrs bs)"
  "transition.moves (stays_sound nd S T) (keep_handlers r hs)"
  "transition.moves (stays_sound nd S T) (send_vote nd h v)"
proof -
  show broadcast: "sound.moves nd S T (net_broadcast addrs bs)" for addrs bs
    by (auto simp: sound.moves_def net_broadcast_def Let_def intro!: sound_quiet)
  show handlers: "sound.moves nd S T (keep_handlers r hs)" for r hs
    by (auto simp: sound.moves_def keep_handlers_def intro!: sound_quiet)
  show "sound.moves nd S T (send_vote nd h v)"
    unfolding send_vote_def by (cases "primary_of (nd_committee nd) (h_author h)")
      (auto intro!: sound.moves_intros broadcast handlers)
qed

section \<open>The task\<close>

lemma sound_with_fuel:
  "(header_sound (nd_crypto nd) S h \<longrightarrow> sound.moves nd S T (header_with_fuel (op_lift Panicked) n nd h)) \<and>
   sound.moves nd S T (vote_with_fuel (op_lift Panicked) n nd v) \<and>
   (cert_sound nd S x \<longrightarrow> sound.moves nd S T (certificate_with_fuel (op_lift Panicked) n nd x))"
proof (induction n arbitrary: h v x)
  case 0
  show ?case
    unfolding header_with_fuel.simps vote_with_fuel.simps certificate_with_fuel.simps by (intro conjI impI sound.moves_lift)
next
  case (Suc n)
  have "sound.moves nd S T (header_with_fuel (op_lift Panicked) (Suc n) nd h)" if "header_sound (nd_crypto nd) S h"
    unfolding header_with_fuel_blocks
    by (intro sound.moves_intros sound_header that sound_primitives) (use Suc in blast)
  moreover have "sound.moves nd S T (certificate_with_fuel (op_lift Panicked) (Suc n) nd x)" if "cert_sound nd S x"
    unfolding certificate_with_fuel_blocks
    by (intro sound.moves_intros sound_deliver that) (use Suc that [unfolded cert_sound_def] in blast)
  moreover have "sound.moves nd S T (vote_with_fuel (op_lift Panicked) (Suc n) nd v)"
  proof (rule sound.movesI)
    fix s r s' out
    assume run: "vote_with_fuel (op_lift Panicked) (Suc n) nd v s = (r, s', out)"
    obtain res t out1 where app: "append_vote nd v s = (res, t, out1)" by (cases "append_vote nd v s")
    show "stays_sound nd S T s s' out"
      unfolding stays_sound_def
    proof (intro impI allI)
      fix tr
      assume ok: "platform_ok nd T" "{x. ToConsensus x \<in> set (tr @ out)} \<subseteq> T" "core_sound nd S tr s"
      note a = sound_append [OF app ok(1,3)]
      show "core_sound nd S (tr @ out) s'"
      proof (cases "\<exists>x. res = Ok (Some x)")
        case False
        then show ?thesis using run app a by (auto simp: op_bind_def split: sum.splits option.splits)
      next
        case True
        then obtain x where x: "res = Ok (Some x)" by blast
        let ?rest = "op_then
           (op_bind (net_broadcast (others_addresses nd) (ser_primary_message (nd_codec nd) (CertificateMsg x)))
             (\<lambda>handlers. keep_handlers (cert_round x) handlers))
           (op_expect (certificate_with_fuel (op_lift Panicked) n nd x))"
        have "sound.moves nd S T ?rest"
          by (intro sound.moves_intros sound_primitives) (use Suc a x in blast)
        moreover have "?rest t = (r, s', out)" using run app a x by (simp add: op_bind_def split: prod.splits)
        ultimately have "stays_sound nd S T t s' out" by (rule sound.movesD)
        then show ?thesis using ok a by (simp add: stays_sound_def)
      qed
    qed
  qed
  ultimately show ?case by blast
qed

lemma sound_process:
  "header_sound (nd_crypto nd) S h \<Longrightarrow> sound.moves nd S T (process_header nd h)"
  "sound.moves nd S T (process_vote nd v)"
  "cert_sound nd S x \<Longrightarrow> sound.moves nd S T (process_certificate nd x)"
  unfolding process_header_def process_vote_def process_certificate_def using sound_with_fuel by blast+

text \<open>What the events of the task must carry.\<close>

fun message_in :: "header set \<Rightarrow> primary_message \<Rightarrow> bool" where
  "message_in S (HeaderMsg h) \<longleftrightarrow> h \<in> S"
| "message_in S (CertificateMsg x) \<longleftrightarrow> c_header x \<in> S"
| "message_in S _ \<longleftrightarrow> True"

fun core_event_sound :: "'db node \<Rightarrow> header set \<Rightarrow> core_event \<Rightarrow> bool" where
  "core_event_sound nd S (FromPrimary m) \<longleftrightarrow> message_in S m"
| "core_event_sound nd S (HeaderLoopback h) \<longleftrightarrow> header_sound (nd_crypto nd) S h"
| "core_event_sound nd S (CertificateLoopback x) \<longleftrightarrow> cert_sound nd S x"
| "core_event_sound nd S (FromProposer h) \<longleftrightarrow> header_sound (nd_crypto nd) S h"

lemma sound_check:
  assumes "\<And>s. platform_ok nd T \<Longrightarrow> f s = Ok () \<Longrightarrow> sound.moves nd S T m"
  shows "sound.moves nd S T (op_then (op_check f) m)"
proof (rule sound.movesI)
  fix s r s' out
  assume run: "op_then (op_check f) m s = (r, s', out)"
  show "stays_sound nd S T s s' out"
  proof (cases "platform_ok nd T \<and> f s = Ok ()")
    case True
    then have "sound.moves nd S T m" using assms by blast
    moreover have "m s = (r, s', out)" using run True by (simp add: op_then_def op_bind_def op_check_def split: prod.splits)
    ultimately show ?thesis by (rule sound.movesD)
  next
    case False
    then have "\<not> platform_ok nd T \<or> s' = s \<and> out = []"
      using run by (auto simp: op_then_def op_bind_def op_check_def split: sum.splits)
    then show ?thesis using sound.rel_refl by (auto simp: stays_sound_def)
  qed
qed

lemma sanitized_header: "sanitize_header nd h s = Ok () \<Longrightarrow> h \<in> S \<Longrightarrow> header_sound (nd_crypto nd) S h"
  by (auto simp: sanitize_header_def header_sound_def header_verify_def and_then_Ok_iff ensure_Ok_iff)

lemma sanitized_certificate:
  assumes "platform_ok nd T" and "sanitize_certificate nd x s = Ok ()" and "c_header x \<in> S"
  shows "cert_sound nd S x"
proof -
  have "certificate_verify (nd_crypto nd) (nd_committee nd) x = Ok ()"
    using assms(2) by (simp add: sanitize_certificate_def and_then_Ok_iff)
  then have "genesis_like (nd_committee nd) x \<or> header_verify (nd_crypto nd) (nd_committee nd) (c_header x) = Ok () \<and>
      unat (quorum_threshold (nd_committee nd)) \<le> sum (stake_nat (nd_committee nd)) (signers x)"
    using certificate_verify_Ok_iff assms(1) unfolding platform_ok_def by blast
  then show ?thesis
    using assms(3) by (auto simp: cert_sound_def header_sound_def genesis_like_def cert_round_def header_verify_def
        and_then_Ok_iff ensure_Ok_iff)
qed

lemma sound_own_header:
  assumes "header_sound (nd_crypto nd) S h"
  shows "sound.moves nd S T (process_own_header nd h)"
proof -
  have "sound.moves nd S T (op_modify (\<lambda>s. s\<lparr>k_current_header := h, k_votes_aggregator := votes_aggregator_new\<rparr>) :: ('a, unit) core_op)"
    using assms by (intro sound.moves_modify) (simp add: stays_sound_def core_sound_def va_inv_new)
  then show ?thesis
    unfolding process_own_header_def by (intro sound.moves_intros sound_primitives sound_process assms)
qed

lemma core_step_sound:
  assumes "core_event_sound nd S ev"
  shows "sound.moves nd S T (core_step nd ev loaded)"
proof (rule core_step_moves [OF sound.transition_axioms])
  show "sound.moves nd S T (core_handle nd ev)"
    using assms
    by (cases "(nd, ev)" rule: core_handle.cases)
      (auto simp del: op_simps intro!: sound_check sound_process sound_own_header sound.moves_lift
        intro: sanitized_header sanitized_certificate)
  show "stays_sound nd S T s (core_cleanup nd loaded s) []" for s
    by (rule sound_quiet) (auto simp: core_cleanup_def Let_def)
qed

end
