(* ===== verification/PrimarySound.thy ===== *)
theory PrimarySound
  imports CoreSound
begin

text \<open>
  The invariant of \<open>CoreSound\<close> for a whole primary: every header and certificate in a channel or in a waiter is
  sound, in any interleaving of the tasks. So every vote of a primary is for a header with a quorum of parents that this
  primary has itself handed to consensus.
\<close>

section \<open>The other tasks\<close>

definition makes_hashed :: "dalek \<Rightarrow> proposer \<Rightarrow> proposer \<Rightarrow> proposer_action list \<Rightarrow> bool" where
  "makes_hashed dk s s' out \<longleftrightarrow> (\<forall>h. NewHeader h \<in> set out \<longrightarrow> header_digest dk h = h_id h)"

interpretation makes: transition "makes_hashed dk" for dk
  by unfold_locales (auto simp: makes_hashed_def)

lemma header_new_digest: "header_new dk secret author rnd payload parents = Ok h \<Longrightarrow> header_digest dk h = h_id h"
  by (auto simp: header_new_def Let_def and_then_Ok_iff header_digest_def header_bytes_def)

lemma proposer_step_hashed:
  assumes "proposer_step nd ev s = (r, s', out)" and "NewHeader h \<in> set out"
  shows "header_digest (nd_crypto nd) h = h_id h"
proof -
  have "makes.moves (nd_crypto nd) (make_header nd)"
    by (auto simp: makes.moves_def makes_hashed_def make_header_def op_then_def op_bind_def header_new_digest
        split: sum.splits)
  then have "makes.moves (nd_crypto nd) (try_propose nd b)" for b
    unfolding try_propose_def by (intro makes.moves_intros makes.moves_modify) (simp_all add: makes_hashed_def)
  moreover have "makes.moves (nd_crypto nd) (enter_round nd k)" for k
    by (auto simp: makes.moves_def makes_hashed_def enter_round_def op_then_def op_bind_def workers_broadcast_def Let_def)
  then have "makes.moves (nd_crypto nd) (proposer_handle nd e)" for e
    by (cases "(nd, e)" rule: proposer_handle.cases)
      (auto simp del: op_simps intro!: makes.moves_intros makes.moves_modify simp: makes_hashed_def)
  ultimately have "makes.moves (nd_crypto nd) (proposer_step nd ev)"
    unfolding proposer_step_def by (cases ev) (simp add: makes.moves_then)
  then have "makes_hashed (nd_crypto nd) s s' out" using assms(1) by (rule makes.movesD)
  then show ?thesis using assms(2) by (simp add: makes_hashed_def)
qed

text \<open>The header waiter gives back headers that it was given.\<close>

definition waits_for :: "(header \<Rightarrow> bool) \<Rightarrow> header_waiter \<Rightarrow> header_waiter \<Rightarrow> header_waiter_action list \<Rightarrow> bool" where
  "waits_for P s s' out \<longleftrightarrow> ((\<forall>w \<in> set (hw_waiting s). P (w_header w)) \<longrightarrow>
     (\<forall>w \<in> set (hw_waiting s'). P (w_header w)) \<and> (\<forall>h. LoopbackHeader h \<in> set out \<longrightarrow> P h))"

interpretation waits: transition "waits_for P" for P
proof unfold_locales
  show "waits_for P s s []" for s by (simp add: waits_for_def)
  show "waits_for P s u (out1 @ out2)" if "waits_for P s t out1" "waits_for P t u out2" for s t u out1 out2
    using that unfolding waits_for_def set_append Un_iff by blast
qed

lemma waits_sync:
  assumes "P (waiter_header m)"
  shows "waits.moves P (sync_message nd now m)"
proof -
  have "waits.moves P (await_header keys (waiter_header m))" for keys
    using assms unfolding await_header_def by (intro waits.moves_modify) (auto simp: waits_for_def)
  moreover have "waits.moves P (send_synchronize nd author ws)" "waits.moves P (send_certificates_request nd author syncs)"
    for author ws syncs
    by (auto simp: waits.moves_def waits_for_def send_synchronize_def send_certificates_request_def split: prod.split sum.split)
  moreover have "waits.moves P (op_modify (\<lambda>s. s\<lparr>hw_batch_requests := reqs\<rparr>) :: unit header_waiter_op)"
    "waits.moves P (op_modify (\<lambda>s. s\<lparr>hw_parent_requests := reqs'\<rparr>) :: unit header_waiter_op)" for reqs reqs'
    by (auto intro!: waits.moves_modify simp: waits_for_def)
  ultimately show ?thesis
    by (cases "(nd, now, m)" rule: sync_message.cases)
      (auto simp del: op_simps intro!: waits.moves_intros split: prod.split)
qed

lemma completed_run:
  "completed res s = (r, s', out) \<Longrightarrow> hw_waiting s' = hw_waiting s \<and> (\<forall>h. LoopbackHeader h \<in> set out \<longrightarrow> res = Ok (Some h))"
  by (cases res rule: completed.cases) (auto simp: op_then_def op_bind_def)

lemma waits_poll: "waits.moves P (poll_waiting nd d i first)"
proof (rule waits.movesI)
  fix s r s' out
  assume run: "poll_waiting nd d i first s = (r, s', out)"
  let ?w = "hw_waiting s ! i"
  show "waits_for P s s' out"
  proof (cases "length (hw_waiting s) \<le> i \<or> waiter nd d (closed ?w s) first ?w = None")
    case True
    then show ?thesis using run by (auto simp: poll_waiting_def op_bind_def waits_for_def split: if_splits)
  next
    case False
    then obtain res where res: "waiter nd d (closed ?w s) first ?w = Some res" and i: "i < length (hw_waiting s)" by auto
    have less: "w \<in> set (hw_waiting s)" if "w \<in> set (take i (hw_waiting s) @ drop (Suc i) (hw_waiting s))" for w
      using that by (auto dest: in_set_takeD in_set_dropD)
    have mem: "?w \<in> set (hw_waiting s)" using i by simp
    obtain r2 where "completed res (s\<lparr>hw_waiting := take i (hw_waiting s) @ drop (Suc i) (hw_waiting s)\<rparr>) = (r2, s', out)"
      using run res i by (auto simp: poll_waiting_def op_bind_def op_then_def split: prod.splits sum.splits)
    from completed_run [OF this] have "hw_waiting s' = take i (hw_waiting s) @ drop (Suc i) (hw_waiting s)"
      "LoopbackHeader h \<in> set out \<Longrightarrow> h = w_header ?w" for h
      using res waiter_Some [of nd d "closed ?w s" first ?w h] by auto
    then show ?thesis using less mem by (auto simp: waits_for_def)
  qed
qed

lemma header_waiter_step_waits:
  assumes "\<And>m. ev = SyncRequest m \<Longrightarrow> P (waiter_header m)"
  shows "waits.moves P (header_waiter_step nd params (d, now, ev, loaded))"
proof -
  have "waits.moves P (header_waiter_handle nd params d now ev)"
  proof (cases ev)
    case RetryTimer
    then show ?thesis
      by (auto simp del: op_simps simp: retry_timer_def intro!: waits.moves_intros waits.moves_emit) (simp add: waits_for_def)
  qed (use assms waits_sync waits_poll in auto)
  moreover have "waits.moves P (op_modify (header_waiter_cleanup nd loaded) :: unit header_waiter_op)"
    by (rule waits.moves_modify) (auto simp: waits_for_def header_waiter_cleanup_def Let_def)
  ultimately show ?thesis unfolding header_waiter_step_def prod.case by (intro waits.moves_intros)
qed

section \<open>The whole primary\<close>

definition queued_headers :: "'db primary \<Rightarrow> header set" where
  "queued_headers p = set (rx_headers p) \<union> set (rx_headers_loopback p) \<union> waiter_header ` set (rx_sync_headers p) \<union>
     w_header ` set (hw_waiting (pr_header_waiter p))"

definition queued_certificates :: "'db primary \<Rightarrow> certificate set" where
  "queued_certificates p =
     set (rx_sync_certificates p) \<union> set (rx_certificates_loopback p) \<union> fst ` set (cw_waiting (pr_certificate_waiter p))"

definition primary_sound :: "'db node \<Rightarrow> header set \<Rightarrow> primary_output list \<Rightarrow> 'db primary \<Rightarrow> bool" where
  "primary_sound nd S tr p \<longleftrightarrow>
     core_sound nd S (core_actions tr) (pr_core p) \<and> (\<forall>m \<in> set (rx_primary_messages p). message_in S m) \<and>
     (\<forall>h \<in> queued_headers p. header_sound (nd_crypto nd) S h) \<and> (\<forall>x \<in> queued_certificates p. cert_sound nd S x)"

definition primary_stays :: "'db node \<Rightarrow> header set \<Rightarrow> certificate set \<Rightarrow> 'db primary \<Rightarrow> 'db primary \<Rightarrow> primary_output list \<Rightarrow> bool" where
  "primary_stays nd S T p p' out \<longleftrightarrow>
     (platform_ok nd T \<longrightarrow>
        (\<forall>tr. {x. ToConsensus x \<in> set (core_actions (tr @ out))} \<subseteq> T \<longrightarrow> {h. ProposerAction (NewHeader h) \<in> set (tr @ out)} \<subseteq> S \<longrightarrow>
           primary_sound nd S tr p \<longrightarrow> primary_sound nd S (tr @ out) p'))"

interpretation stays: transition "primary_stays nd S T" for nd :: "'db node" and S T
proof unfold_locales
  show "primary_stays nd S T p p []" for p by (simp add: primary_stays_def)
  fix p q r :: "'db primary" and out1 out2
  assume 1: "primary_stays nd S T p q out1" and 2: "primary_stays nd S T q r out2"
  show "primary_stays nd S T p r (out1 @ out2)"
    unfolding primary_stays_def
  proof (intro impI allI)
    fix tr
    assume ok: "platform_ok nd T" "{x. ToConsensus x \<in> set (core_actions (tr @ out1 @ out2))} \<subseteq> T"
      "{h. ProposerAction (NewHeader h) \<in> set (tr @ out1 @ out2)} \<subseteq> S" "primary_sound nd S tr p"
    have "primary_sound nd S (tr @ out1) q" using 1 ok by (auto simp: primary_stays_def)
    then have "primary_sound nd S ((tr @ out1) @ out2) r" using 2 ok unfolding primary_stays_def by (metis append.assoc)
    then show "primary_sound nd S (tr @ out1 @ out2) r" by simp
  qed
qed

lemma fold_collects:
  assumes "\<And>a p. f (g a p) = f p \<union> k a"
  shows "f (fold g acts p) = f p \<union> (\<Union>a \<in> set acts. k a)"
  using assms by (induction acts arbitrary: p) auto

lemma queued_deliver_core:
  "queued_headers (fold deliver_core out p) = queued_headers p \<union> (\<Union>a \<in> set out. {waiter_header m | m. a = SyncHeader m})"
  "queued_certificates (fold deliver_core out p) = queued_certificates p \<union> (\<Union>a \<in> set out. {x. a = SyncCertificate x})"
  by (rule fold_collects, case_tac a; auto simp: queued_headers_def queued_certificates_def)+

lemma queued_deliver_proposer:
  "queued_headers (fold deliver_proposer out p) = queued_headers p \<union> (\<Union>a \<in> set out. {h. a = NewHeader h})"
  "queued_certificates (fold deliver_proposer out p) = queued_certificates p \<union> (\<Union>a \<in> set out. {})"
  by (rule fold_collects, case_tac a; auto simp: queued_headers_def queued_certificates_def)+

lemma queued_deliver_waiter:
  "queued_headers (fold deliver_waiter out p) = queued_headers p \<union> (\<Union>a \<in> set out. {h. a = LoopbackHeader h})"
  "queued_certificates (fold deliver_waiter out p) = queued_certificates p \<union> (\<Union>a \<in> set out. {})"
  by (rule fold_collects, case_tac a; auto simp: queued_headers_def queued_certificates_def)+

lemma queued_deliver_network:
  "queued_headers (fold deliver_network out p) = queued_headers p \<union> (\<Union>a \<in> set out. {})"
  "queued_certificates (fold deliver_network out p) = queued_certificates p \<union> (\<Union>a \<in> set out. {})"
  "set (rx_primary_messages (fold deliver_network out p)) = set (rx_primary_messages p) \<union> (\<Union>a \<in> set out. {m. a = ToCore m})"
  by (rule fold_collects [where f = queued_headers] fold_collects [where f = queued_certificates]
      fold_collects [where f = "\<lambda>p. set (rx_primary_messages p)"],
      case_tac a; auto simp: queued_headers_def queued_certificates_def)+

lemma queued_core_update [simp]:
  "queued_headers (p\<lparr>pr_core := s\<rparr>) = queued_headers p" "queued_certificates (p\<lparr>pr_core := s\<rparr>) = queued_certificates p"
  "queued_headers (p\<lparr>pr_proposer := s'\<rparr>) = queued_headers p" "queued_certificates (p\<lparr>pr_proposer := s'\<rparr>) = queued_certificates p"
  "queued_headers (p\<lparr>pr_garbage_collector := g\<rparr>) = queued_headers p" "queued_certificates (p\<lparr>pr_garbage_collector := g\<rparr>) = queued_certificates p"
  "queued_headers (p\<lparr>rx_consensus := xs\<rparr>) = queued_headers p" "queued_certificates (p\<lparr>rx_consensus := xs\<rparr>) = queued_certificates p"
  by (simp_all add: queued_headers_def queued_certificates_def)

section \<open>Its steps\<close>

lemma core_task_stays:
  assumes "core_task nd ev p = (r, p', out)" and "core_event_sound nd S ev"
  shows "primary_stays nd S T p p' out"
  unfolding primary_stays_def
proof (intro impI allI)
  fix tr
  assume ok: "platform_ok nd T" "{x. ToConsensus x \<in> set (core_actions (tr @ out))} \<subseteq> T" and p: "primary_sound nd S tr p"
  obtain s acts where step: "core_step nd ev (consensus_round p) (pr_core p) = (r, s, acts)"
    and res: "p' = fold deliver_core acts (p\<lparr>pr_core := s\<rparr>)" "out = map CoreAction acts"
    using assms(1) by (auto simp: core_task_def split: prod.splits)
  have "stays_sound nd S T (pr_core p) s acts" by (rule sound.movesD [OF core_step_sound [OF assms(2)] step])
  then have s: "core_sound nd S (core_actions tr @ acts) s"
    using ok p res(2) by (simp add: stays_sound_def primary_sound_def)
  then have "action_sound nd S (core_actions tr @ acts) a" if "a \<in> set acts" for a using that by (simp add: core_sound_def)
  then have "SyncHeader m \<in> set acts \<Longrightarrow> header_sound (nd_crypto nd) S (waiter_header m)"
    "SyncCertificate x \<in> set acts \<Longrightarrow> cert_sound nd S x" for m x by force+
  then show "primary_sound nd S (tr @ out) p'"
    using p s by (auto simp: primary_sound_def res queued_deliver_core)
qed

lemma proposer_task_stays:
  assumes "proposer_task nd ev p = (r, p', out)"
  shows "primary_stays nd S T p p' out"
proof -
  obtain s acts where step: "proposer_step nd ev (pr_proposer p) = (r, s, acts)"
    and res: "p' = fold deliver_proposer acts (p\<lparr>pr_proposer := s\<rparr>)" "out = map ProposerAction acts"
    using assms by (auto simp: proposer_task_def split: prod.splits)
  have "header_sound (nd_crypto nd) S h" if "NewHeader h \<in> set acts" "{h. ProposerAction (NewHeader h) \<in> set (tr @ out)} \<subseteq> S" for h tr
    using that proposer_step_hashed [OF step, of h] by (auto simp: header_sound_def res(2))
  then show ?thesis
    unfolding primary_stays_def by (auto simp: primary_sound_def res(1) queued_deliver_proposer) (simp_all add: res(2))
qed

lemma header_waiter_task_stays:
  assumes "header_waiter_task nd params now ev p = (r, p', out)"
    and "\<And>m. ev = SyncRequest m \<Longrightarrow> header_sound (nd_crypto nd) S (waiter_header m)"
  shows "primary_stays nd S T p p' out"
proof -
  obtain s acts where step: "header_waiter_step nd params (k_db (pr_core p), now, ev, consensus_round p) (pr_header_waiter p) = (r, s, acts)"
    and res: "p' = fold deliver_waiter acts (p\<lparr>pr_header_waiter := s\<rparr>)" "out = map WaiterAction acts"
    using assms(1) by (auto simp: header_waiter_task_def split: prod.splits)
  have "waits_for (header_sound (nd_crypto nd) S) (pr_header_waiter p) s acts"
    by (rule waits.movesD [OF header_waiter_step_waits step]) (rule assms(2))
  moreover have "queued_headers p' \<subseteq> queued_headers p \<union> w_header ` set (hw_waiting s) \<union> {h. LoopbackHeader h \<in> set acts}"
    unfolding res queued_deliver_waiter by (auto simp: queued_headers_def)
  moreover have "w_header ` set (hw_waiting (pr_header_waiter p)) \<subseteq> queued_headers p" by (auto simp: queued_headers_def)
  ultimately have "\<forall>h \<in> queued_headers p. header_sound (nd_crypto nd) S h \<Longrightarrow> \<forall>h \<in> queued_headers p'. header_sound (nd_crypto nd) S h"
    unfolding waits_for_def by blast
  moreover have "queued_certificates p' = queued_certificates p"
    unfolding res queued_deliver_waiter by (simp add: queued_certificates_def)
  ultimately show ?thesis by (simp add: primary_stays_def primary_sound_def res)
qed

lemma certificate_waiter_task_stays:
  assumes "certificate_waiter_task nd ev p = (r, p', out)" and "\<And>x. ev = SuspendCertificate x \<Longrightarrow> cert_sound nd S x"
  shows "primary_stays nd S T p p' out"
proof -
  obtain s certs where step: "certificate_waiter_step nd (k_db (pr_core p), ev) (pr_certificate_waiter p) = (r, s, certs)"
    and res: "p' = p\<lparr>pr_certificate_waiter := s, rx_certificates_loopback := rx_certificates_loopback p @ certs\<rparr>" "out = []"
    using assms(1) by (auto simp: certificate_waiter_task_def split: prod.splits)
  have "set (rx_certificates_loopback p') \<union> fst ` set (cw_waiting s) \<subseteq> queued_certificates p \<union> {x. ev = SuspendCertificate x}"
  proof (cases ev)
    case (SuspendCertificate x)
    then show ?thesis using step by (auto simp: res(1) queued_certificates_def)
  next
    case (CertificateNext i)
    have "certificate_waiter_step nd (k_db (pr_core p), CertificateNext i) (pr_certificate_waiter p) = (r, s, certs)"
      using step CertificateNext by simp
    then show ?thesis
    proof (cases rule: certificate_next_cases)
      case 1
      then show ?thesis by (auto simp: res(1) queued_certificates_def)
    next
      case (2 x keys)
      have "x \<in> fst ` set (cw_waiting (pr_certificate_waiter p))" using nth_mem [OF 2(1)] 2(2) by force
      moreover have "fst ` set (cw_waiting s) \<subseteq> fst ` set (cw_waiting (pr_certificate_waiter p))"
        unfolding 2(5) set_append by (intro image_mono Un_least set_take_subset set_drop_subset)
      ultimately show ?thesis using 2(4) unfolding res(1) queued_certificates_def by auto
    qed
  qed
  moreover have "queued_certificates p' \<subseteq> queued_certificates p \<union> set (rx_certificates_loopback p') \<union> fst ` set (cw_waiting s)"
    "queued_headers p' = queued_headers p"
    unfolding res(1) by (auto simp: queued_certificates_def queued_headers_def)
  ultimately have "\<forall>x \<in> queued_certificates p. cert_sound nd S x \<Longrightarrow> \<forall>x \<in> queued_certificates p'. cert_sound nd S x"
    "queued_headers p' = queued_headers p"
    using assms(2) by blast+
  then show ?thesis by (simp add: primary_stays_def primary_sound_def res)
qed

lemma network_task_stays:
  assumes "network_task (deliveries, res) p = (r, p', out)" and "\<And>m. ToCore m \<in> set deliveries \<Longrightarrow> message_in S m"
  shows "primary_stays nd S T p p' out"
  using assms
  by (auto simp: network_task_def primary_stays_def primary_sound_def queued_deliver_network)

lemma quiet_tasks_stay:
  "payload_task nd pair p = (r, p', out) \<Longrightarrow> primary_stays nd S T p p' out"
  "helper_task nd request p = (r, p', out) \<Longrightarrow> primary_stays nd S T p p' out"
  "gc_task nd x p = (r, p', out) \<Longrightarrow> primary_stays nd S T p p' out"
proof -
  show "primary_stays nd S T p p' out" if "payload_task nd pair p = (r, p', out)"
  proof -
    obtain d wid where pair: "pair = (d, wid)" by (cases pair)
    have res: "p' = p\<lparr>pr_core := (pr_core p)\<lparr>k_db := payload_receiver_step nd pair (k_db (pr_core p))\<rparr>\<rparr>" "out = []"
      using that by (simp_all add: payload_task_def)
    have "core_sound nd S tr ((pr_core p)\<lparr>k_db := payload_receiver_step nd pair (k_db (pr_core p))\<rparr>)"
      if "platform_ok nd T" "core_sound nd S tr (pr_core p)" for tr
      using that by (auto simp: core_sound_def platform_ok_def pair payload_receiver_step_def database.read_write
          payload_key_not_digest payload_key_not_digest [THEN not_sym])
    then show ?thesis unfolding res by (auto simp: primary_stays_def primary_sound_def)
  qed
qed (auto simp: helper_task_def gc_task_def primary_stays_def primary_sound_def split: prod.splits)

lemma receive_stays:
  assumes "receive channel set_channel handle p = (r, p', out)"
    and "\<And>tr m q. channel p = m # q \<Longrightarrow> primary_sound nd S tr p \<Longrightarrow> primary_sound nd S tr (set_channel q p) \<and> good m"
    and "\<And>m p r p' out. good m \<Longrightarrow> handle m p = (r, p', out) \<Longrightarrow> primary_stays nd S T p p' out"
  shows "primary_stays nd S T p p' out"
  using assms(1)
proof (cases rule: receive_result)
  case 1
  then show ?thesis by (simp add: stays.rel_refl)
next
  case (2 m q)
  then show ?thesis using assms(2) [OF 2(1)] assms(3) [OF _ 2(2)] by (auto simp: primary_stays_def)
qed

lemma primary_step_stays:
  assumes "primary_step nd params ev p = (r, p', out)"
    and "\<And>bs m. ev = PrimaryFrame bs \<Longrightarrow> de_primary_message (nd_codec nd) bs = Some m \<Longrightarrow> message_in S m"
  shows "primary_stays nd S T p p' out"
proof (cases ev)
  case (PrimaryFrame bs)
  then show ?thesis
    using assms(1) assms(2) [OF PrimaryFrame] by (cases "dispatch_primary (nd_codec nd) bs")
      (auto intro!: network_task_stays simp: dispatch_primary_def split: option.splits primary_message.splits)
next
  case (WorkerFrame bs)
  then show ?thesis
    using assms by (cases "dispatch_worker (nd_codec nd) bs")
      (auto intro!: network_task_stays simp: dispatch_worker_def split: option.splits worker_primary_message.splits)
next
  case (ConsensusOrdered x)
  then show ?thesis
    using assms(1) by (auto simp: primary_stays_def primary_sound_def)
next
  case (ProposerTimer expired)
  then show ?thesis using assms(1) by (auto intro: proposer_task_stays)
next
  case (WaiterNext now i first)
  then show ?thesis using assms(1) by (auto intro: header_waiter_task_stays)
next
  case (WaiterTimer now)
  then show ?thesis using assms(1) by (auto intro: header_waiter_task_stays)
next
  case (CertificateReady i)
  then show ?thesis using assms(1) by (auto intro: certificate_waiter_task_stays)
next
  case CoreMessage
  show ?thesis
    by (rule receive_stays [OF assms(1) [unfolded CoreMessage primary_step.simps], where good = "message_in S"])
      (auto simp: primary_sound_def queued_headers_def queued_certificates_def intro: core_task_stays)
next
  case CoreHeaderLoopback
  show ?thesis
    by (rule receive_stays [OF assms(1) [unfolded CoreHeaderLoopback primary_step.simps], where good = "header_sound (nd_crypto nd) S"])
      (auto simp: primary_sound_def queued_headers_def queued_certificates_def intro: core_task_stays)
next
  case CoreCertificateLoopback
  show ?thesis
    by (rule receive_stays [OF assms(1) [unfolded CoreCertificateLoopback primary_step.simps], where good = "cert_sound nd S"])
      (auto simp: primary_sound_def queued_headers_def queued_certificates_def intro: core_task_stays)
next
  case CoreOwnHeader
  show ?thesis
    by (rule receive_stays [OF assms(1) [unfolded CoreOwnHeader primary_step.simps], where good = "header_sound (nd_crypto nd) S"])
      (auto simp: primary_sound_def queued_headers_def queued_certificates_def intro: core_task_stays)
next
  case (WaiterRequest now)
  show ?thesis
    by (rule receive_stays [OF assms(1) [unfolded WaiterRequest primary_step.simps], where good = "\<lambda>m. header_sound (nd_crypto nd) S (waiter_header m)"])
      (auto simp: primary_sound_def queued_headers_def queued_certificates_def intro: header_waiter_task_stays)
next
  case CertificateSuspend
  show ?thesis
    by (rule receive_stays [OF assms(1) [unfolded CertificateSuspend primary_step.simps], where good = "cert_sound nd S"])
      (auto simp: primary_sound_def queued_headers_def queued_certificates_def intro: certificate_waiter_task_stays)
next
  case (ProposerParents expired)
  show ?thesis
    by (rule receive_stays [OF assms(1) [unfolded ProposerParents primary_step.simps], where good = "\<lambda>_. True"])
      (auto simp: primary_sound_def queued_headers_def queued_certificates_def intro: proposer_task_stays)
next
  case (ProposerDigest expired)
  show ?thesis
    by (rule receive_stays [OF assms(1) [unfolded ProposerDigest primary_step.simps], where good = "\<lambda>_. True"])
      (auto simp: primary_sound_def queued_headers_def queued_certificates_def intro: proposer_task_stays)
next
  case CollectGarbage
  show ?thesis
    by (rule receive_stays [OF assms(1) [unfolded CollectGarbage primary_step.simps], where good = "\<lambda>_. True"])
      (auto simp: primary_sound_def queued_headers_def queued_certificates_def intro: quiet_tasks_stay)
next
  case ReceivePayload
  show ?thesis
    by (rule receive_stays [OF assms(1) [unfolded ReceivePayload primary_step.simps], where good = "\<lambda>_. True"])
      (auto simp: primary_sound_def queued_headers_def queued_certificates_def intro: quiet_tasks_stay)
next
  case HelpRequest
  show ?thesis
    by (rule receive_stays [OF assms(1) [unfolded HelpRequest primary_step.simps], where good = "\<lambda>_. True"])
      (auto simp: primary_sound_def queued_headers_def queued_certificates_def intro: quiet_tasks_stay)
qed

text \<open>The headers that arrive in messages during a run, and those that the proposer makes.\<close>

definition seen_headers :: "'db node \<Rightarrow> primary_event list \<Rightarrow> primary_output list \<Rightarrow> header set" where
  "seen_headers nd events out =
     {h. \<exists>bs m. PrimaryFrame bs \<in> set events \<and> de_primary_message (nd_codec nd) bs = Some m \<and>
        (m = HeaderMsg h \<or> (\<exists>x. m = CertificateMsg x \<and> c_header x = h))} \<union>
     {h. ProposerAction (NewHeader h) \<in> set out}"

lemma primary_run_sound:
  assumes "platform_ok nd T" and "primary_spawn nd params env d = Ok (p, begun)" and "\<And>k. stored (nd_rocksdb nd) d k = None"
    and "primary_run nd params events p = (r, p', out)" and "{x. ToConsensus x \<in> set (core_actions out)} \<subseteq> T"
    and "seen_headers nd events out \<subseteq> S"
  shows "core_sound nd S (core_actions out) (pr_core p')"
proof -
  have "queued_headers p = {}" "queued_certificates p = {}"
    using assms(2)
    by (auto simp: primary_spawn_def and_then_Ok_iff case_prod_unfold queued_headers_def queued_certificates_def
        header_waiter_new_def certificate_waiter_new_def split: sum.splits)
  then have start: "primary_sound nd S [] p"
    using assms(3) primary_spawn_fields [OF assms(2)]
    by (simp add: primary_sound_def core_sound_def core_new_def va_inv_new header_sound_def header_default_def)
  have step: "stays.moves nd S T (primary_step nd params ev)" if "ev \<in> set events" for ev
  proof (rule stays.movesI, rule primary_step_stays)
    fix bs m
    assume "ev = PrimaryFrame bs" "de_primary_message (nd_codec nd) bs = Some m"
    then show "message_in S m" using that assms(6) by (cases m) (auto simp: seen_headers_def)
  qed
  have "stays.moves nd S T (op_for evs (primary_step nd params))" if "set evs \<subseteq> set events" for evs
    using that step by (induction evs) (auto simp del: op_simps intro!: stays.moves_return stays.moves_then)
  from stays.movesD [OF this [OF subset_refl] assms(4) [unfolded primary_run_def]]
  moreover have "{h. ProposerAction (NewHeader h) \<in> set ([] @ out)} \<subseteq> S" using assms(6) by (auto simp: seen_headers_def)
  ultimately have "primary_sound nd S ([] @ out) p'"
    using start assms(1,5) unfolding primary_stays_def by (metis append_Nil)
  then show ?thesis by (simp add: primary_sound_def)
qed

end
