(* ===== verification/HonestAuthorities.thy ===== *)
theory HonestAuthorities
  imports VotesInTime PrimarySound
begin

text \<open>
  Agreement of the honest authorities, from the code of every task of theirs: what their primaries send to their
  consensus is a certified DAG, so their consensus tasks commit the same leaders. The other authorities may do
  anything.
\<close>

section \<open>The honest authorities\<close>

text \<open>
  The run of an authority: its constants, the events of its tasks, and its state and outputs at the end. It starts with an
  empty store and never votes for a round that it has already garbage collected.
\<close>

record 'db participant =
  pt_node :: "'db node"
  pt_params :: parameters
  pt_env :: environment
  pt_events :: "authority_event list"
  pt_final :: "'db authority_node"
  pt_outputs :: "authority_output list"

definition participates :: "'db participant \<Rightarrow> bool" where
  "participates m \<longleftrightarrow>
     (\<exists>d n begun. (\<forall>key. stored (nd_rocksdb (pt_node m)) d key = None) \<and>
        authority_spawn (pt_node m) (pt_params m) (pt_env m) d = Ok (n, begun) \<and>
        authority_run (pt_node m) (pt_params m) (pt_env m) (pt_events m) n = (Ok (), pt_final m, pt_outputs m) \<and>
        votes_in_time (pt_node m) (pt_params m) (pt_env m) (pt_events m) n)"

definition sent_by :: "'db participant \<Rightarrow> certificate list" where
  "sent_by m = to_consensus (primary_outs (pt_outputs m))"

definition cast_by :: "'db participant \<Rightarrow> core_action list" where
  "cast_by m = core_actions (primary_outs (pt_outputs m))"

text \<open>The headers of the messages that arrived at it and those that its proposer made.\<close>

definition seen_by :: "'db participant \<Rightarrow> header set" where
  "seen_by m =
     {h. \<exists>bs msg. PrimaryEvent (PrimaryFrame bs) \<in> set (pt_events m) \<and> de_primary_message (nd_codec (pt_node m)) bs = Some msg \<and>
        (msg = HeaderMsg h \<or> (\<exists>x. msg = CertificateMsg x \<and> c_header x = h))} \<union>
     {h. ProposerAction (NewHeader h) \<in> set (primary_outs (pt_outputs m))}"

definition dag_of :: "public_key set \<Rightarrow> (public_key \<Rightarrow> 'db participant) \<Rightarrow> certificate set" where
  "dag_of honest run = (\<Union>k \<in> honest. set (sent_by (run k)))"

definition headers_of :: "public_key set \<Rightarrow> (public_key \<Rightarrow> 'db participant) \<Rightarrow> header set" where
  "headers_of honest run = (\<Union>k \<in> honest. seen_by (run k))"

text \<open>
  Each honest authority runs the code for the committee on a store and a serialisation that work.
\<close>

definition honest_runs :: "dalek \<Rightarrow> committee \<Rightarrow> public_key set \<Rightarrow> (public_key \<Rightarrow> 'db participant) \<Rightarrow> bool" where
  "honest_runs dk c honest run \<longleftrightarrow>
     (\<forall>k \<in> honest. participates (run k) \<and> nd_crypto (pt_node (run k)) = dk \<and> nd_committee (pt_node (run k)) = c \<and>
        unat (nd_gc_depth (pt_node (run k))) < 2 ^ 63 \<and> platform_ok (pt_node (run k)) (dag_of honest run))"

text \<open>
  Cryptography: signatures of honest authorities are not forged, and the hash does not collide on the headers and votes of
  the run. Two headers with the same bytes have the same parents, and parents are sets (they are a \<open>BTreeSet\<close>).
\<close>

definition hashed_bytes :: "committee \<Rightarrow> public_key set \<Rightarrow> (public_key \<Rightarrow> 'db participant) \<Rightarrow> bytes set" where
  "hashed_bytes c honest run = header_bytes ` headers_of honest run \<union>
     hashed (\<lambda>k. primary_outs (pt_outputs (run k))) honest (dag_of honest run \<union> set (genesis c))"

definition crypto_ok :: "dalek \<Rightarrow> committee \<Rightarrow> public_key set \<Rightarrow> (public_key \<Rightarrow> 'db participant) \<Rightarrow> bool" where
  "crypto_ok dk c honest run \<longleftrightarrow>
     (\<forall>x \<in> dag_of honest run. unforged dk (\<lambda>k. primary_outs (pt_outputs (run k))) honest x) \<and>
     inj_on (hash32 dk) (hashed_bytes c honest run) \<and>
     (\<forall>h \<in> headers_of honest run. distinct (h_parents h) \<and>
        (\<forall>h' \<in> headers_of honest run. header_bytes h = header_bytes h' \<longrightarrow> h_parents h = h_parents h'))"

lemma set_to_consensus: "set (to_consensus out) = {x. ToConsensus x \<in> set (core_actions out)}"
  by (auto simp: to_consensus_def core_actions_def split: primary_output.splits core_action.splits)

lemma same_parents:
  assumes "crypto_ok dk c honest run" "h \<in> headers_of honest run" "h' \<in> headers_of honest run" "header_bytes h = header_bytes h'"
  shows "h_parents h = h_parents h'"
  using assms unfolding crypto_ok_def by blast

section \<open>What a certificate in the DAG stands for\<close>

lemma honest_sound:
  assumes "honest_runs dk c honest run" and "k \<in> honest"
  shows "\<exists>s. core_sound (pt_node (run k)) (headers_of honest run) (cast_by (run k)) s"
proof -
  let ?m = "run k"
  have k: "participates ?m" "platform_ok (pt_node ?m) (dag_of honest run)" using assms by (auto simp: honest_runs_def)
  obtain d n begun where start: "authority_spawn (pt_node ?m) (pt_params ?m) (pt_env ?m) d = Ok (n, begun)"
    and empty: "\<And>key. stored (nd_rocksdb (pt_node ?m)) d key = None"
    and run: "authority_run (pt_node ?m) (pt_params ?m) (pt_env ?m) (pt_events ?m) n = (Ok (), pt_final ?m, pt_outputs ?m)"
    using k(1) by (auto simp: participates_def)
  obtain st where spawn: "primary_spawn (pt_node ?m) (pt_params ?m) (pt_env ?m) d = Ok (an_primary n, st)"
    using authority_spawned [OF start] by metis
  obtain events r where primary: "primary_run (pt_node ?m) (pt_params ?m) events (an_primary n) =
      (r, an_primary (pt_final ?m), primary_outs (pt_outputs ?m))"
    and frames: "\<And>bs. PrimaryFrame bs \<in> set events \<Longrightarrow> PrimaryEvent (PrimaryFrame bs) \<in> set (pt_events ?m)"
    using authority_run_primary [OF run] by blast
  have "seen_headers (pt_node ?m) events (primary_outs (pt_outputs ?m)) \<subseteq> headers_of honest run"
    using frames assms(2) by (auto simp: seen_headers_def headers_of_def seen_by_def)
  moreover have "{x. ToConsensus x \<in> set (core_actions (primary_outs (pt_outputs ?m)))} \<subseteq> dag_of honest run"
    using assms(2) by (auto simp: dag_of_def sent_by_def set_to_consensus)
  ultimately show ?thesis
    using primary_run_sound [OF k(2) spawn empty primary] unfolding cast_by_def by blast
qed

text \<open>An honest authority has voted at most once in a slot.\<close>

lemma honest_votes_once:
  assumes "honest_runs dk c honest run" and "k \<in> honest"
  shows "distinct (votes_cast (cast_by (run k)))"
proof -
  have "participates (run k)" using assms by (simp add: honest_runs_def)
  then show ?thesis unfolding participates_def cast_by_def by (elim exE conjE) (rule authority_votes_once)
qed

lemma dag_certificate:
  assumes "honest_runs dk c honest run" and "x \<in> dag_of honest run" and "cert_round x \<noteq> 0"
  shows "c_header x \<in> headers_of honest run" "header_digest dk (c_header x) = h_id (c_header x)"
    and "unat (quorum_threshold c) \<le> sum (stake_nat c) (signers x)"
proof -
  obtain k where k: "k \<in> honest" "ToConsensus x \<in> set (cast_by (run k))"
    using assms(2) by (auto simp: dag_of_def sent_by_def cast_by_def set_to_consensus)
  obtain s where "core_sound (pt_node (run k)) (headers_of honest run) (cast_by (run k)) s"
    using honest_sound [OF assms(1) k(1)] by blast
  then have "action_sound (pt_node (run k)) (headers_of honest run) (cast_by (run k)) (ToConsensus x)"
    using k(2) by (simp add: core_sound_def del: action_sound.simps)
  then show "c_header x \<in> headers_of honest run" "header_digest dk (c_header x) = h_id (c_header x)"
    "unat (quorum_threshold c) \<le> sum (stake_nat c) (signers x)"
    using assms(1,3) k(1) by (auto simp: honest_runs_def cert_sound_def header_sound_def cert_round_def)
qed

text \<open>A vote for a slot: the header that it is for has parents with a quorum, all in the DAG or genesis.\<close>

definition voted_header :: "'db participant \<Rightarrow> header set \<Rightarrow> vote \<Rightarrow> header \<Rightarrow> bool" where
  "voted_header m S v h \<longleftrightarrow> VoteCreated v \<in> set (cast_by m) \<and> grounded (pt_node m) S (cast_by m) h \<and>
     v_id v = h_id h \<and> v_round v = h_round h \<and> v_origin v = h_author h"

lemma certificate_voted:
  assumes "honest_runs dk c honest run" and "crypto_ok dk c honest run" and "x \<in> dag_of honest run" and "cert_round x \<noteq> 0"
    and "k \<in> honest" and "k \<in> signers x"
  shows "\<exists>v h. voted_header (run k) (headers_of honest run) v h \<and> v_id v = h_id (c_header x) \<and> v_round v = cert_round x \<and>
    v_origin v = cert_origin x \<and> header_bytes h = header_bytes (c_header x) \<and> h_parents h = h_parents (c_header x)"
proof -
  let ?outs = "\<lambda>k. primary_outs (pt_outputs (run k))"
  have crypto: "unforged dk ?outs honest x" "inj_on (hash32 dk) (hashed_bytes c honest run)"
    using assms(2,3) by (auto simp: crypto_ok_def)
  obtain v where v: "v \<in> set (votes_created (core_actions (?outs k)))" "vote_digest dk v = cert_digest dk x"
    using crypto(1) assms(5,6) by (auto simp: unforged_def)
  have "inj_on (hash32 dk) (hashed ?outs honest (dag_of honest run \<union> set (genesis c)))"
    using crypto(2) by (rule inj_on_subset) (simp add: hashed_bytes_def)
  note same = voted_for_certificate [OF this UnI1 [OF assms(3)] assms(5) v]
  have created: "VoteCreated v \<in> set (cast_by (run k))" using v(1) by (simp add: votes_created_iff cast_by_def)
  obtain s where "core_sound (pt_node (run k)) (headers_of honest run) (cast_by (run k)) s"
    using honest_sound [OF assms(1,5)] by blast
  then have "action_sound (pt_node (run k)) (headers_of honest run) (cast_by (run k)) (VoteCreated v)"
    using created by (simp add: core_sound_def del: action_sound.simps)
  then obtain h where h: "voted_header (run k) (headers_of honest run) v h" using created by (auto simp: voted_header_def)
  have "nd_crypto (pt_node (run k)) = dk" using assms(1,5) by (simp add: honest_runs_def)
  then have hs: "h \<in> headers_of honest run" "header_digest dk h = h_id h"
    using h same(2) assms(4) by (auto simp: voted_header_def grounded_def header_sound_def)
  note hx = dag_certificate [OF assms(1,3,4)]
  have "header_digest dk h = header_digest dk (c_header x)" using hs(2) hx(2) h same(1) by (simp add: voted_header_def)
  then have bytes: "header_bytes h = header_bytes (c_header x)"
    unfolding header_digest_def using hs(1) hx(1) by (intro inj_onD [OF crypto(2)]) (simp_all add: hashed_bytes_def)
  from same_parents [OF assms(2) hs(1) hx(1) this] have "h_parents h = h_parents (c_header x)" .
  with h same bytes show ?thesis by blast
qed

lemma dag_signers:
  assumes "committee_ok c" and "sum (stake_nat c) (set (names c) - honest) < unat (validity_threshold c)"
    and "honest_runs dk c honest run"
    and "x \<in> dag_of honest run" "cert_round x \<noteq> 0" "y \<in> dag_of honest run" "cert_round y \<noteq> 0"
  obtains k where "k \<in> honest" "k \<in> signers x" "k \<in> signers y"
proof -
  have quorum: "unat (quorum_threshold c) \<le> sum (stake_nat c) (signers z \<inter> set (names c))"
    if "z \<in> dag_of honest run" "cert_round z \<noteq> 0" for z
    using dag_certificate(3) [OF assms(3) that] committee.weight_restrict [of "signers z" c] by (simp add: signers_def)
  show thesis
    by (rule committee.quorums_share_honest [OF assms(1) _ _ quorum [OF assms(4,5)] quorum [OF assms(6,7)] assms(2)])
      (use that in auto)
qed

text \<open>Two certificates of a slot have the same header up to the payload and the signature.\<close>

lemma dag_slot:
  assumes "committee_ok c" and "sum (stake_nat c) (set (names c) - honest) < unat (validity_threshold c)"
    and "honest_runs dk c honest run" and "crypto_ok dk c honest run"
    and "x \<in> dag_of honest run" "cert_round x \<noteq> 0" "y \<in> dag_of honest run" and "slot x = slot y"
  shows "outline x = outline y"
proof -
  have y: "cert_round y \<noteq> 0" "cert_round y = cert_round x" "cert_origin y = cert_origin x" using assms(6,8) by (auto simp: slot_def)
  obtain k where k: "k \<in> honest" "k \<in> signers x" "k \<in> signers y"
    by (rule dag_signers [OF assms(1-3) assms(5,6) assms(7) y(1)])
  obtain v h where v: "voted_header (run k) (headers_of honest run) v h" "v_id v = h_id (c_header x)" "v_round v = cert_round x"
    "v_origin v = cert_origin x" "header_bytes h = header_bytes (c_header x)" "h_parents h = h_parents (c_header x)"
    using certificate_voted [OF assms(3-6) k(1,2)] by blast
  obtain w h' where w: "voted_header (run k) (headers_of honest run) w h'" "v_id w = h_id (c_header y)" "v_round w = cert_round y"
    "v_origin w = cert_origin y" "header_bytes h' = header_bytes (c_header y)" "h_parents h' = h_parents (c_header y)"
    using certificate_voted [OF assms(3,4,7) y(1) k(1,3)] by blast
  have "distinct (filter (\<lambda>(r, _). 0 \<le> r) (votes_cast (cast_by (run k))))"
    by (intro distinct_filter honest_votes_once [OF assms(3) k(1)])
  then have "v = w"
    using v(1,3,4) w(1,3,4) y by (intro one_vote_unique) (auto simp: voted_header_def votes_created_iff)
  then have id: "h_id (c_header x) = h_id (c_header y)" using v(2) w(2) by simp
  note hx = dag_certificate [OF assms(3,5,6)] and hy = dag_certificate [OF assms(3,7) y(1)]
  have "header_bytes (c_header x) = header_bytes (c_header y)"
  proof (rule inj_onD)
    show "inj_on (hash32 dk) (hashed_bytes c honest run)" using assms(4) by (simp add: crypto_ok_def)
    show "hash32 dk (header_bytes (c_header x)) = hash32 dk (header_bytes (c_header y))"
      using id hx(2) hy(2) by (simp add: header_digest_def)
  qed (use hx(1) hy(1) in \<open>simp_all add: hashed_bytes_def\<close>)
  from same_parents [OF assms(4) hx(1) hy(1) this] have "h_parents (c_header x) = h_parents (c_header y)" .
  then show ?thesis using id y by (simp add: outline_def cert_round_def cert_origin_def)
qed

section \<open>The DAG is certified\<close>

definition in_dag :: "dalek \<Rightarrow> committee \<Rightarrow> certificate set \<Rightarrow> digest \<Rightarrow> certificate \<Rightarrow> bool" where
  "in_dag dk c G d y \<longleftrightarrow> cert_digest dk y = d \<and> (y \<in> set (genesis c) \<or> y \<in> G)"

lemma grounded_parents:
  assumes "honest_runs dk c honest run" and "k \<in> honest" and "grounded (pt_node (run k)) S (cast_by (run k)) h"
  obtains ps where "list_all2 (in_dag dk c (dag_of honest run)) (h_parents h) ps" "ps \<noteq> []" "\<forall>y \<in> set ps. cert_round y + 1 = h_round h"
    "quorum_threshold c \<le> sum_list (map (\<lambda>y. stake_of c (cert_origin y)) ps)"
proof -
  have k: "nd_crypto (pt_node (run k)) = dk" "nd_committee (pt_node (run k)) = c" using assms(1,2) by (simp_all add: honest_runs_def)
  obtain ps where ps: "list_all2 (parent_found (pt_node (run k)) (cast_by (run k))) (h_parents h) ps" "ps \<noteq> []"
    "\<forall>y \<in> set ps. cert_round y + 1 = h_round h" "quorum_threshold c \<le> sum_list (map (\<lambda>y. stake_of c (cert_origin y)) ps)"
    using assms(3) unfolding grounded_def k by blast
  have "in_dag dk c (dag_of honest run) d y" if "parent_found (pt_node (run k)) (cast_by (run k)) d y" for d y
    using that assms(2) k by (auto simp: parent_found_def in_dag_def dag_of_def sent_by_def cast_by_def set_to_consensus)
  then have "list_all2 (in_dag dk c (dag_of honest run)) (h_parents h) ps" by (rule list_all2_mono [OF ps(1)])
  then show thesis using ps(2-4) that by blast
qed

lemma in_dag_digests: "list_all2 (in_dag dk c G) ds ps \<Longrightarrow> ds = map (cert_digest dk) ps"
  by (induction rule: list_all2_induct) (simp_all add: in_dag_def)

text \<open>The parents of a certificate of round 2 or later are certificates of the DAG with a quorum.\<close>

lemma dag_cited:
  assumes "committee_ok c" and "sum (stake_nat c) (set (names c) - honest) < unat (validity_threshold c)"
    and "honest_runs dk c honest run" and "crypto_ok dk c honest run" and "\<forall>x \<in> dag_of honest run. cert_round x \<noteq> 0"
    and x: "x \<in> dag_of honest run" and "cert_round x \<noteq> 1"
  shows "unat (quorum_threshold c) \<le> sum (stake_nat c) (cited_authors dk c (dag_of honest run) x)"
proof -
  let ?G = "dag_of honest run"
  have x0: "cert_round x \<noteq> 0" using assms(5) x by blast
  obtain k where k: "k \<in> honest" "k \<in> signers x" by (rule dag_signers [OF assms(1-3) x x0 x x0])
  obtain v h where v: "voted_header (run k) (headers_of honest run) v h" "v_round v = cert_round x" "h_parents h = h_parents (c_header x)"
    using certificate_voted [OF assms(3,4) x x0 k] by blast
  have "grounded (pt_node (run k)) (headers_of honest run) (cast_by (run k)) h" using v(1) by (simp add: voted_header_def)
  from grounded_parents [OF assms(3) k(1) this] obtain ps where
    all: "list_all2 (in_dag dk c ?G) (h_parents h) ps" "\<forall>y \<in> set ps. cert_round y + 1 = h_round h"
      "quorum_threshold c \<le> sum_list (map (\<lambda>y. stake_of c (cert_origin y)) ps)"
    by metis
  have "h_round h = cert_round x" using v(1,2) by (simp add: voted_header_def)
  note ps = all [unfolded this v(3)]
  have digests: "h_parents (c_header x) = map (cert_digest dk) ps" by (rule in_dag_digests [OF ps(1)])
  have G: "y \<in> ?G" if "y \<in> set ps" for y
  proof -
    have "y \<notin> set (genesis c)" using genesis_round [of y c] ps(2) [THEN bspec, OF that] assms(7) by fastforce
    then show ?thesis using ps(1) that by (auto simp: list_all2_conv_all_nth in_dag_def in_set_conv_nth)
  qed
  have "distinct (h_parents (c_header x))"
    using assms(4) dag_certificate(1) [OF assms(3) x x0] unfolding crypto_ok_def by blast
  then have inj: "inj_on (cert_digest dk) (set ps)" and dist: "distinct ps" using digests by (simp_all add: distinct_map)
  have "inj_on cert_origin (set ps)"
  proof (rule inj_onI)
    fix y z
    assume yz: "y \<in> set ps" "z \<in> set ps" "cert_origin y = cert_origin z"
    then have "cert_round y = cert_round z" using ps(2) by (metis add_right_cancel)
    then have "slot y = slot z" using yz(3) by (simp add: slot_def)
    then have "outline y = outline z"
      using dag_slot [OF assms(1-4)] G assms(5) yz(1,2) by blast
    then show "y = z" using inj_onD [OF inj] outline_eq(4) yz(1,2) by blast
  qed
  then have "distinct (map cert_origin ps)" using dist by (simp add: distinct_map)
  from unat_sum_stake [OF assms(1) this]
  have "unat (quorum_threshold c) \<le> sum (stake_nat c) (cert_origin ` set ps)"
    using ps(3) by (simp add: word_le_nat_alt comp_def)
  also have "\<dots> = sum (stake_nat c) (cert_origin ` set ps \<inter> set (names c))" by (rule committee.weight_restrict) simp
  also have "\<dots> \<le> sum (stake_nat c) (cited_authors dk c ?G x)"
  proof (rule sum_mono2)
    show "cert_origin ` set ps \<inter> set (names c) \<subseteq> cited_authors dk c ?G x"
    proof
      fix n
      assume "n \<in> cert_origin ` set ps \<inter> set (names c)"
      then obtain y where y: "y \<in> set ps" "n = cert_origin y" "n \<in> set (names c)" by blast
      have "cert_round y = cert_round x - 1" using ps(2) y(1) by (metis add_diff_cancel)
      moreover have "cites x (cert_digest dk y)" using y(1) digests by (simp add: cites_def)
      ultimately show "n \<in> cited_authors dk c ?G x" using y G [OF y(1)] by (auto simp: cited_authors_def slot_def)
    qed
  qed (simp_all add: cited_authors_def)
  finally show ?thesis .
qed

lemma dag_certified:
  assumes "committee_ok c" and "sum (stake_nat c) (set (names c) - honest) < unat (validity_threshold c)"
    and "honest_runs dk c honest run" and "crypto_ok dk c honest run"
    and "\<forall>x \<in> dag_of honest run. cert_round x \<noteq> 0 \<and> unat (cert_round x) < 2 ^ 63"
  shows "certified dk c (dag_of honest run)"
proof -
  let ?G = "dag_of honest run"
  have pos: "\<forall>x \<in> ?G. cert_round x \<noteq> 0" using assms(5) by blast
  have "outline x = outline y" if "x \<in> ?G" "y \<in> ?G \<union> set (genesis c)" "cert_digest dk x = cert_digest dk y" for x y
  proof -
    have "vote_bytes (h_id (c_header x)) (cert_round x) (cert_origin x) = vote_bytes (h_id (c_header y)) (cert_round y) (cert_origin y)"
    proof (rule inj_onD)
      show "inj_on (hash32 dk) (hashed_bytes c honest run)" using assms(4) by (simp add: crypto_ok_def)
      show "hash32 dk (vote_bytes (h_id (c_header x)) (cert_round x) (cert_origin x)) =
          hash32 dk (vote_bytes (h_id (c_header y)) (cert_round y) (cert_origin y))"
        using that(3) by (simp add: cert_digest_def)
    qed (use that in \<open>auto simp: hashed_bytes_def hashed_def\<close>)
    then have "slot x = slot y" "cert_round y \<noteq> 0" using pos that(1) by (auto simp: slot_def)
    then show ?thesis
      using dag_slot [OF assms(1-4) that(1)] pos that(1,2) genesis_round by blast
  qed
  then show ?thesis
    using assms(1,5) dag_slot [OF assms(1-4)] dag_cited [OF assms(1-4) pos] pos unfolding certified_def by blast
qed

section \<open>Headers are not parents\<close>

text \<open>
  The store does not tell certificates and headers apart. A header whose id is a parent digest would have the bytes of a vote, so a
  single parent, which has no quorum.
\<close>

lemma header_bytes_length: "length (header_bytes h) = 40 + 36 * length (h_payload h) + 32 * length (h_parents h)"
proof -
  have "length (concat (map (\<lambda>(x, y). digest_to_vec x @ le_bytes 4 y) p)) = 36 * length p" for p :: "(digest \<times> worker_id) list"
    by (induction p) auto
  moreover have "length (concat (map digest_to_vec ds)) = 32 * length ds" for ds by (induction ds) auto
  ultimately show ?thesis by (simp add: header_bytes_def)
qed

lemma honest_ids_apart:
  assumes "committee_ok c" and "sum (stake_nat c) (set (names c) - honest) < unat (validity_threshold c)"
    and "honest_runs dk c honest run" and "crypto_ok dk c honest run"
    and "\<forall>x \<in> dag_of honest run. cert_round x \<noteq> 0 \<and> unat (cert_round x) < 2 ^ 63"
    and "\<forall>n. stake_of c n < quorum_threshold c" and "a \<in> honest"
  shows "ids_apart (pt_node (run a)) (primary_outs (pt_outputs (run a)))"
  unfolding ids_apart_def
proof (intro allI impI notI, elim conjE)
  let ?m = "run a" and ?G = "dag_of honest run"
  fix h x
  assume wrote: "StoreWrite (digest_to_vec (h_id h)) (ser_header (nd_codec (pt_node ?m)) h) \<in> set (core_actions (primary_outs (pt_outputs ?m)))"
    and given: "x \<in> set (to_consensus (primary_outs (pt_outputs ?m)))" and id: "h_id h \<in> set (h_parents (c_header x))"
  have m: "nd_crypto (pt_node ?m) = dk" "nd_committee (pt_node ?m) = c" "codec_ok (nd_codec (pt_node ?m)) ?G"
    using assms(3,7) by (auto simp: honest_runs_def platform_ok_def)
  obtain s where "core_sound (pt_node ?m) (headers_of honest run) (cast_by ?m) s"
    using honest_sound [OF assms(3,7)] by blast
  then have "action_sound (pt_node ?m) (headers_of honest run) (cast_by ?m)
      (StoreWrite (digest_to_vec (h_id h)) (ser_header (nd_codec (pt_node ?m)) h))"
    using wrote by (simp add: core_sound_def cast_by_def del: action_sound.simps)
  moreover have "\<not> stored_certificate (pt_node ?m) (cast_by ?m) (h_id h) (ser_header (nd_codec (pt_node ?m)) h)"
  proof
    assume "stored_certificate (pt_node ?m) (cast_by ?m) (h_id h) (ser_header (nd_codec (pt_node ?m)) h)"
    then obtain z where "z \<in> ?G" "ser_header (nd_codec (pt_node ?m)) h = ser_certificate (nd_codec (pt_node ?m)) z"
      using assms(7) by (auto simp: stored_certificate_def dag_of_def sent_by_def cast_by_def set_to_consensus)
    then show False using m(3) unfolding codec_ok_def by (metis option.distinct(1))
  qed
  ultimately obtain g where g: "grounded (pt_node ?m) (headers_of honest run) (cast_by ?m) g" "h_id g = h_id h"
    by (auto simp: stored_header_def)
  obtain ps where ps: "list_all2 (in_dag dk c ?G) (h_parents g) ps" "ps \<noteq> []" "\<forall>y \<in> set ps. cert_round y + 1 = h_round g"
    "quorum_threshold c \<le> sum_list (map (\<lambda>y. stake_of c (cert_origin y)) ps)"
    by (rule grounded_parents [OF assms(3,7) g(1)])
  have "h_round g \<noteq> 0"
  proof -
    obtain y where y: "y \<in> set ps" using ps(2) by (cases ps) auto
    then have "y \<in> set (genesis c) \<or> y \<in> ?G" using ps(1) by (auto simp: list_all2_conv_all_nth in_dag_def in_set_conv_nth)
    then have "unat (cert_round y) < 2 ^ 63" using assms(5) genesis_round [of y c] by auto
    then have "cert_round y \<noteq> - 1" by (auto simp: unsigned_minus_1_eq_mask mask_eq_exp_minus_1)
    then have "cert_round y + 1 \<noteq> 0" by (simp add: eq_neg_iff_add_eq_0)
    then show ?thesis using ps(3) y by auto
  qed
  then have gs: "g \<in> headers_of honest run" "header_digest dk g = h_id h" using g m(1) by (auto simp: grounded_def header_sound_def)
  have x: "x \<in> ?G" using given assms(7) by (auto simp: dag_of_def sent_by_def)
  then have x0: "cert_round x \<noteq> 0" using assms(5) by blast
  obtain k where k: "k \<in> honest" "k \<in> signers x" by (rule dag_signers [OF assms(1-3) x x0 x x0])
  obtain v f where v: "voted_header (run k) (headers_of honest run) v f" "h_parents f = h_parents (c_header x)"
    using certificate_voted [OF assms(3,4) x x0 k] by blast
  have "grounded (pt_node (run k)) (headers_of honest run) (cast_by (run k)) f" using v(1) by (simp add: voted_header_def)
  from grounded_parents [OF assms(3) k(1) this] obtain qs where "list_all2 (in_dag dk c ?G) (h_parents (c_header x)) qs"
    unfolding v(2) by metis
  then obtain y where y: "in_dag dk c ?G (h_id h) y" using id by (auto simp: list_all2_conv_all_nth in_set_conv_nth)
  have "header_bytes g = vote_bytes (h_id (c_header y)) (cert_round y) (cert_origin y)"
  proof (rule inj_onD)
    show "inj_on (hash32 dk) (hashed_bytes c honest run)" using assms(4) by (simp add: crypto_ok_def)
    show "hash32 dk (header_bytes g) = hash32 dk (vote_bytes (h_id (c_header y)) (cert_round y) (cert_origin y))"
      using gs(2) y by (simp add: header_digest_def in_dag_def cert_digest_def)
  qed (use gs(1) y in \<open>auto simp: hashed_bytes_def hashed_def in_dag_def\<close>)
  then have "40 + 36 * length (h_payload g) + 32 * length (h_parents g) = 72"
    unfolding header_bytes_length [symmetric] by (simp add: vote_bytes_def)
  then have "length (h_parents g) = 1" by presburger
  then have "length ps = 1" using list_all2_lengthD [OF ps(1)] by simp
  then obtain z where "ps = [z]" by (cases ps) auto
  then show False using ps(4) assms(6) by (auto simp: not_le [symmetric])
qed

section \<open>Properties\<close>

text \<open>The leaders that the consensus of an authority has committed, in order.\<close>

definition leaders_of :: "'db participant \<Rightarrow> header list" where
  "leaders_of m = map outline (committed_leaders (consensus_of (pt_node m) (pt_env m)) (processed (pt_final m) (pt_outputs m)))"

lemma honest_on_chain:
  assumes "committee_ok c" and "\<forall>n. stake_of c n < quorum_threshold c"
    and "sum (stake_nat c) (set (names c) - honest) < unat (validity_threshold c)"
    and "honest_runs dk c honest run" and "crypto_ok dk c honest run"
    and "\<forall>x \<in> dag_of honest run. cert_round x \<noteq> 0 \<and> unat (cert_round x) < 2 ^ 63"
    and "a \<in> honest"
  shows "\<exists>st. on_chain dk c (dag_of honest run) st (leaders_of (run a))"
proof -
  let ?m = "run a"
  have m: "participates ?m" "nd_crypto (pt_node ?m) = dk" "nd_committee (pt_node ?m) = c" "unat (nd_gc_depth (pt_node ?m)) < 2 ^ 63"
    "rocksdb_ok (nd_rocksdb (pt_node ?m))"
    using assms(4,7) by (auto simp: honest_runs_def platform_ok_def)
  obtain d n begun where start: "authority_spawn (pt_node ?m) (pt_params ?m) (pt_env ?m) d = Ok (n, begun)"
    and empty: "\<And>key. stored (nd_rocksdb (pt_node ?m)) d key = None"
    and run: "authority_run (pt_node ?m) (pt_params ?m) (pt_env ?m) (pt_events ?m) n = (Ok (), pt_final ?m, pt_outputs ?m)"
    using m(1) by (auto simp: participates_def)
  have sub: "set (to_consensus (primary_outs (pt_outputs ?m))) \<subseteq> dag_of honest run" using assms(7) by (auto simp: dag_of_def sent_by_def)
  from processed_on_chain [OF m(5) start empty run honest_ids_apart [OF assms(1,3-6,2,7)]
      dag_certified [OF assms(1,3-6), folded m(2,3)] sub m(4)]
  show ?thesis by (simp add: leaders_of_def m(2,3))
qed

text \<open>
  C1: The honest authorities commit the same leaders: while the others hold less than the validity threshold of the stake, whatever
  they send, the sequences of leaders that two honest authorities have committed are one a prefix of the
  other. That the certificates handed to consensus form a certified DAG, in causal order, follows from the code of the
  primaries, as does that an honest authority votes once in a slot. Assumed are the cryptography, stores and serialisation that
  work, that no authority has a quorum alone, that no certificate is of round 0 or of a round beyond \<open>2 ^ 63\<close>, and that no
  honest core task votes for a round after it has garbage collected it (\<open>votes_in_time\<close>): it checks this for messages from the
  network, but not for headers that a waiter resumes.
\<close>

theorem honest_authorities_agree:
  assumes "committee_ok c" and "\<forall>n. stake_of c n < quorum_threshold c"
    and "sum (stake_nat c) (set (names c) - honest) < unat (validity_threshold c)"
    and "honest_runs dk c honest run" and "crypto_ok dk c honest run"
    and "\<forall>x \<in> dag_of honest run. cert_round x \<noteq> 0 \<and> unat (cert_round x) < 2 ^ 63"
    and "a \<in> honest" and "b \<in> honest"
  shows "prefix (leaders_of (run a)) (leaders_of (run b)) \<or> prefix (leaders_of (run b)) (leaders_of (run a))"
  using honest_on_chain [OF assms(1-7)] honest_on_chain [OF assms(1-6,8)] on_chain_agree [OF dag_certified [OF assms(1,3-6)]]
  by blast

section \<open>A concrete system\<close>

text \<open>Authorities 1, 3 and 4 of the example committee receive the header of authority 2 and its certificate; authority 2 is Byzantine.\<close>

definition ex_codec :: bincode where
  "ex_codec = ex_bincode\<lparr>de_certificate := \<lambda>bs. if bs = [1] then Some ex_certified_block else None\<rparr>"

definition ex_member :: "public_key \<Rightarrow> (bytes \<times> bytes) list node" where
  "ex_member k = (ex_primary k)\<lparr>nd_codec := ex_codec\<rparr>"

lemma ex_member_simps [simp]:
  "nd_crypto (ex_member k) = ex_dalek" "nd_codec (ex_member k) = ex_codec" "nd_rocksdb (ex_member k) = ex_rocksdb"
  "nd_name (ex_member k) = k" "nd_committee (ex_member k) = ex_committee" "nd_gc_depth (ex_member k) = 1"
  "nd_secret (ex_member k) = nd_secret (ex_primary k)" "sync_genesis (ex_member k) = sync_genesis ex_node"
  by (simp_all add: ex_member_def sync_genesis_def)

lemma ex_member_header:
  assumes "vote_new ex_dalek (nd_secret (ex_primary k)) (ex_block 2) k = Ok v" and "k \<noteq> PublicKey 2" and "v_origin v = PublicKey 2"
  shows "header_with_fuel z (Suc n) (ex_member k) (ex_block 2) s =
   (let s1 = fst (snd (mark_processing (ex_block 2) s));
        s2 = s1\<lparr>k_db := db_put ex_rocksdb (k_db s1) (digest_to_vec (Digest 259)) [0]\<rparr>;
        s3 = fst (snd (mark_voted (ex_block 2) s2))
    in if PublicKey 2 \<in> or_default {} (k_last_voted s 1)
       then (Ok (), s3, [StoreWrite (digest_to_vec (Digest 259)) [0]])
       else case send_vote (ex_member k) (ex_block 2) v s3
         of (r, s', out) \<Rightarrow> (r, s', StoreWrite (digest_to_vec (Digest 259)) [0] # VoteCreated v # out))"
proof -
  have "get_parents (ex_member k) d (ex_block 2) = (Ok ex_parents, [])" "missing_payload (ex_member k) d (ex_block 2) = (Ok False, [])" for d
    by (simp_all add: get_parents_def missing_payload_def ex_block_def ex_sync_genesis ex_parents_def header_default_def
        certificate_default_def)
  then show ?thesis
    using assms unfolding header_with_fuel_blocks
    by (subst header_block_passes)
     (auto simp: ex_block_passes op_then_def op_bind_def write_store_def cast_block_run mark_processing_def
       mark_voted_def Let_def ex_codec_def ex_bincode_def split: prod.splits)
qed

lemma ex_member_sane:
  "k_gc_round s = 0 \<Longrightarrow> sanitize_header (ex_member k) (ex_block 2) s = Ok ()"
  "k_gc_round s = 0 \<Longrightarrow> sanitize_certificate (ex_member k) ex_certified_block s = Ok ()"
  using ex_block_sane ex_certified_sane by (simp_all add: sanitize_header_def sanitize_certificate_def)

lemma ex_member_deliver: "deliver_certificate (ex_member k) d ex_certified_block = (Ok True, [])"
  using ex_deliver [of d] by (simp add: deliver_certificate_def ancestors_present_ok is_genesis_digest_def has_key_def)

lemma ex_member_actions:
  assumes "k \<noteq> PublicKey 2" and "pr_core p = core_new []" and "consensus_round p = 0" and "rx_primary_messages p = []"
  shows "\<exists>p' out v. primary_run (ex_member k) parameters_default ex_causal_flow p = (Ok (), p', out) \<and> consensus_round p' = 0 \<and>
    to_consensus out = [ex_certified_block] \<and> votes_created (core_actions out) = [v] \<and>
    v_id v = Digest 259 \<and> v_round v = 1 \<and> v_origin v = PublicKey 2 \<and> (\<forall>h. ProposerAction (NewHeader h) \<notin> set out)"
proof -
  obtain v where v: "vote_new ex_dalek (nd_secret (ex_primary k)) (ex_block 2) k = Ok v"
    "v_id v = Digest 259" "v_round v = 1" "v_origin v = PublicKey 2"
    using ex_primary_vote by blast
  show ?thesis
    using assms(2-4) ex_appended v
    by (auto simp add: ex_causal_flow_def primary_run_def network_task_def dispatch_primary_def ex_codec_def ex_bincode_def receive_def core_task_def
      core_eval ex_member_header [OF v(1) assms(1) v(4)] ex_member_sane ex_member_deliver acks_sent_def core_actions_def to_consensus_def is_processing_def
      simp del: header_with_fuel.simps cong: op_congs)
qed

lemma ex_member_starts:
  assumes "k \<in> set (names ex_committee)"
  obtains p begun where "primary_spawn (ex_member k) parameters_default Map.empty [] = Ok (p, begun)"
proof -
  have "(\<exists>a. primary_of ex_committee k = Ok a) \<and> (\<exists>gc. garbage_collector_spawn (ex_member k) = Ok gc) \<and>
      (\<exists>pr. proposer_spawn (ex_member k) Map.empty (header_size parameters_default) = Ok pr)"
    using assms unfolding ex_committee_names
    by (auto simp: primary_of_def garbage_collector_spawn_def proposer_spawn_def pause_during_silence_def our_workers_def
        ex_committee_def)
  then show thesis using that by (auto simp: primary_spawn_def case_prod_unfold)
qed

text \<open>What such an authority has done at the end of its run.\<close>

definition ex_outcome :: "public_key \<Rightarrow> (bytes \<times> bytes) list participant \<Rightarrow> bool" where
  "ex_outcome k m \<longleftrightarrow> participates m \<and> pt_node m = ex_member k \<and> pt_events m = ex_authority_events \<and>
     sent_by m = [ex_certified_block] \<and> (\<forall>h. ProposerAction (NewHeader h) \<notin> set (primary_outs (pt_outputs m))) \<and>
     (\<exists>v. votes_created (cast_by m) = [v] \<and> v_id v = Digest 259 \<and> v_round v = 1 \<and> v_origin v = PublicKey 2)"

lemma ex_member_run:
  assumes "k \<in> set (names ex_committee)" and "k \<noteq> PublicKey 2"
  shows "\<exists>m. ex_outcome k m"
proof -
  obtain p begun where p: "primary_spawn (ex_member k) parameters_default Map.empty [] = Ok (p, begun)"
    by (rule ex_member_starts [OF assms(1)])
  define n where "n = \<lparr>an_primary = p, an_consensus = state_new ex_dalek (genesis ex_committee), rx_new_certificates = [], rx_output = []\<rparr>"
  have spawn: "authority_spawn (ex_member k) parameters_default Map.empty [] = Ok (n, map PrimaryOutput begun)"
    by (simp add: authority_spawn_def p n_def)
  obtain p' out v where run: "primary_run (ex_member k) parameters_default ex_causal_flow (an_primary n) = (Ok (), p', out)"
    and round: "consensus_round p' = 0"
    and sent: "to_consensus out = [ex_certified_block]" and quiet: "\<forall>h. ProposerAction (NewHeader h) \<notin> set out"
    and vote: "votes_created (core_actions out) = [v]" "v_id v = Digest 259" "v_round v = 1" "v_origin v = PublicKey 2"
    using ex_member_actions [OF assms(2), of p] primary_spawn_fields [OF p] by (auto simp: n_def)
  let ?n = "n\<lparr>an_primary := p', rx_new_certificates := [ex_certified_block]\<rparr>"
  have "authority_run (ex_member k) parameters_default Map.empty (map PrimaryEvent ex_causal_flow) n = (Ok (), ?n, map PrimaryOutput out)"
    using authority_run_primary_events [OF run, of Map.empty] sent by (simp add: ex_causal_flow_def n_def)
  moreover obtain st where "consensus_step (consensus_of (ex_member k) Map.empty) ex_certified_block (an_consensus n) = Ok (st, [])"
    by (simp add: consensus_step_def try_commit_def cert_round_def)
  then have "authority_run (ex_member k) parameters_default Map.empty [ConsensusReceives] ?n =
      (Ok (), ?n\<lparr>rx_new_certificates := [], an_consensus := st\<rparr>, [])"
    by (simp add: authority_run_def receive_def consensus_part_def op_then_def op_bind_def n_def)
  ultimately have all: "authority_run (ex_member k) parameters_default Map.empty ex_authority_events n =
      (Ok (), ?n\<lparr>rx_new_certificates := [], an_consensus := st\<rparr>, map PrimaryOutput out)"
    by (simp add: ex_authority_events_def authority_run_def op_for_append op_then_def op_bind_def)
  have "votes_in_time (ex_member k) parameters_default Map.empty ex_authority_events n"
    by (rule votes_in_time_early [OF all authority_starts(1) [OF spawn]]) (simp add: round)
  moreover have "stored ex_rocksdb [] key = None" for key by (simp add: stored_def ex_rocksdb_def)
  ultimately have "ex_outcome k \<lparr>pt_node = ex_member k, pt_params = parameters_default, pt_env = Map.empty, pt_events = ex_authority_events,
      pt_final = ?n\<lparr>rx_new_certificates := [], an_consensus := st\<rparr>, pt_outputs = map PrimaryOutput out\<rparr>"
    using all spawn sent quiet vote unfolding ex_outcome_def participates_def sent_by_def cast_by_def
    by (simp del: votes_created_simps) blast
  then show ?thesis by blast
qed

lemma ex_member_seen:
  assumes "ex_outcome k m"
  shows "seen_by m = {ex_block 2}"
proof -
  have events: "{bs. PrimaryEvent (PrimaryFrame bs) \<in> set ex_authority_events} = {[9], [10]}"
    by (auto simp: ex_authority_events_def ex_causal_flow_def)
  have "seen_by m = {h. \<exists>bs \<in> {bs. PrimaryEvent (PrimaryFrame bs) \<in> set ex_authority_events}. \<exists>msg. de_primary_message ex_codec bs = Some msg \<and>
        (msg = HeaderMsg h \<or> (\<exists>x. msg = CertificateMsg x \<and> c_header x = h))}"
    using assms by (auto simp: seen_by_def ex_outcome_def)
  also have "\<dots> = {ex_block 2}" unfolding events by (auto simp: ex_codec_def ex_bincode_def)
  finally show ?thesis .
qed

lemma ex_hashes:
  "header_digest ex_dalek (ex_block 2) = Digest 259" "hash32 ex_dalek (vote_bytes (Digest 259) 1 (PublicKey 2)) = Digest 258"
  "y \<in> set (genesis ex_committee) \<Longrightarrow> cert_digest ex_dalek y \<in> {Digest 1, Digest 2, Digest 3, Digest 4}"
proof -
  show "header_digest ex_dalek (ex_block 2) = Digest 259"
    using ex_block_verify by (simp add: header_verify_def and_then_Ok_iff ensure_Ok_iff)
  show "hash32 ex_dalek (vote_bytes (Digest 259) 1 (PublicKey 2)) = Digest 258"
    using ex_certified_digest by (simp add: cert_digest_def cert_round_def cert_origin_def)
  show "cert_digest ex_dalek y \<in> {Digest 1, Digest 2, Digest 3, Digest 4}" if "y \<in> set (genesis ex_committee)"
  proof -
    have "cert_digest ex_dalek y \<in> fst ` set (sync_genesis ex_node)" using that by (auto simp: sync_genesis_def image_image)
    then show ?thesis unfolding ex_sync_genesis by auto
  qed
qed

lemma ex_crypto_ok:
  assumes "\<forall>k \<in> honest. ex_outcome k (run k)" and "honest \<noteq> {}"
  shows "dag_of honest run = {ex_certified_block}" "crypto_ok ex_dalek ex_committee honest run"
proof -
  let ?outs = "\<lambda>k. primary_outs (pt_outputs (run k))"
  show dag: "dag_of honest run = {ex_certified_block}" using assms by (auto simp: dag_of_def ex_outcome_def)
  have headers: "headers_of honest run = {ex_block 2}" using assms ex_member_seen unfolding headers_of_def by fastforce
  have votes: "\<exists>v. votes_created (core_actions (?outs k)) = [v] \<and> v_id v = Digest 259 \<and> v_round v = 1 \<and> v_origin v = PublicKey 2"
    if "k \<in> honest" for k
    using assms(1) that by (auto simp: ex_outcome_def cast_by_def)
  have "vote_digest ex_dalek v = cert_digest ex_dalek ex_certified_block"
    if "v_id v = Digest 259" "v_round v = 1" "v_origin v = PublicKey 2" for v
    using that by (simp add: vote_digest_def cert_digest_def cert_round_def cert_origin_def)
  then have unforged: "unforged ex_dalek ?outs honest ex_certified_block"
    using votes unfolding unforged_def by (metis IntD1 list.set_intros(1))
  let ?B = "{header_bytes (ex_block 2), vote_bytes (Digest 259) 1 (PublicKey 2)} \<union>
      (\<lambda>y. vote_bytes (h_id (c_header y)) (cert_round y) (cert_origin y)) ` set (genesis ex_committee)"
  have "hashed_bytes ex_committee honest run \<subseteq> ?B"
    using votes by (fastforce simp: hashed_bytes_def hashed_def dag headers cert_round_def cert_origin_def)
  moreover have "inj_on (hash32 ex_dalek) ?B"
  proof -
    let ?f = "\<lambda>y. vote_bytes (h_id (c_header y)) (cert_round y) (cert_origin y)" and ?Z = "set (genesis ex_committee)"
    have digest: "hash32 ex_dalek (?f y) = cert_digest ex_dalek y" for y by (simp add: cert_digest_def)
    have "inj_on (cert_digest ex_dalek) ?Z"
    proof (rule inj_onI)
      fix y z
      assume yz: "y \<in> ?Z" "z \<in> ?Z" "cert_digest ex_dalek y = cert_digest ex_dalek z"
      have "(cert_digest ex_dalek u, u) \<in> set (sync_genesis ex_node)" if "u \<in> ?Z" for u using that by (simp add: sync_genesis_def)
      from this [OF yz(1)] this [OF yz(2)] show "y = z" using yz(3) unfolding ex_sync_genesis by auto
    qed
    then have "inj_on (hash32 ex_dalek) (?f ` ?Z)" by (intro inj_on_imageI) (simp add: comp_def digest)
    moreover have "hash32 ex_dalek ` ?f ` ?Z \<subseteq> {Digest 1, Digest 2, Digest 3, Digest 4}"
      unfolding image_image digest using ex_hashes(3) by blast
    from subsetD [OF this, of "Digest 258"] subsetD [OF this, of "Digest 259"]
    have "Digest 258 \<notin> hash32 ex_dalek ` ?f ` ?Z" "Digest 259 \<notin> hash32 ex_dalek ` ?f ` ?Z" by fastforce+
    moreover have "hash32 ex_dalek (header_bytes (ex_block 2)) = Digest 259" using ex_hashes(1) by (simp add: header_digest_def)
    ultimately show ?thesis
      using ex_hashes(2) unfolding insert_is_Un [symmetric] Un_insert_left Un_empty_left inj_on_insert by auto
  qed
  ultimately have "inj_on (hash32 ex_dalek) (hashed_bytes ex_committee honest run)" by (rule inj_on_subset [rotated])
  then show "crypto_ok ex_dalek ex_committee honest run"
    using unforged by (simp add: crypto_ok_def dag headers ex_block_def)
qed

theorem honest_authorities_agree_witness:
  "\<exists>run :: public_key \<Rightarrow> (bytes \<times> bytes) list participant.
     honest_runs ex_dalek ex_committee {PublicKey 1, PublicKey 3, PublicKey 4} run \<and>
     sent_by (run (PublicKey 1)) = [ex_certified_block] \<and> sent_by (run (PublicKey 3)) = [ex_certified_block] \<and>
     (prefix (leaders_of (run (PublicKey 1))) (leaders_of (run (PublicKey 3))) \<or>
      prefix (leaders_of (run (PublicKey 3))) (leaders_of (run (PublicKey 1))))"
proof -
  let ?honest = "{PublicKey 1, PublicKey 3, PublicKey 4}"
  have "\<forall>k \<in> ?honest. \<exists>m. ex_outcome k m" by (intro ballI ex_member_run) auto
  then obtain run where run: "\<forall>k \<in> ?honest. ex_outcome k (run k)" by metis
  note dag = ex_crypto_ok(1) [OF run] and crypto = ex_crypto_ok(2) [OF run]
  have sent: "sent_by (run k) = [ex_certified_block]" if "k \<in> ?honest" for k using run that by (auto simp: ex_outcome_def)
  have honest: "honest_runs ex_dalek ex_committee ?honest run"
    unfolding honest_runs_def
  proof
    fix k
    assume "k \<in> ?honest"
    then have k: "ex_outcome k (run k)" using run by blast
    have "codec_ok ex_codec (dag_of ?honest run)" using dag by (simp add: codec_ok_def ex_codec_def ex_bincode_def)
    then show "participates (run k) \<and> nd_crypto (pt_node (run k)) = ex_dalek \<and> nd_committee (pt_node (run k)) = ex_committee \<and>
        unat (nd_gc_depth (pt_node (run k))) < 2 ^ 63 \<and> platform_ok (pt_node (run k)) (dag_of ?honest run)"
      using k ex_committee_ok by (simp add: ex_outcome_def platform_ok_def)
  qed
  have "prefix (leaders_of (run (PublicKey 1))) (leaders_of (run (PublicKey 3))) \<or>
      prefix (leaders_of (run (PublicKey 3))) (leaders_of (run (PublicKey 1)))"
  proof (rule honest_authorities_agree [OF ex_committee_ok _ _ honest crypto])
    show "\<forall>n. stake_of ex_committee n < quorum_threshold ex_committee" by (simp add: word_less_nat_alt)
    have "set (names ex_committee) - ?honest = {PublicKey 2}" by (simp add: insert_Diff_if)
    then show "sum (stake_nat ex_committee) (set (names ex_committee) - ?honest) < unat (validity_threshold ex_committee)"
      by (simp add: stake_nat_def)
    show "\<forall>x \<in> dag_of ?honest run. cert_round x \<noteq> 0 \<and> unat (cert_round x) < 2 ^ 63" using dag by (simp add: cert_round_def)
  qed (use sent in simp_all)
  moreover have "sent_by (run (PublicKey 1)) = [ex_certified_block]" "sent_by (run (PublicKey 3)) = [ex_certified_block]"
    by (rule sent, simp)+
  ultimately show ?thesis using honest by (intro exI [of _ run]) (simp only: simp_thms)
qed

end
