(* ===== verification/Spec2Isabelle.thy ===== *)
theory Spec2Isabelle
  imports NodeMain Client Receiver CoreNetwork SignatureService Formatting HonestAuthorities
begin

text \<open>
  A verification of Narwhal and Tusk, the mempool and the asynchronous consensus of this repository. A node of
  the system has a primary, workers and a consensus task. Clients send transactions to workers, which batch
  them, broadcast the batches reliably and report their digests to the primary. The proposer of a primary puts
  digests into headers, one per round, on top of the certificates of the round before; the other primaries vote
  for a header, a quorum of votes makes a certificate, and the certificates form a DAG. Consensus reads the DAG,
  picks leaders and orders the history of each leader.

  \<^bold>\<open>Conventions.\<close> Integers are words of their width and wrap as in a release build. An error
  is \<open>Inl (Error e)\<close>, a panic \<open>Inl Panic\<close>. A task is a state and an operation
  (\<open>Effects\<close>): the new state and the outputs up to an error are kept. \<open>HashMap\<close>s that
  are iterated are association lists in insertion order, \<open>BTreeMap\<close>s are strictly sorted lists,
  futures in a \<open>FuturesUnordered\<close> are lists of which any element may be polled. Clocks, random
  numbers and the moments at which messages arrive are inputs, so a theorem on runs covers every schedule.
  In the runs of a primary, a worker or an authority, the panic of a task ends the run; in the program it
  ends only that task (\<open>tokio::spawn\<close>), which here is a task that is not scheduled any more.
  Third-party code is a parameter: the functions of \<open>ed25519_dalek\<close>, \<open>sha2\<close> and
  \<open>base64\<close> (record \<open>dalek\<close>), \<open>bincode\<close> (records \<open>bincode\<close>
  and \<open>worker_codec\<close>) and RocksDB (record \<open>rocksdb\<close>); what a theorem needs of them is
  a hypothesis, as \<open>rocksdb_ok\<close>: a read returns the last value written.

  \<^bold>\<open>Theories and sources.\<close>

  \<^item> \<open>Prelude\<close>: results, words and bytes, sorted maps, runs of step functions;
    \<open>Effects\<close>: operations with state, outputs and errors, with the locales
    \<open>transition\<close> (a transitive relation that compositions keep) and \<open>op_invariant\<close>.
  \<^item> \<open>Crypto\<close>, \<open>SignatureService\<close> (\<open>crypto/src/lib.rs\<close>): digests,
    keys, signatures. Keys survive base64; the task that holds the secret key answers its callers as the call
    \<open>request_signature\<close> does, which the other theories use.
  \<^item> \<open>Config\<close> (\<open>config/src/lib.rs\<close>): committee, stake, thresholds. The locale
    \<open>weighted_quorum\<close> says that two quorums overlap; it is interpreted on the committee while the
    total stake is below \<open>2 ^ 31\<close>, and the theory shows what happens at that bound.
  \<^item> \<open>Messages\<close>, \<open>Aggregators\<close> (\<open>primary/src/messages.rs\<close>,
    \<open>aggregators.rs\<close>): headers, votes, certificates and their verification; the collection of votes
    and of parents, each complete at most once and exactly with a quorum. Two verified certificates share a
    signer.
  \<^item> \<open>Adversary\<close> (\<open>primary/src/adversary.rs\<close>): the schedule of silent
    authorities and of direct commits.
  \<^item> \<open>ConsensusState\<close>, \<open>ConsensusOrder\<close>, \<open>ConsensusPaths\<close>,
    \<open>Consensus\<close>, \<open>ConsensusSafety\<close> (\<open>consensus/src/lib.rs\<close>): the DAG and
    its cleanup, the walk to past leaders, the depth-first flattening of a history (a \<open>function\<close>
    with its termination proof), the commit rule and the task. Shown: nothing is committed twice, a supported
    leader is committed and is in the commits of every replica that goes further, the output is the sorted
    uncommitted history; and by examples, that replicas can order differently when certificates arrive in
    different orders, and that a certificate delivered again is committed again.
  \<^item> \<open>Store\<close> (\<open>store/src/lib.rs\<close>): the store task, with the locale
    \<open>key_value\<close>; waiting reads are answered once.
  \<^item> \<open>PrimaryNode\<close>, \<open>Synchronizer\<close>, \<open>Core\<close>,
    \<open>CoreSafety\<close>, \<open>CoreVotes\<close> (\<open>primary/src/primary.rs\<close>,
    \<open>synchronizer.rs\<close>, \<open>core.rs\<close>): the core task with the mutual recursion of its
    three processing functions. They carry fuel; seven nested calls are enough (a certificate completes a vote,
    its header causes our own vote, which may complete a certificate, whose header may cause our vote once more,
    which is refused), and \<open>core_fuel_suffices\<close> proves that the result does not depend on what
    happens when fuel is used up. The locales \<open>core_blocks\<close> and \<open>core_relation\<close> carry
    a relation from the blocks of the code to the whole task.
  \<^item> \<open>Proposer\<close>, \<open>HeaderWaiter\<close>, \<open>PrimaryTasks\<close> (the files of these
    names in \<open>primary/src\<close>; \<open>PrimaryTasks\<close> has \<open>certificate_waiter.rs\<close>,
    \<open>garbage_collector.rs\<close>, \<open>helper.rs\<close> and \<open>payload_receiver.rs\<close>): one
    header per round and none while silent, no digest lost, suspended headers and certificates resume when their
    data is there.
  \<^item> \<open>Primary\<close> (\<open>Primary::spawn\<close>): all tasks of a primary with their channels,
    the shared store and the shared counter as one state machine. The locale \<open>primary_relation\<close>
    lifts the relations of the core task to every interleaving: one vote per round and author, causal delivery
    to consensus.
  \<^item> \<open>Network\<close> (\<open>network/src\<close>): reliable sender and connections as a step
    relation, best-effort sender, the loop of a receiver over any handler (locale
    \<open>message_handler\<close>). A connection loses only cancelled messages and keeps the order.
    \<open>CoreNetwork\<close>: the sends of the core task are the queues of the reliable sender, and it keeps
    the handler of each message until the round of the message is garbage collected.
  \<^item> \<open>Worker\<close>, \<open>WorkerSync\<close> (\<open>worker/src\<close>): batch maker, quorum
    waiter, processor, connector, helper, handlers, synchronizer and spawning. No transaction lost or reordered,
    a batch reported exactly with a quorum, batches fetched by digest, pending batches followed up; and how
    batch requests of a primary go astray.
  \<^item> \<open>WorkerNode\<close> (\<open>Worker::spawn\<close>): all tasks of a worker with their channels
    and the store as one state machine. In every interleaving no transaction is lost or reordered, and every
    digest reported to the primary is that of a stored batch.
  \<^item> \<open>Receiver\<close> (\<open>network/src/receiver.rs\<close>): the listening loop with the runners
    of all its connections, interleaved. Handlers are clones and may share a state: every connection is served
    as by \<open>runner\<close> alone, but for the pause flag of a worker, which its connections share.
  \<^item> \<open>Agreement\<close>: any number of primaries, some Byzantine: two verified certificates of one
    round and author are for the same header.
  \<^item> \<open>LeaderChain\<close>, \<open>ReplicaDag\<close>, \<open>LeaderAgreement\<close>: the leaders of
    a DAG as an abstract chain (locale \<open>leader_chain\<close>, interpreted on the headers of certified
    DAGs), the part of the DAG that a replica holds, and that the walk of the code commits exactly the chain of
    its last leader, so that replicas commit the same leaders whatever the order of delivery.
  \<^item> \<open>Authority\<close> (\<open>run\<close> of \<open>node/src/main.rs\<close>): primary and
    consensus of one process with the two channels between them. A run projects onto a run of the primary and
    one of consensus; what a primary hands to consensus is in causal order.
  \<^item> \<open>VotesInTime\<close>, \<open>CoreSound\<close>, \<open>PrimarySound\<close>,
    \<open>HonestAuthorities\<close>: the theorem over all of this. An honest authority votes once in a slot, as
    long as it votes for no round that it has collected. Every header and certificate in a channel, a waiter or
    the store of a primary is sound (it carries its own digest, it has a quorum of signers, its parents are
    stored), in every interleaving; so the certificates that honest authorities hand to consensus are a certified
    DAG, and they commit the same leaders (\<open>honest_authorities_agree\<close>).
  \<^item> \<open>ConfigFiles\<close> (\<open>config/src/lib.rs\<close>): a file system with the buffered
    writer, export and import of JSON, key pairs. \<open>NodeMain\<close> (\<open>node/src/main.rs\<close>): the
    command line, the loading of the files and the start of each role.
  \<^item> \<open>Client\<close> (\<open>node/src/benchmark_client.rs\<close>): the load generator: its
    arguments, the wait for the nodes (a \<open>partial_function\<close>, as it may never end), the silent slots
    and the sample numbers.
  \<^item> \<open>Formatting\<close>: the log lines by which the benchmark measures the system; that of a header
    tells its round and author.

  \<^bold>\<open>Bounds.\<close> Fuel occurs in the core task only, see above. The agreement theorems ask for a
  total stake below \<open>2 ^ 31\<close> (\<open>committee_ok\<close>), rounds and garbage collection depths
  below \<open>2 ^ 63\<close>, where the sums of the code do not wrap, and no certificate of round 0
  (\<open>genesis_triple_accepted\<close> shows what the code does with one). That nothing is committed twice
  needs that no slot is handed to consensus twice (\<open>redelivery_commits_twice\<close>); agreement on the
  leaders does not. \<open>honest_authorities_agree\<close> asks that no honest authority votes for a round
  that it has garbage collected (\<open>votes_in_time\<close>): the code does not check it for headers that a
  waiter hands back (\<open>collected_slot_voted_again\<close>).

  \<^bold>\<open>Not modelled.\<close> TCP and framing, the logger, the parsing of the command line by
  \<open>clap\<close>, the tests, and the Python scripts under \<open>benchmark/\<close>: they are I/O,
  formatting or driver code without protocol state. Serde, JSON, base64 and socket address parsing are
  parameters. Channels have no capacity here, so a full channel, which makes a sender wait, is not a behaviour
  of the model, and tasks interleave by whole events, as the code of a task between two receives touches no
  state of another task except the store.
\<close>

end
